(* ===== verification/C_Prelude.thy ===== *)
theory C_Prelude
  imports Main "HOL-Library.Word"
begin

text \<open>
  What the component theories share: the integer conversions of C on the LP64 target the kernel is
  built for (\<open>x86_64-qemu\<close>), the outcome of running a C function, address intervals, and
  singly linked lists with the loops that walk them.

  Addresses and C integers are \<^typ>\<open>int\<close>; every conversion to a machine width is written out:
  \<open>u64\<close> is the conversion to \<^verbatim>\<open>size_t\<close>, \<^verbatim>\<open>uintptr_t\<close> and pointers, \<open>u32\<close> to
  \<^verbatim>\<open>unsigned\<close>, \<open>s32\<close> to \<^verbatim>\<open>int\<close>.  A C function that may fail an \<^verbatim>\<open>assert\<close>, panic,
  or loop for ever has the result type \<open>'a cres\<close>: \<open>None\<close> is "never returns",
  \<open>Some (Inl f)\<close> a fault, \<open>Some (Inr v)\<close> a normal return.
\<close>

named_theorems width_simps \<open>conversions that do nothing on values in range\<close>
named_theorems mem_simps \<open>reads of byte memory after writes\<close>
named_theorems cres_simps \<open>sequencing of outcomes\<close>

subsection \<open>Conversions between integer widths\<close>

definition u32 :: "int \<Rightarrow> int" where
  "u32 x = x mod 4294967296"

definition u64 :: "int \<Rightarrow> int" where
  "u64 x = x mod 18446744073709551616"

definition s32 :: "int \<Rightarrow> int" where
  "s32 x = (x + 2147483648) mod 4294967296 - 2147483648"

lemma u32_range [simp]: "0 \<le> u32 x" "u32 x < 4294967296"
  by (simp_all add: u32_def)

lemma u64_range [simp]: "0 \<le> u64 x" "u64 x < 18446744073709551616"
  by (simp_all add: u64_def)

lemma s32_range [simp]: "- 2147483648 \<le> s32 x" "s32 x < 2147483648"
  by (auto simp: s32_def)

lemma conv_0 [simp]: "u32 0 = 0" "u64 0 = 0" "s32 0 = 0"
  by (simp_all add: u32_def u64_def s32_def)

lemma u32_id [width_simps]: "0 \<le> x \<Longrightarrow> x < 4294967296 \<Longrightarrow> u32 x = x"
  by (simp add: u32_def)

lemma u64_id [width_simps]: "0 \<le> x \<Longrightarrow> x < 18446744073709551616 \<Longrightarrow> u64 x = x"
  by (simp add: u64_def)

lemma s32_id [width_simps]: "- 2147483648 \<le> x \<Longrightarrow> x < 2147483648 \<Longrightarrow> s32 x = x"
  by (simp add: s32_def)

lemma s32_u32 [simp]: "s32 (u32 x) = s32 x"
  by (simp add: s32_def u32_def mod_add_left_eq)

lemma u32_u64 [simp]: "u32 (u64 x) = u32 x"
  by (simp add: u32_def u64_def mod_mod_cancel)

lemma s32_u64 [simp]: "s32 (u64 x) = s32 x"
  by (metis s32_u32 u32_u64)

lemma div_below: "0 < b \<Longrightarrow> n < b * c \<Longrightarrow> n div b < c" for b n c :: int
proof (rule ccontr)
  assume "0 < b" "n < b * c" "\<not> n div b < c"
  then have "b * c \<le> b * (n div b)" by (intro mult_left_mono) auto
  also have "\<dots> \<le> n" using \<open>0 < b\<close> by (simp add: minus_mod_eq_mult_div [symmetric])
  finally show False using \<open>n < b * c\<close> by simp
qed

unbundle bit_operations_syntax

text \<open>Bits put together below others are added.\<close>

lemma or_low:
  fixes a b :: int
  assumes "2 ^ k dvd a" "0 \<le> b" "b < 2 ^ k"
  shows "a OR b = a + b"
proof -
  have a: "a AND mask k = 0" using assms(1) by (simp add: take_bit_eq_mask [symmetric] take_bit_eq_mod)
  have "b AND mask k = b" using assms(2,3) by (simp add: take_bit_eq_mask [symmetric] take_bit_int_eq_self)
  then have "a AND b = (a AND mask k) AND b" by (metis and.assoc and.commute)
  with a show ?thesis by (simp add: disjunctive_add_eq_or)
qed

lemma and_not_mask: "a AND NOT (mask n) = a - take_bit n a" for a :: int
proof -
  have "(a AND NOT (mask n)) + take_bit n a = (a AND NOT (mask n)) OR take_bit n a"
    by (rule disjunctive_add_eq_or, rule bit_eqI) (auto simp: bit_simps)
  also have "\<dots> = a" by (rule bit_eqI) (auto simp: bit_simps)
  finally show ?thesis by linarith
qed

subsection \<open>Outcomes of C functions\<close>

datatype fault = Assert_Fail | Panic | Null_Deref | Div_Zero | Missing_Arg

type_synonym 'a cres = "(fault + 'a) option"

definition cret :: "'a \<Rightarrow> 'a cres" where
  "cret v = Some (Inr v)"

definition cfail :: "fault \<Rightarrow> 'a cres" where
  "cfail f = Some (Inl f)"

definition cbind :: "'a cres \<Rightarrow> ('a \<Rightarrow> 'b cres) \<Rightarrow> 'b cres" where
  "cbind r k = (case r of None \<Rightarrow> None | Some (Inl f) \<Rightarrow> Some (Inl f) | Some (Inr v) \<Rightarrow> k v)"

definition cassert :: "bool \<Rightarrow> 'a cres \<Rightarrow> 'a cres" where
  "cassert b r = (if b then r else cfail Assert_Fail)"

lemma cbind_simps [cres_simps, simp]:
  "cbind None k = None"
  "cbind (cret v) k = k v"
  "cbind (cfail f) k = cfail f"
  "cassert True r = r"
  "cassert False r = cfail Assert_Fail"
  "cret v = cret w \<longleftrightarrow> v = w"
  "cret v \<noteq> None"
  "cret v \<noteq> cfail f"
  "cfail f \<noteq> cret v"
  by (simp_all add: cbind_def cret_def cfail_def cassert_def)

lemma cbind_ret_iff [cres_simps]:
  "cbind r k = cret w \<longleftrightarrow> (\<exists>v. r = cret v \<and> k v = cret w)"
  by (auto simp: cbind_def cret_def split: option.splits sum.splits)

lemma cassert_ret_iff [cres_simps]: "cassert b r = cret w \<longleftrightarrow> b \<and> r = cret w"
  by (simp add: cassert_def)

lemma obind_ret_iff [cres_simps]: "Option.bind r k = cret w \<longleftrightarrow> (\<exists>v. r = Some v \<and> k v = cret w)"
  by (cases r) (auto simp: cret_def)

lemma cbind_bind:
  "cbind r k = Option.bind r (\<lambda>v. case v of Inl e \<Rightarrow> Some (Inl e) | Inr w \<Rightarrow> k w)"
  by (auto simp: cbind_def split: option.split sum.split)

lemma cbind_mono [partial_function_mono]:
  assumes "mono_option B" "\<And>y. mono_option (\<lambda>f. C y f)"
  shows "mono_option (\<lambda>f. cbind (B f) (\<lambda>y. C y f))"
  unfolding cbind_bind
proof (rule bind_mono [OF assms(1)])
  show "mono_option (\<lambda>f. case v of Inl e \<Rightarrow> Some (Inl e) | Inr w \<Rightarrow> C w f)" for v
    by (cases v) (auto intro: assms(2) option.const_mono)
qed

subsection \<open>Intervals of addresses\<close>

text \<open>A region is a pair of its first address and its length in bytes.\<close>

type_synonym region = "int \<times> int"

definition bytes :: "region \<Rightarrow> int set" where
  "bytes r = {fst r..<fst r + snd r}"

definition apart :: "region \<Rightarrow> region \<Rightarrow> bool" where
  "apart r t \<longleftrightarrow> fst r + snd r \<le> fst t \<or> fst t + snd t \<le> fst r"

lemma bytes_iff [simp]: "x \<in> bytes (a, n) \<longleftrightarrow> a \<le> x \<and> x < a + n"
  by (auto simp: bytes_def)

lemma apart_simp [simp]: "apart (a, n) (b, k) \<longleftrightarrow> a + n \<le> b \<or> b + k \<le> a"
  by (simp add: apart_def)

lemma apart_sym: "apart r t \<longleftrightarrow> apart t r"
  by (auto simp: apart_def)

lemma apart_bytes: "apart r t \<Longrightarrow> bytes r \<inter> bytes t = {}"
  by (auto simp: apart_def bytes_def)

lemma apart_iff: "0 < snd r \<Longrightarrow> 0 < snd t \<Longrightarrow> apart r t \<longleftrightarrow> bytes r \<inter> bytes t = {}"
proof
  assume pos: "0 < snd r" "0 < snd t" and d: "bytes r \<inter> bytes t = {}"
  have "fst t \<notin> bytes r \<or> fst t \<notin> bytes t" "fst r \<notin> bytes r \<or> fst r \<notin> bytes t" using d by auto
  then show "apart r t" using pos by (auto simp: bytes_def apart_def)
qed (use apart_bytes in blast)

definition all_apart :: "region list \<Rightarrow> bool" where
  "all_apart rs = sorted_wrt apart rs"

lemma all_apart_simps [simp]:
  "all_apart []"
  "all_apart (r # rs) \<longleftrightarrow> (\<forall>t \<in> set rs. apart r t) \<and> all_apart rs"
  "all_apart (rs @ ts) \<longleftrightarrow> all_apart rs \<and> all_apart ts \<and> (\<forall>r \<in> set rs. \<forall>t \<in> set ts. apart r t)"
  by (simp_all add: all_apart_def sorted_wrt_append)

definition all_bytes :: "region list \<Rightarrow> int set" where
  "all_bytes rs = (\<Union>r \<in> set rs. bytes r)"

lemma all_bytes_simps [simp]:
  "all_bytes [] = {}"
  "all_bytes (r # rs) = bytes r \<union> all_bytes rs"
  "all_bytes (rs @ ts) = all_bytes rs \<union> all_bytes ts"
  by (auto simp: all_bytes_def)

lemma all_bytes_memI: "r \<in> set rs \<Longrightarrow> x \<in> bytes r \<Longrightarrow> x \<in> all_bytes rs"
  by (auto simp: all_bytes_def)

lemma all_bytes_memE:
  assumes "x \<in> all_bytes rs"
  obtains a n where "(a, n) \<in> set rs" "a \<le> x" "x < a + n"
  using assms by (auto simp: all_bytes_def bytes_def)

subsection \<open>Linked lists and the loops that walk them\<close>

text \<open>
  \<open>chain nxt p xs\<close>: following \<open>nxt\<close> from \<open>p\<close> visits exactly the nodes \<open>xs\<close> and ends at
  \<^verbatim>\<open>NULL\<close>.  The loops below are the shapes in which \<open>kernel/src/pmm.c\<close> walks its lists; they
  are partial functions because a list in corrupted memory may be cyclic.
\<close>

fun chain :: "(int \<Rightarrow> int) \<Rightarrow> int \<Rightarrow> int list \<Rightarrow> bool" where
  "chain nxt p [] \<longleftrightarrow> p = 0"
| "chain nxt p (a # xs) \<longleftrightarrow> p = a \<and> a \<noteq> 0 \<and> chain nxt (nxt a) xs"

text \<open>\<^verbatim>\<open>while (h) { if (P(h)) break; h = h->next; }\<close>: where \<^verbatim>\<open>h\<close> stops.\<close>

partial_function (option) scan :: "(int \<Rightarrow> bool) \<Rightarrow> (int \<Rightarrow> int) \<Rightarrow> int \<Rightarrow> int option" where
  "scan P nxt h =
     (if h = 0 then Some 0 else if P h then Some h else scan P nxt (nxt h))"

text \<open>The same loop with \<^verbatim>\<open>prenode = h\<close> before the step: the node and its predecessor.\<close>

partial_function (option) scan_prev ::
  "(int \<Rightarrow> bool) \<Rightarrow> (int \<Rightarrow> int) \<Rightarrow> int \<Rightarrow> int \<Rightarrow> (int \<times> int) option" where
  "scan_prev P nxt pre h =
     (if h = 0 then Some (0, pre) else if P h then Some (h, pre)
      else scan_prev P nxt h (nxt h))"

text \<open>\<^verbatim>\<open>while (h) { acc = f(h, acc); h = h->next; }\<close>\<close>

partial_function (option) walk :: "(int \<Rightarrow> 'a \<Rightarrow> 'a) \<Rightarrow> (int \<Rightarrow> int) \<Rightarrow> int \<Rightarrow> 'a \<Rightarrow> 'a option" where
  "walk f nxt h acc = (if h = 0 then Some acc else walk f nxt (nxt h) (f h acc))"

lemma chain_nonzero: "chain nxt p xs \<Longrightarrow> 0 \<notin> set xs"
  by (induction xs arbitrary: p) auto

lemma chain_head: "chain nxt p xs \<Longrightarrow> p = (if xs = [] then 0 else hd xs)"
  by (cases xs) auto

lemma chain_cong: "(\<And>a. a \<in> set xs \<Longrightarrow> nxt a = nxt' a) \<Longrightarrow> chain nxt p xs \<longleftrightarrow> chain nxt' p xs"
  by (induction xs arbitrary: p) auto

lemma chain_unique: "chain nxt p xs \<Longrightarrow> chain nxt p ys \<Longrightarrow> xs = ys"
proof (induction xs arbitrary: p ys)
  case Nil
  then show ?case by (cases ys) auto
next
  case (Cons a xs)
  then show ?case by (cases ys) auto
qed

fun path :: "(int \<Rightarrow> int) \<Rightarrow> int \<Rightarrow> int list \<Rightarrow> int \<Rightarrow> bool" where
  "path nxt p [] q \<longleftrightarrow> p = q"
| "path nxt p (a # xs) q \<longleftrightarrow> p = a \<and> a \<noteq> 0 \<and> path nxt (nxt a) xs q"

lemma chain_split: "chain nxt p (xs @ ys) \<longleftrightarrow> (\<exists>q. path nxt p xs q \<and> chain nxt q ys)"
  by (induction xs arbitrary: p) auto

lemma path_cong: "(\<And>a. a \<in> set xs \<Longrightarrow> nxt a = nxt' a) \<Longrightarrow> path nxt p xs q \<longleftrightarrow> path nxt' p xs q"
  by (induction xs arbitrary: p) auto

lemma path_snoc: "path nxt p (xs @ [a]) q \<longleftrightarrow> path nxt p xs a \<and> a \<noteq> 0 \<and> nxt a = q"
  by (induction xs arbitrary: p) auto

lemma chain_distinct: "chain nxt p xs \<Longrightarrow> distinct xs"
proof (induction xs arbitrary: p)
  case (Cons a xs)
  have "a \<notin> set xs"
  proof
    assume "a \<in> set xs"
    then obtain us zs where xs: "xs = us @ a # zs" by (meson split_list)
    then have "chain nxt (nxt a) zs" using Cons.prems by (auto simp: chain_split)
    with Cons.prems xs show False using chain_unique [of nxt "nxt a" xs zs] by simp
  qed
  with Cons show ?case by auto
qed simp

lemma scan_found:
  "chain nxt p (xs @ a # ys) \<Longrightarrow> (\<And>x. x \<in> set xs \<Longrightarrow> \<not> P x) \<Longrightarrow> P a \<Longrightarrow> scan P nxt p = Some a"
  by (induction xs arbitrary: p) (auto simp: scan.simps)

lemma scan_none: "chain nxt p xs \<Longrightarrow> (\<And>x. x \<in> set xs \<Longrightarrow> \<not> P x) \<Longrightarrow> scan P nxt p = Some 0"
  by (induction xs arbitrary: p) (auto simp: scan.simps)

lemma scan_prev_found:
  "chain nxt p (xs @ a # ys) \<Longrightarrow> (\<And>x. x \<in> set xs \<Longrightarrow> \<not> P x) \<Longrightarrow> P a \<Longrightarrow>
     scan_prev P nxt pre p = Some (a, last (pre # xs))"
  by (induction xs arbitrary: p pre) (auto simp: scan_prev.simps)

lemma scan_prev_none:
  "chain nxt p xs \<Longrightarrow> (\<And>x. x \<in> set xs \<Longrightarrow> \<not> P x) \<Longrightarrow>
     scan_prev P nxt pre p = Some (0, last (pre # xs))"
  by (induction xs arbitrary: p pre) (auto simp: scan_prev.simps)

lemma walk_chain: "chain nxt p xs \<Longrightarrow> walk f nxt p acc = Some (fold f xs acc)"
  by (induction xs arbitrary: p acc) (auto simp: walk.simps)

end
