(* ===== verification/C_Memory.thy ===== *)
theory C_Memory
  imports C_Prelude
begin

text \<open>
  Byte-addressed physical memory with the little-endian loads and stores of x86-64, and the
  16-byte node layout that the four structures of \<open>kernel/include/common.h\<close> have in common.

  The locale \<open>cell\<close> states what a field of fixed width promises; it is interpreted on the 32-bit,
  signed 32-bit and 64-bit accessors.  The locale \<open>node_field\<close> states what one field of a node
  promises to code that only sees whole nodes; it is interpreted on the fields of the structures.
\<close>

type_synonym mem = "int \<Rightarrow> 8 word"

subsection \<open>Loads and stores\<close>

definition load32 :: "mem \<Rightarrow> int \<Rightarrow> int" where
  "load32 m a = uint (m a) + 256 * uint (m (a + 1)) + 65536 * uint (m (a + 2))
     + 16777216 * uint (m (a + 3))"

definition loads32 :: "mem \<Rightarrow> int \<Rightarrow> int" where
  "loads32 m a = s32 (load32 m a)"

definition load64 :: "mem \<Rightarrow> int \<Rightarrow> int" where
  "load64 m a = load32 m a + 4294967296 * load32 m (a + 4)"

definition store8 :: "mem \<Rightarrow> int \<Rightarrow> int \<Rightarrow> mem" where
  "store8 m a v = m(a := word_of_int v)"

definition store32 :: "mem \<Rightarrow> int \<Rightarrow> int \<Rightarrow> mem" where
  "store32 m a v =
     store8 (store8 (store8 (store8 m a v) (a + 1) (v div 256)) (a + 2) (v div 65536))
       (a + 3) (v div 16777216)"

definition store64 :: "mem \<Rightarrow> int \<Rightarrow> int \<Rightarrow> mem" where
  "store64 m a v = store32 (store32 m a v) (a + 4) (v div 4294967296)"

lemma store8_apply [simp]: "store8 m a v x = (if x = a then word_of_int v else m x)"
  by (simp add: store8_def)

lemma uint_byte: "uint (word_of_int v :: 8 word) = v mod 256"
  by (simp add: uint_word_of_int)

lemma byte_range: "0 \<le> uint (b :: 8 word)" "uint (b :: 8 word) < 256"
  using uint_lt2p [of b] by simp_all

lemma store32_frame: "x < a \<or> a + 4 \<le> x \<Longrightarrow> store32 m a v x = m x"
  by (auto simp: store32_def)

lemma store64_frame: "x < a \<or> a + 8 \<le> x \<Longrightarrow> store64 m a v x = m x"
  by (auto simp: store64_def store32_frame)

lemma load32_cong: "(\<And>x. a \<le> x \<Longrightarrow> x < a + 4 \<Longrightarrow> m x = m' x) \<Longrightarrow> load32 m a = load32 m' a"
  by (simp add: load32_def)

lemma load64_cong: "(\<And>x. a \<le> x \<Longrightarrow> x < a + 8 \<Longrightarrow> m x = m' x) \<Longrightarrow> load64 m a = load64 m' a"
  by (simp add: load64_def load32_def)

lemma bytes_of_u32:
  "v mod 256 + 256 * (v div 256 mod 256) + 65536 * (v div 65536 mod 256)
     + 16777216 * (v div 16777216 mod 256) = (v :: int) mod 4294967296"
proof -
  have "v mod 65536 = 256 * (v div 256 mod 256) + v mod 256"
    using zmod_zmult2_eq [of 256 v 256] by simp
  moreover have "v mod 16777216 = 65536 * (v div 65536 mod 256) + v mod 65536"
    using zmod_zmult2_eq [of 256 v 65536] by simp
  moreover have "v mod 4294967296 = 16777216 * (v div 16777216 mod 256) + v mod 16777216"
    using zmod_zmult2_eq [of 256 v 16777216] by simp
  ultimately show ?thesis by linarith
qed

lemma load32_store32: "load32 (store32 m a v) a = u32 v"
  by (simp add: load32_def store32_def uint_byte u32_def bytes_of_u32)

lemma load32_range [simp]: "0 \<le> load32 m a" "load32 m a < 4294967296"
proof -
  note b = byte_range [of "m a"] byte_range [of "m (a + 1)"] byte_range [of "m (a + 2)"]
    byte_range [of "m (a + 3)"]
  show "0 \<le> load32 m a" "load32 m a < 4294967296"
    using b by (simp_all add: load32_def)
qed

lemma load64_range [simp]: "0 \<le> load64 m a" "load64 m a < 18446744073709551616"
  using load32_range [of m a] load32_range [of m "a + 4"] unfolding load64_def by linarith+

lemma load64_store64: "load64 (store64 m a v) a = u64 v"
proof -
  have "load32 (store64 m a v) a = u32 v"
    unfolding store64_def
    by (subst load32_cong [of a _ "store32 m a v"]) (simp_all add: store32_frame load32_store32)
  moreover have "load32 (store64 m a v) (a + 4) = u32 (v div 4294967296)"
    by (simp add: store64_def load32_store32)
  ultimately show ?thesis
    using zmod_zmult2_eq [of 4294967296 v 4294967296]
    by (simp add: load64_def u32_def u64_def)
qed

subsection \<open>A field of fixed width\<close>

locale cell =
  fixes load :: "mem \<Rightarrow> int \<Rightarrow> int"
    and store :: "mem \<Rightarrow> int \<Rightarrow> int \<Rightarrow> mem"
    and width :: int
    and conv :: "int \<Rightarrow> int"
  assumes width_pos: "0 < width"
    and load_local: "(\<And>x. a \<le> x \<Longrightarrow> x < a + width \<Longrightarrow> m x = m' x) \<Longrightarrow> load m a = load m' a"
    and store_local: "x < a \<or> a + width \<le> x \<Longrightarrow> store m a v x = m x"
    and load_store: "load (store m a v) a = conv v"
begin

lemma load_unchanged: "(\<And>x. x \<in> bytes (a, width) \<Longrightarrow> m' x = m x) \<Longrightarrow> load m' a = load m a"
  by (rule load_local) auto

lemma load_store_apart: "apart (a, width) (b, width) \<Longrightarrow> load (store m b v) a = load m a"
  by (rule load_local, rule store_local) auto

lemma store_outside: "x \<notin> bytes (a, width) \<Longrightarrow> store m a v x = m x"
  by (rule store_local) auto

end

interpretation c32: cell load32 store32 4 u32
  by unfold_locales (auto simp: load32_store32 store32_frame intro: load32_cong)

interpretation cs32: cell loads32 store32 4 s32
proof
  show "loads32 m a = loads32 m' a"
    if "\<And>x. a \<le> x \<Longrightarrow> x < a + 4 \<Longrightarrow> m x = m' x" for a m m'
    using load32_cong [of a m m'] that by (simp add: loads32_def)
qed (auto simp: loads32_def load32_store32 store32_frame)

interpretation c64: cell load64 store64 8 u64
  by unfold_locales (auto simp: load64_store64 store64_frame intro: load64_cong)

text \<open>Fields of different widths do not disturb each other when they do not overlap.\<close>

lemma load_store_mixed [mem_simps]:
  "apart (a, 8) (b, 4) \<Longrightarrow> load64 (store32 m b v) a = load64 m a"
  "apart (a, 4) (b, 8) \<Longrightarrow> load32 (store64 m b v) a = load32 m a"
  "apart (a, 4) (b, 8) \<Longrightarrow> loads32 (store64 m b v) a = loads32 m a"
  "apart (a, 4) (b, 4) \<Longrightarrow> loads32 (store32 m b v) a = loads32 m a"
  "apart (a, 4) (b, 4) \<Longrightarrow> load32 (store32 m b v) a = load32 m a"
  "apart (a, 8) (b, 8) \<Longrightarrow> load64 (store64 m b v) a = load64 m a"
  by (auto intro!: c64.load_unchanged c32.load_unchanged cs32.load_unchanged
      simp: store32_frame store64_frame)

lemmas [mem_simps] = load64_store64 load32_store32 cs32.load_store

subsection \<open>The 16-byte node\<close>

text \<open>
  \<^verbatim>\<open>freenode_t\<close>, \<^verbatim>\<open>pagefreenode_t\<close>, \<^verbatim>\<open>pageheader_t\<close> and \<^verbatim>\<open>header_t\<close>
  (\<open>kernel/include/common.h\<close>) all hold a pointer at offset 0, an \<^verbatim>\<open>int size\<close> at offset 8 and a
  last word at offset 12: the \<^verbatim>\<open>int magic\<close> of three of them, the
  \<^verbatim>\<open>unsigned pagefreehead_index\<close> of the page header.
\<close>

definition get_next :: "mem \<Rightarrow> int \<Rightarrow> int" where
  "get_next m p = load64 m p"

definition get_size :: "mem \<Rightarrow> int \<Rightarrow> int" where
  "get_size m p = loads32 m (p + 8)"

definition get_magic :: "mem \<Rightarrow> int \<Rightarrow> int" where
  "get_magic m p = loads32 m (p + 12)"

definition get_pagefreehead_index :: "mem \<Rightarrow> int \<Rightarrow> int" where
  "get_pagefreehead_index m p = load32 m (p + 12)"

definition set_next :: "mem \<Rightarrow> int \<Rightarrow> int \<Rightarrow> mem" where
  "set_next m p v = store64 m p v"

definition set_size :: "mem \<Rightarrow> int \<Rightarrow> int \<Rightarrow> mem" where
  "set_size m p v = store32 m (p + 8) v"

definition set_magic :: "mem \<Rightarrow> int \<Rightarrow> int \<Rightarrow> mem" where
  "set_magic m p v = store32 m (p + 12) v"

definition set_pagefreehead_index :: "mem \<Rightarrow> int \<Rightarrow> int \<Rightarrow> mem" where
  "set_pagefreehead_index m p v = store32 m (p + 12) v"

lemmas node_defs = get_next_def get_size_def get_magic_def get_pagefreehead_index_def
  set_next_def set_size_def set_magic_def set_pagefreehead_index_def

text \<open>The size of each of the four structures.\<close>

abbreviation node_bytes :: int where
  "node_bytes \<equiv> 16"

locale node_field =
  fixes get :: "mem \<Rightarrow> int \<Rightarrow> int"
    and set :: "mem \<Rightarrow> int \<Rightarrow> int \<Rightarrow> mem"
    and conv :: "int \<Rightarrow> int"
  assumes get_set: "get (set m p v) p = conv v"
    and get_local: "(\<And>x. x \<in> bytes (p, node_bytes) \<Longrightarrow> m' x = m x) \<Longrightarrow> get m' p = get m p"
    and set_local: "x \<notin> bytes (p, node_bytes) \<Longrightarrow> set m p v x = m x"
begin

lemma get_set_apart: "apart (p, node_bytes) (q, node_bytes) \<Longrightarrow> get (set m q v) p = get m p"
  using apart_bytes by (intro get_local set_local) blast

lemma set_outside: "bytes (p, node_bytes) \<subseteq> A \<Longrightarrow> x \<notin> A \<Longrightarrow> set m p v x = m x"
  by (rule set_local) blast

end

interpretation nxt: node_field get_next set_next u64
  by unfold_locales
    (auto simp: node_defs load64_store64 store64_frame intro!: load64_cong)

interpretation sz: node_field get_size set_size s32
  by unfold_locales
    (auto simp: node_defs loads32_def load32_store32 store32_frame intro!: arg_cong [of _ _ s32]
      load32_cong)

interpretation mag: node_field get_magic set_magic s32
  by unfold_locales
    (auto simp: node_defs loads32_def load32_store32 store32_frame intro!: arg_cong [of _ _ s32]
      load32_cong)

interpretation pfi: node_field get_pagefreehead_index set_pagefreehead_index u32
  by unfold_locales
    (auto simp: node_defs load32_store32 store32_frame intro!: load32_cong)

text \<open>Writing one field of a node leaves its other fields alone.\<close>

lemma node_other_fields [mem_simps, simp]:
  "get_next (set_size m p v) p = get_next m p"
  "get_next (set_magic m p v) p = get_next m p"
  "get_next (set_pagefreehead_index m p v) p = get_next m p"
  "get_size (set_next m p v) p = get_size m p"
  "get_size (set_magic m p v) p = get_size m p"
  "get_size (set_pagefreehead_index m p v) p = get_size m p"
  "get_magic (set_next m p v) p = get_magic m p"
  "get_magic (set_size m p v) p = get_magic m p"
  "get_pagefreehead_index (set_next m p v) p = get_pagefreehead_index m p"
  "get_pagefreehead_index (set_size m p v) p = get_pagefreehead_index m p"
  by (simp_all add: node_defs load_store_mixed)

lemma node_same_field [mem_simps, simp]:
  "get_next (set_next m p v) p = u64 v"
  "get_size (set_size m p v) p = s32 v"
  "get_magic (set_magic m p v) p = s32 v"
  "get_pagefreehead_index (set_pagefreehead_index m p v) p = u32 v"
  by (fact nxt.get_set sz.get_set mag.get_set pfi.get_set)+

lemma set_size_twice [mem_simps, simp]: "set_size (set_size m p v) p w = set_size m p w"
  by (rule ext) (simp add: set_size_def store32_def)

lemma node_apart_fields [mem_simps]:
  assumes "apart (p, node_bytes) (q, node_bytes)"
  shows "get_next (set_next m q v) p = get_next m p"
    "get_next (set_size m q v) p = get_next m p"
    "get_next (set_magic m q v) p = get_next m p"
    "get_next (set_pagefreehead_index m q v) p = get_next m p"
    "get_size (set_next m q v) p = get_size m p"
    "get_size (set_size m q v) p = get_size m p"
    "get_size (set_magic m q v) p = get_size m p"
    "get_size (set_pagefreehead_index m q v) p = get_size m p"
    "get_magic (set_next m q v) p = get_magic m p"
    "get_magic (set_size m q v) p = get_magic m p"
    "get_magic (set_magic m q v) p = get_magic m p"
    "get_magic (set_pagefreehead_index m q v) p = get_magic m p"
    "get_pagefreehead_index (set_next m q v) p = get_pagefreehead_index m p"
    "get_pagefreehead_index (set_size m q v) p = get_pagefreehead_index m p"
    "get_pagefreehead_index (set_magic m q v) p = get_pagefreehead_index m p"
    "get_pagefreehead_index (set_pagefreehead_index m q v) p = get_pagefreehead_index m p"
  using assms by (auto simp: node_defs load_store_mixed)

lemma node_set_frame [mem_simps]:
  assumes "x \<notin> bytes (p, node_bytes)"
  shows "set_next m p v x = m x" "set_size m p v x = m x" "set_magic m p v x = m x"
    "set_pagefreehead_index m p v x = m x"
  using assms by (fact nxt.set_local sz.set_local mag.set_local pfi.set_local)+

lemma node_local:
  assumes "\<And>x. x \<in> bytes (p, node_bytes) \<Longrightarrow> m' x = m x"
  shows "get_next m' p = get_next m p" "get_size m' p = get_size m p"
    "get_magic m' p = get_magic m p" "get_pagefreehead_index m' p = get_pagefreehead_index m p"
  using assms by (blast intro: nxt.get_local sz.get_local mag.get_local pfi.get_local)+

lemma node_ranges [simp]:
  "0 \<le> get_next m p" "get_next m p < 18446744073709551616"
  "- 2147483648 \<le> get_size m p" "get_size m p < 2147483648"
  "0 \<le> get_pagefreehead_index m p" "get_pagefreehead_index m p < 4294967296"
  by (simp_all add: node_defs loads32_def)

subsection \<open>Lists of nodes\<close>

text \<open>
  \<open>node_list m p xs\<close>: the list that starts at \<open>p\<close> has the nodes \<open>xs\<close>, each given as the region
  its address and \<^verbatim>\<open>size\<close> field describe.
\<close>

definition node_list :: "mem \<Rightarrow> int \<Rightarrow> region list \<Rightarrow> bool" where
  "node_list m p xs \<longleftrightarrow>
     chain (get_next m) p (map fst xs) \<and> (\<forall>r \<in> set xs. get_size m (fst r) = snd r)"

definition clear_of :: "int \<Rightarrow> region list \<Rightarrow> bool" where
  "clear_of b xs \<longleftrightarrow> (\<forall>r \<in> set xs. apart (fst r, node_bytes) (b, node_bytes))"

lemma clear_of_simps [simp]:
  "clear_of b []"
  "clear_of b (r # xs) \<longleftrightarrow> apart (fst r, node_bytes) (b, node_bytes) \<and> clear_of b xs"
  "clear_of b (xs @ ys) \<longleftrightarrow> clear_of b xs \<and> clear_of b ys"
  by (auto simp: clear_of_def)

lemma node_list_Nil [simp]: "node_list m p [] \<longleftrightarrow> p = 0"
  by (simp add: node_list_def)

lemma node_list_Cons [simp]:
  "node_list m p ((a, n) # xs) \<longleftrightarrow>
     p = a \<and> a \<noteq> 0 \<and> get_size m a = n \<and> node_list m (get_next m a) xs"
  by (auto simp: node_list_def)

lemma node_list_unique: "node_list m p xs \<Longrightarrow> node_list m p ys \<Longrightarrow> xs = ys"
proof -
  assume xs: "node_list m p xs" and ys: "node_list m p ys"
  have "zs = map (\<lambda>a. (a, get_size m a)) (map fst zs)" if "node_list m p zs" for zs
    using that by (induction zs arbitrary: p) auto
  moreover have "map fst xs = map fst ys" using xs ys chain_unique by (fastforce simp: node_list_def)
  ultimately show "xs = ys" using xs ys by metis
qed

lemma node_list_frame:
  assumes "node_list m p xs"
    and "\<And>r x. r \<in> set xs \<Longrightarrow> x \<in> bytes (fst r, node_bytes) \<Longrightarrow> m' x = m x"
  shows "node_list m' p xs"
proof -
  have eq: "get_next m (fst r) = get_next m' (fst r)" "get_size m' (fst r) = get_size m (fst r)"
    if "r \<in> set xs" for r
    using node_local [of "fst r" m' m] assms(2) that by auto
  have "chain (get_next m) p (map fst xs) = chain (get_next m') p (map fst xs)"
    by (rule chain_cong) (use eq in auto)
  with assms(1) eq show ?thesis by (simp add: node_list_def)
qed

lemma node_list_set [simp]:
  assumes "clear_of b xs"
  shows "node_list (set_next m b v) p xs \<longleftrightarrow> node_list m p xs"
    "node_list (set_size m b v) p xs \<longleftrightarrow> node_list m p xs"
    "node_list (set_magic m b v) p xs \<longleftrightarrow> node_list m p xs"
    "node_list (set_pagefreehead_index m b v) p xs \<longleftrightarrow> node_list m p xs"
  using assms
  by (induction xs arbitrary: p) (auto simp: node_apart_fields)

text \<open>Redirecting the node before a sublist.\<close>

lemma node_list_relink:
  assumes "node_list m p (xs @ (b, k) # ys)" "node_list m q zs" "clear_of b xs" "clear_of b zs"
    and "0 \<le> q" "q < 18446744073709551616"
  shows "node_list (set_next m b q) p (xs @ (b, k) # zs)"
  using assms
proof (induction xs arbitrary: p)
  case Nil
  then show ?case by (simp add: u64_id)
next
  case (Cons r xs)
  then show ?case by (cases r) (auto simp: node_apart_fields)
qed

lemma node_list_resize:
  assumes "node_list m p (xs @ (b, k) # ys)" "clear_of b xs" "clear_of b ys"
    and "- 2147483648 \<le> v" "v < 2147483648"
  shows "node_list (set_size m b v) p (xs @ (b, v) # ys)"
  using assms
proof (induction xs arbitrary: p)
  case Nil
  then show ?case by (simp add: s32_id)
next
  case (Cons r xs)
  then show ?case by (cases r) (auto simp: node_apart_fields)
qed

text \<open>The list after a node, and the head of a list.\<close>

lemma node_list_after:
  "node_list m p (xs @ (b, k) # ys) \<Longrightarrow> node_list m (get_next m b) ys \<and> get_size m b = k \<and> b \<noteq> 0"
  by (induction xs arbitrary: p) auto

lemma node_list_hd: "node_list m p xs \<Longrightarrow> p = (case xs of [] \<Rightarrow> 0 | r # _ \<Rightarrow> fst r)"
  by (cases xs) auto

lemma node_list_next_before:
  "node_list m p (xs @ [(b, k)] @ (c, l) # ys) \<Longrightarrow> get_next m b = c"
  by (induction xs arbitrary: p) auto

lemma node_list_range: "node_list m p xs \<Longrightarrow> xs \<noteq> [] \<Longrightarrow> fst (last xs) \<noteq> 0"
  by (induction xs arbitrary: p) auto

text \<open>The loops of \<open>C_Prelude\<close> on a list of nodes.\<close>

lemma node_list_scan_found:
  assumes "node_list m p (xs @ (a, n) # ys)" "\<And>r. r \<in> set xs \<Longrightarrow> \<not> P (fst r)" "P a"
  shows "scan P (get_next m) p = Some a"
    and "scan_prev P (get_next m) pre p = Some (a, last (pre # map fst xs))"
  using assms unfolding node_list_def
  by (auto intro!: scan_found [where xs = "map fst xs" and ys = "map fst ys"]
      scan_prev_found [where xs = "map fst xs" and ys = "map fst ys"] simp del: last.simps)

lemma node_list_scan_none:
  assumes "node_list m p xs" "\<And>r. r \<in> set xs \<Longrightarrow> \<not> P (fst r)"
  shows "scan P (get_next m) p = Some 0"
    and "scan_prev P (get_next m) pre p = Some (0, last (pre # map fst xs))"
  using assms unfolding node_list_def
  by (auto intro!: scan_none [where xs = "map fst xs"] scan_prev_none [where xs = "map fst xs"]
      simp del: last.simps)

lemma node_list_walk:
  "node_list m p xs \<Longrightarrow> walk f (get_next m) p acc = Some (fold (\<lambda>r. f (fst r)) xs acc)"
  using walk_chain [of "get_next m" p "map fst xs" f acc]
  by (simp add: node_list_def fold_map comp_def)

lemma node_list_sizes: "node_list m p xs \<Longrightarrow> (a, n) \<in> set xs \<Longrightarrow> get_size m a = n"
  by (auto simp: node_list_def)

end
