(* ===== verification/Klib_String.thy ===== *)
theory Klib_String
  imports C_Memory
begin

text \<open>
  \<open>abstract-machine/klib/src/string.c\<close>: the freestanding string and memory functions, each on the
  byte memory of \<open>C_Memory\<close>.  Loops over NUL-terminated strings are partial functions (a string
  without terminator never ends); loops that count a \<^verbatim>\<open>size_t\<close> down or up terminate.  Strings and
  buffers do not run past the top of the address space, so pointer increments are plain additions.
\<close>

subsection \<open>Model\<close>

text \<open>The value of a (signed) \<^verbatim>\<open>char\<close>.\<close>

abbreviation char_at :: "mem \<Rightarrow> int \<Rightarrow> int" where
  "char_at m p \<equiv> sint (m p)"

partial_function (option) strlen_loop :: "mem \<Rightarrow> int \<Rightarrow> int \<Rightarrow> int option" where
  "strlen_loop m s i = (if m s = 0 then Some i else strlen_loop m (s + 1) (u64 (i + 1)))"

definition strlen :: "mem \<Rightarrow> int \<Rightarrow> int option" where
  "strlen m s = (if s = 0 then Some 0 else strlen_loop m s 0)"

text \<open>\<^verbatim>\<open>for (; *_src != '\0'; _src++) *_dst++ = *_src;\<close>\<close>

partial_function (option) copy_loop :: "mem \<Rightarrow> int \<Rightarrow> int \<Rightarrow> (mem \<times> int) option" where
  "copy_loop m d s =
     (if m s = 0 then Some (m, d) else copy_loop (m(d := m s)) (d + 1) (s + 1))"

definition strcpy :: "mem \<Rightarrow> int \<Rightarrow> int \<Rightarrow> (mem \<times> int) cres" where
  "strcpy m dst src =
     cassert (dst \<noteq> 0 \<and> src \<noteq> 0)
       (Option.bind (copy_loop m dst src) (\<lambda>(m, d).
          let m = m(d := 0) in
          Option.bind (strlen m dst) (\<lambda>l1.
          Option.bind (strlen m src) (\<lambda>l2.
            cassert (l1 = l2) (cret (m, dst))))))"

text \<open>\<^verbatim>\<open>for (; *_src != '\0' && cnt + 1 <= n; _src++) { *_dst++ = *_src; cnt++; }\<close>\<close>

function strncpy_loop :: "mem \<Rightarrow> int \<Rightarrow> int \<Rightarrow> int \<Rightarrow> int \<Rightarrow> mem \<times> int \<times> int" where
  "strncpy_loop m d s cnt n =
     (if m s \<noteq> 0 \<and> cnt + 1 \<le> n then strncpy_loop (m(d := m s)) (d + 1) (s + 1) (cnt + 1) n
      else (m, d, cnt))"
  by pat_completeness auto
termination
  by (relation "measure (\<lambda>(m, d, s, cnt, n). nat (n - cnt))") auto

declare strncpy_loop.simps [simp del]

definition strncpy :: "mem \<Rightarrow> int \<Rightarrow> int \<Rightarrow> int \<Rightarrow> (mem \<times> int) cres" where
  "strncpy m dst src n =
     cassert (dst \<noteq> 0 \<and> src \<noteq> 0)
       (let (m, d, cnt) = strncpy_loop m dst src 0 n; m = m(d := 0) in
        Option.bind (strlen m dst) (\<lambda>l. cassert (l = cnt) (cassert (cnt \<le> n) (cret (m, dst)))))"

text \<open>\<^verbatim>\<open>while (*_dst != '\0') _dst++;\<close>\<close>

partial_function (option) to_end :: "mem \<Rightarrow> int \<Rightarrow> int option" where
  "to_end m d = (if m d = 0 then Some d else to_end m (d + 1))"

definition strcat :: "mem \<Rightarrow> int \<Rightarrow> int \<Rightarrow> (mem \<times> int) cres" where
  "strcat m dst src =
     cassert (dst \<noteq> 0)
       (Option.bind (strlen m dst) (\<lambda>l0. let left = s32 l0 in
        Option.bind (to_end m dst) (\<lambda>d.
        cassert (m d = 0)
          (if src = 0 then cret (m, dst)
           else Option.bind (copy_loop m d src) (\<lambda>(m, d).
             let m = m(d := 0) in
             Option.bind (strlen m dst) (\<lambda>l1.
             Option.bind (strlen m src) (\<lambda>l2.
               cassert (l1 = u64 (l2 + left)) (cret (m, dst)))))))))"

partial_function (option) strcmp_loop :: "mem \<Rightarrow> int \<Rightarrow> int \<Rightarrow> int option" where
  "strcmp_loop m s1 s2 =
     (if m s1 \<noteq> 0 \<and> m s2 \<noteq> 0 then
        if char_at m s1 < char_at m s2 then Some (- 1)
        else if char_at m s1 > char_at m s2 then Some 1
        else strcmp_loop m (s1 + 1) (s2 + 1)
      else Option.bind (strlen m s2) (\<lambda>l2. Option.bind (strlen m s1) (\<lambda>l1.
        if l2 > l1 then Some (- 1) else if l2 < l1 then Some 1 else Some 0)))"

definition strcmp :: "mem \<Rightarrow> int \<Rightarrow> int \<Rightarrow> int cres" where
  "strcmp m s1 s2 =
     cassert (s1 \<noteq> 0 \<and> s2 \<noteq> 0) (Option.bind (strcmp_loop m s1 s2) cret)"

text \<open>
  In \<^verbatim>\<open>cnt < n\<close> and \<^verbatim>\<open>cnt >= n\<close> the \<^verbatim>\<open>int cnt\<close> is converted to \<^verbatim>\<open>size_t\<close>.
\<close>

partial_function (option) strncmp_loop :: "mem \<Rightarrow> int \<Rightarrow> int \<Rightarrow> int \<Rightarrow> int \<Rightarrow> int option" where
  "strncmp_loop m s1 s2 cnt n =
     (if m s1 \<noteq> 0 \<and> m s2 \<noteq> 0 \<and> u64 cnt < n then
        if char_at m s1 < char_at m s2 then Some (- 1)
        else if char_at m s1 > char_at m s2 then Some 1
        else strncmp_loop m (s1 + 1) (s2 + 1) (s32 (cnt + 1)) n
      else if u64 cnt \<ge> n then Some 0
      else Option.bind (strlen m s2) (\<lambda>l2. Option.bind (strlen m s1) (\<lambda>l1.
        if l2 > l1 then Some (- 1) else if l2 < l1 then Some 1 else Some 0)))"

definition strncmp :: "mem \<Rightarrow> int \<Rightarrow> int \<Rightarrow> int \<Rightarrow> int cres" where
  "strncmp m s1 s2 n =
     cassert (s1 \<noteq> 0 \<and> s2 \<noteq> 0) (Option.bind (strncmp_loop m s1 s2 0 n) cret)"

function memset_loop :: "mem \<Rightarrow> int \<Rightarrow> int \<Rightarrow> int \<Rightarrow> int \<Rightarrow> mem" where
  "memset_loop m s c cnt n =
     (if cnt < n then memset_loop (store8 m (s + cnt) c) s c (cnt + 1) n else m)"
  by pat_completeness auto
termination
  by (relation "measure (\<lambda>(m, s, c, cnt, n). nat (n - cnt))") auto

declare memset_loop.simps [simp del]

definition memset :: "mem \<Rightarrow> int \<Rightarrow> int \<Rightarrow> int \<Rightarrow> mem \<times> int" where
  "memset m s c n = (memset_loop m s c 0 n, s)"

text \<open>\<^verbatim>\<open>while (n--) *d++ = *s++;\<close> and \<^verbatim>\<open>while (n--) *--d = *--s;\<close>\<close>

fun copy_up :: "mem \<Rightarrow> int \<Rightarrow> int \<Rightarrow> nat \<Rightarrow> mem \<times> int" where
  "copy_up m d s 0 = (m, d)"
| "copy_up m d s (Suc n) = copy_up (m(d := m s)) (d + 1) (s + 1) n"

fun copy_down :: "mem \<Rightarrow> int \<Rightarrow> int \<Rightarrow> nat \<Rightarrow> mem" where
  "copy_down m d s 0 = m"
| "copy_down m d s (Suc n) = copy_down (m(d - 1 := m (s - 1))) (d - 1) (s - 1) n"

definition memmove :: "mem \<Rightarrow> int \<Rightarrow> int \<Rightarrow> nat \<Rightarrow> mem \<times> int" where
  "memmove m dst src n =
     (if dst \<le> src then fst (copy_up m dst src n)
      else copy_down m (dst + int n) (src + int n) n, dst)"

definition memcpy :: "mem \<Rightarrow> int \<Rightarrow> int \<Rightarrow> nat \<Rightarrow> mem \<times> int" where
  "memcpy m out src n = copy_up m out src n"

fun memcmp_loop :: "mem \<Rightarrow> int \<Rightarrow> int \<Rightarrow> nat \<Rightarrow> int \<Rightarrow> int" where
  "memcmp_loop m s1 s2 0 res = res"
| "memcmp_loop m s1 s2 (Suc n) res =
     (let res = u64 (uint (m s1) - uint (m s2)) in
      if res \<noteq> 0 then res else memcmp_loop m (s1 + 1) (s2 + 1) n res)"

definition memcmp :: "mem \<Rightarrow> int \<Rightarrow> int \<Rightarrow> nat \<Rightarrow> int" where
  "memcmp m s1 s2 n = s32 (memcmp_loop m s1 s2 n 0)"

subsection \<open>NUL-terminated strings in memory\<close>

text \<open>\<open>cstr m p cs\<close>: at \<open>p\<close> lie the non-zero bytes \<open>cs\<close>, then a zero byte.\<close>

fun cstr :: "mem \<Rightarrow> int \<Rightarrow> 8 word list \<Rightarrow> bool" where
  "cstr m p [] \<longleftrightarrow> m p = 0"
| "cstr m p (c # cs) \<longleftrightarrow> m p = c \<and> c \<noteq> 0 \<and> cstr m (p + 1) cs"

text \<open>\<open>block m p bs\<close>: at \<open>p\<close> lie the bytes \<open>bs\<close>.\<close>

definition block :: "mem \<Rightarrow> int \<Rightarrow> nat \<Rightarrow> 8 word list" where
  "block m p n = map (\<lambda>i. m (p + int i)) [0..<n]"

lemma cstr_cong:
  "(\<And>x. x \<in> bytes (p, int (length cs) + 1) \<Longrightarrow> m x = m' x) \<Longrightarrow> cstr m p cs \<longleftrightarrow> cstr m' p cs"
  by (induction cs arbitrary: p) auto

lemma cstr_block:
  "cstr m p cs \<longleftrightarrow> block m p (length cs) = cs \<and> 0 \<notin> set cs \<and> m (p + int (length cs)) = 0"
proof (induction cs arbitrary: p)
  case Nil
  then show ?case by (simp add: block_def)
next
  case (Cons c cs)
  then show ?case by (auto simp: block_def map_upt_Suc algebra_simps simp del: upt_Suc)
qed

lemma block_Suc: "block m p (Suc n) = m p # block m (p + 1) n"
  by (simp add: block_def map_upt_Suc algebra_simps del: upt_Suc)

lemma cstr_append:
  "cstr m p (xs @ ys) \<longleftrightarrow>
     block m p (length xs) = xs \<and> 0 \<notin> set xs \<and> cstr m (p + int (length xs)) ys"
  by (induction xs arbitrary: p) (auto simp: block_Suc algebra_simps, simp add: block_def)

lemma cstr_unique: "cstr m p cs \<Longrightarrow> cstr m p ds \<Longrightarrow> cs = ds"
  by (induction cs arbitrary: p ds) (case_tac ds; auto)+

subsection \<open>Lemmas on the loops\<close>

lemma strlen_loop_cstr:
  "cstr m s cs \<Longrightarrow> 0 \<le> i \<Longrightarrow> i + int (length cs) < 18446744073709551616 \<Longrightarrow>
     strlen_loop m s i = Some (i + int (length cs))"
  by (induction cs arbitrary: s i) (simp_all add: strlen_loop.simps u64_id)

lemma strlen_cstr [simp]:
  "cstr m s cs \<Longrightarrow> s \<noteq> 0 \<Longrightarrow> int (length cs) < 18446744073709551616 \<Longrightarrow>
     strlen m s = Some (int (length cs))"
  by (simp add: strlen_def strlen_loop_cstr)

lemma to_end_cstr: "cstr m d cs \<Longrightarrow> to_end m d = Some (d + int (length cs))"
  by (induction cs arbitrary: d) (simp_all add: to_end.simps)

text \<open>The memory after a forward copy of \<open>n\<close> bytes between regions that do not overlap.\<close>

definition copied :: "mem \<Rightarrow> int \<Rightarrow> int \<Rightarrow> nat \<Rightarrow> mem" where
  "copied m d s n = (\<lambda>x. if x \<in> bytes (d, int n) then m (s + (x - d)) else m x)"

lemma copied_0 [simp]: "copied m d s 0 = m"
  by (rule ext) (auto simp: copied_def)

lemma copied_outside [simp]: "x \<notin> bytes (d, int n) \<Longrightarrow> copied m d s n x = m x"
  by (auto simp: copied_def)

lemma copied_Suc:
  "d \<notin> bytes (s + 1, int n) \<Longrightarrow> copied (m(d := m s)) (d + 1) (s + 1) n = copied m d s (Suc n)"
  by (rule ext) (auto simp: copied_def algebra_simps)

lemma copy_loop_cstr:
  "cstr m s cs \<Longrightarrow> apart (d, int (length cs)) (s, int (length cs) + 1) \<Longrightarrow>
     copy_loop m d s = Some (copied m d s (length cs), d + int (length cs))"
proof (induction cs arbitrary: m d s)
  case Nil
  then show ?case by (simp add: copy_loop.simps)
next
  case (Cons c cs)
  then have "m s = c" "c \<noteq> 0" and cs: "cstr m (s + 1) cs" by auto
  have "cstr (m(d := m s)) (s + 1) cs"
    using Cons.prems(2) by (intro iffD1 [OF cstr_cong cs]) auto
  then have "copy_loop (m(d := m s)) (d + 1) (s + 1) =
      Some (copied (m(d := m s)) (d + 1) (s + 1) (length cs), d + 1 + int (length cs))"
    using Cons.prems(2) by (intro Cons.IH) (auto simp del: fun_upd_apply)
  moreover have "copied (m(d := m s)) (d + 1) (s + 1) (length cs) = copied m d s (length (c # cs))"
    using Cons.prems(2) by (subst copied_Suc) auto
  ultimately show ?case
    using \<open>m s = c\<close> \<open>c \<noteq> 0\<close> by (simp add: copy_loop.simps [of m d s])
qed

lemma copied_terminated:
  assumes "cstr m s cs" "apart (d, int (length cs) + 1) (s, int (length cs) + 1)"
  shows "cstr ((copied m d s (length cs))(d + int (length cs) := 0)) d cs"
    and "cstr ((copied m d s (length cs))(d + int (length cs) := 0)) s cs"
proof -
  let ?m = "(copied m d s (length cs))(d + int (length cs) := 0)"
  have "block ?m d (length cs) = block m s (length cs)"
    by (auto simp: block_def copied_def)
  with assms(1) show "cstr ?m d cs" by (simp add: cstr_block)
  show "cstr ?m s cs"
    using assms by (intro iffD1 [OF cstr_cong assms(1)]) (auto simp: copied_def)
qed

lemma memset_loop_eq:
  "0 \<le> cnt \<Longrightarrow> memset_loop m s c cnt n =
     (\<lambda>x. if x \<in> bytes (s + cnt, n - cnt) then word_of_int c else m x)"
proof (induction m s c cnt n rule: memset_loop.induct)
  case (1 m s c cnt n)
  show ?case
  proof (cases "cnt < n")
    case True
    have "memset_loop (store8 m (s + cnt) c) s c (cnt + 1) n =
        (\<lambda>x. if x \<in> bytes (s + (cnt + 1), n - (cnt + 1)) then word_of_int c
             else store8 m (s + cnt) c x)"
      by (rule "1.IH" [OF True]) (use "1.prems" in simp)
    with True show ?thesis by (subst memset_loop.simps) auto
  next
    case False
    then show ?thesis by (intro ext) (subst memset_loop.simps, auto)
  qed
qed

lemma memset_eq: "memset m s c n = (\<lambda>x. if x \<in> bytes (s, n) then word_of_int c else m x, s)"
  by (simp add: memset_def memset_loop_eq)

lemma copy_up_eq:
  "d \<le> s \<or> s + int n \<le> d \<Longrightarrow> copy_up m d s n = (copied m d s n, d + int n)"
proof (induction n arbitrary: m d s)
  case 0
  then show ?case by simp
next
  case (Suc n)
  have "copy_up (m(d := m s)) (d + 1) (s + 1) n =
      (copied (m(d := m s)) (d + 1) (s + 1) n, d + 1 + int n)"
    using Suc.prems by (intro Suc.IH) auto
  with Suc.prems show ?case by (auto simp: copied_Suc simp del: fun_upd_apply)
qed

lemma copy_down_eq:
  "s \<le> d \<Longrightarrow> copy_down m (d + int n) (s + int n) n = copied m d s n"
proof (induction n arbitrary: m)
  case 0
  then show ?case by simp
next
  case (Suc n)
  let ?m = "m(d + int n := m (s + int n))"
  have "copy_down m (d + int (Suc n)) (s + int (Suc n)) (Suc n)
      = copy_down ?m (d + int n) (s + int n) n"
    by (simp add: algebra_simps)
  also have "\<dots> = copied ?m d s n" using Suc by simp
  also have "\<dots> = copied m d s (Suc n)"
    using Suc.prems by (intro ext) (auto simp: copied_def)
  finally show ?case .
qed

lemma block_copied [simp]: "block (copied m d s n) d n = block m s n"
  by (simp add: block_def copied_def)

lemma strncpy_loop_cstr:
  "cstr m s cs \<Longrightarrow> apart (d, int (length cs)) (s, int (length cs) + 1) \<Longrightarrow> cnt \<le> n \<Longrightarrow>
     k = min (nat (n - cnt)) (length cs) \<Longrightarrow>
     strncpy_loop m d s cnt n = (copied m d s k, d + int k, cnt + int k)"
proof (induction cs arbitrary: m d s cnt k)
  case Nil
  then show ?case by (subst strncpy_loop.simps) simp
next
  case (Cons c cs)
  show ?case
  proof (cases "cnt + 1 \<le> n")
    case False
    with Cons.prems show ?thesis by (subst strncpy_loop.simps) simp
  next
    case True
    define l where l: "l = min (nat (n - (cnt + 1))) (length cs)"
    have "nat (n - cnt) = Suc (nat (n - (cnt + 1)))"
      using True by simp
    then have k: "k = Suc l"
      using Cons.prems(4) l by simp
    have sep: "apart (d + 1, int (length cs)) (s + 1, int (length cs) + 1)"
      and off: "d \<notin> bytes (s + 1, int (length cs) + 1)"
      using Cons.prems(2) by auto
    have "cstr m (s + 1) cs" using Cons.prems(1) by simp
    then have "cstr (m(d := m s)) (s + 1) cs"
      by (rule iffD1 [OF cstr_cong, rotated]) (use off in auto)
    then have "strncpy_loop (m(d := m s)) (d + 1) (s + 1) (cnt + 1) n =
        (copied (m(d := m s)) (d + 1) (s + 1) l, d + 1 + int l, cnt + 1 + int l)"
      using sep True l by (rule Cons.IH)
    moreover have "copied (m(d := m s)) (d + 1) (s + 1) l = copied m d s k"
      unfolding k using off l by (intro copied_Suc) auto
    ultimately show ?thesis
      using Cons.prems(1) True by (simp add: strncpy_loop.simps [of m d s cnt n] k)
  qed
qed

lemma cstr_take_copied:
  assumes "cstr m s cs" "apart (d, int (length cs) + 1) (s, int (length cs) + 1)" "k \<le> length cs"
  shows "cstr ((copied m d s k)(d + int k := 0)) d (take k cs)"
proof -
  let ?m = "(copied m d s k)(d + int k := 0)"
  have "block ?m d k = block m s k"
    by (auto simp: block_def copied_def)
  also have "\<dots> = take k (block m s (length cs))"
    using assms(3) by (simp add: block_def take_map)
  finally have "block ?m d k = take k cs"
    using assms(1) by (simp add: cstr_block)
  then show ?thesis
    using assms by (auto simp: cstr_block dest: in_set_takeD)
qed

text \<open>The order \<open>strcmp\<close> computes: by signed character, a proper prefix first.\<close>

fun cmp_chars :: "8 word list \<Rightarrow> 8 word list \<Rightarrow> int" where
  "cmp_chars [] [] = 0"
| "cmp_chars [] (y # ys) = - 1"
| "cmp_chars (x # xs) [] = 1"
| "cmp_chars (x # xs) (y # ys) =
     (if sint x < sint y then - 1 else if sint x > sint y then 1 else cmp_chars xs ys)"

lemma cmp_chars_eq0: "cmp_chars xs ys = 0 \<longleftrightarrow> xs = ys"
  by (induction xs ys rule: cmp_chars.induct) (auto simp: signed_word_eqI)

lemma cmp_chars_less:
  "cmp_chars xs ys < 0 \<longleftrightarrow> (map sint xs, map sint ys) \<in> lexord {(a, b :: int). a < b}"
  by (induction xs ys rule: cmp_chars.induct) auto

lemma cmp_chars_range: "cmp_chars xs ys \<in> {- 1, 0, 1}"
  by (induction xs ys rule: cmp_chars.induct) auto

lemma cmp_chars_antisym: "cmp_chars ys xs = - cmp_chars xs ys"
  by (induction xs ys rule: cmp_chars.induct) auto

lemma strcmp_loop_cstr:
  "cstr m s1 xs \<Longrightarrow> cstr m s2 ys \<Longrightarrow> 0 < s1 \<Longrightarrow> 0 < s2 \<Longrightarrow>
     int (length xs) < 18446744073709551616 \<Longrightarrow> int (length ys) < 18446744073709551616 \<Longrightarrow>
     strcmp_loop m s1 s2 = Some (cmp_chars xs ys)"
proof (induction xs ys arbitrary: s1 s2 rule: cmp_chars.induct)
  case 1
  then show ?case
    using strlen_cstr [of m s1 "[]"] strlen_cstr [of m s2 "[]"] by (simp add: strcmp_loop.simps)
next
  case (2 y ys)
  then show ?case
    using strlen_cstr [of m s1 "[]"] strlen_cstr [of m s2 "y # ys"]
    by (simp add: strcmp_loop.simps)
next
  case (3 x xs)
  then show ?case
    using strlen_cstr [of m s1 "x # xs"] strlen_cstr [of m s2 "[]"]
    by (simp add: strcmp_loop.simps)
next
  case (4 x xs y ys)
  then show ?case by (subst strcmp_loop.simps) auto
qed

lemma memcmp_loop_eq:
  "memcmp_loop m s1 s2 n 0 =
     (case dropWhile (\<lambda>(x, y). x = y) (zip (block m s1 n) (block m s2 n)) of
        [] \<Rightarrow> 0 | (x, y) # _ \<Rightarrow> u64 (uint x - uint y))"
proof (induction n arbitrary: s1 s2)
  case 0
  then show ?case by (simp add: block_def)
next
  case (Suc n)
  have "\<bar>uint (m s1) - uint (m s2)\<bar> < 256"
    using byte_range [of "m s1"] byte_range [of "m s2"] by linarith
  then have "u64 (uint (m s1) - uint (m s2)) = 0 \<longleftrightarrow> m s1 = m s2"
    using dvd_imp_le_int [of "uint (m s1) - uint (m s2)" 18446744073709551616]
    by (auto simp: u64_def word_uint_eq_iff)
  with Suc show ?case by (simp add: block_Suc Let_def)
qed

subsection \<open>Correctness\<close>

text \<open>C14. \<open>strcpy\<close> of a terminated string into a separate buffer of sufficient room returns
  \<open>dst\<close>, passes its own length assertion, leaves the same string at \<open>dst\<close> and at \<open>src\<close>, and
  writes nothing outside the \<open>strlen(src) + 1\<close> bytes at \<open>dst\<close>.\<close>

theorem strcpy_correct:
  assumes "cstr m src cs" "0 < src" "0 < dst"
    and "apart (dst, int (length cs) + 1) (src, int (length cs) + 1)"
    and "int (length cs) < 18446744073709551616"
  shows "\<exists>m'. strcpy m dst src = cret (m', dst) \<and> cstr m' dst cs \<and> cstr m' src cs \<and>
    (\<forall>x. x \<notin> bytes (dst, int (length cs) + 1) \<longrightarrow> m' x = m x)"
proof -
  let ?m = "(copied m dst src (length cs))(dst + int (length cs) := 0)"
  have "copy_loop m dst src = Some (copied m dst src (length cs), dst + int (length cs))"
    using assms by (intro copy_loop_cstr) auto
  moreover note st = copied_terminated [OF assms(1,4)]
  moreover have "strlen ?m dst = Some (int (length cs))" "strlen ?m src = Some (int (length cs))"
    using st assms by (auto intro!: strlen_cstr simp del: fun_upd_apply)
  ultimately have "strcpy m dst src = cret (?m, dst)"
    using assms by (simp add: strcpy_def Let_def del: fun_upd_apply)
  with st show ?thesis by (intro exI [of _ ?m]) (auto simp: copied_def)
qed

theorem strcpy_correct_witness:
  "\<exists>m'. strcpy (\<lambda>x. if x = 100 then 65 else 0) 200 100 = cret (m', 200) \<and> cstr m' 200 [65] \<and>
     cstr m' 100 [65] \<and>
     (\<forall>x. x \<notin> bytes (200, int (length [65 :: 8 word]) + 1) \<longrightarrow>
        m' x = (if x = 100 then 65 else 0))"
  by (rule strcpy_correct) auto

text \<open>\<open>strncpy\<close> stores at most \<open>n\<close> characters and a terminator: for every string and every
  \<open>n\<close> it returns \<open>dst\<close> with the first \<open>n\<close> characters of the source there as a terminated string.
  The terminator is the \<open>min n (strlen src) + 1\<close>-th byte, so a buffer of exactly \<open>n\<close> bytes is
  overrun by one byte when the source has \<open>n\<close> characters or more.\<close>

theorem strncpy_correct:
  assumes "cstr m src cs" "0 < src" "0 < dst" "0 \<le> n"
    and "apart (dst, int (length cs) + 1) (src, int (length cs) + 1)"
    and "int (length cs) < 18446744073709551616"
  shows "\<exists>m'. strncpy m dst src n = cret (m', dst) \<and> cstr m' dst (take (nat n) cs) \<and>
    m' (dst + min n (int (length cs))) = 0 \<and>
    (\<forall>x. x \<notin> bytes (dst, min n (int (length cs)) + 1) \<longrightarrow> m' x = m x)"
proof -
  let ?k = "min (nat n) (length cs)"
  let ?m = "(copied m dst src ?k)(dst + int ?k := 0)"
  have "strncpy_loop m dst src 0 n = (copied m dst src ?k, dst + int ?k, 0 + int ?k)"
    using assms by (intro strncpy_loop_cstr [where cs = cs]) auto
  moreover have st: "cstr ?m dst (take ?k cs)"
    using assms by (intro cstr_take_copied) auto
  moreover have "strlen ?m dst = Some (int (length (take ?k cs)))"
    using assms by (intro strlen_cstr [OF st]) auto
  moreover have "int ?k \<le> n" using assms(4) by linarith
  ultimately have "strncpy m dst src n = cret (?m, dst)"
    using assms by (simp add: strncpy_def Let_def del: fun_upd_apply)
  moreover have "take ?k cs = take (nat n) cs" by (simp add: min_def)
  moreover have "int ?k = min n (int (length cs))" using assms(4) by linarith
  ultimately show ?thesis
    using st by (intro exI [of _ ?m]) (auto simp: copied_def)
qed

theorem strncpy_correct_witness:
  "\<exists>m'. strncpy (\<lambda>x. if x \<in> {100, 101} then 65 else 0) 200 100 1 = cret (m', 200) \<and>
     cstr m' 200 (take (nat 1) [65, 65]) \<and> m' (200 + min 1 (int (length [65 :: 8 word, 65]))) = 0 \<and>
     (\<forall>x. x \<notin> bytes (200, min 1 (int (length [65 :: 8 word, 65])) + 1) \<longrightarrow>
        m' x = (if x \<in> {100, 101} then 65 else 0))"
  by (rule strncpy_correct) auto

text \<open>\<open>strcat\<close> appends: with a terminated string \<open>xs\<close> at \<open>dst\<close> and \<open>ys\<close> at \<open>src\<close>, and room
  behind \<open>dst\<close> that does not meet \<open>src\<close>, it passes its assertions and leaves \<open>xs @ ys\<close> at
  \<open>dst\<close>; only the \<open>strlen(src) + 1\<close> bytes from the old terminator on are written.\<close>

theorem strcat_correct:
  assumes "cstr m dst xs" "cstr m src ys" "0 < src" "0 < dst"
    and "apart (dst, int (length (xs @ ys)) + 1) (src, int (length ys) + 1)"
    and "int (length (xs @ ys)) < 2147483648"
  shows "\<exists>m'. strcat m dst src = cret (m', dst) \<and> cstr m' dst (xs @ ys) \<and> cstr m' src ys \<and>
    (\<forall>x. x \<notin> bytes (dst + int (length xs), int (length ys) + 1) \<longrightarrow> m' x = m x)"
proof -
  let ?d = "dst + int (length xs)"
  let ?m = "(copied m ?d src (length ys))(?d + int (length ys) := 0)"
  have sep: "apart (?d, int (length ys) + 1) (src, int (length ys) + 1)"
    using assms(5) by auto
  have cp: "copy_loop m ?d src = Some (copied m ?d src (length ys), ?d + int (length ys))"
    using assms sep by (intro copy_loop_cstr) auto
  have src: "cstr ?m src ys" and tail: "cstr ?m ?d ys"
    using copied_terminated [OF assms(2) sep] by auto
  have "block ?m dst (length xs) = block m dst (length xs)"
    by (auto simp: block_def copied_def)
  then have dst: "cstr ?m dst (xs @ ys)"
    using assms(1) tail
    by (simp add: cstr_append cstr_block [of m] del: fun_upd_apply)
  have "strlen ?m dst = Some (int (length (xs @ ys)))" "strlen ?m src = Some (int (length ys))"
    using assms strlen_cstr [OF dst] strlen_cstr [OF src] by (auto simp del: fun_upd_apply)
  moreover have "strlen m dst = Some (int (length xs))" "m ?d = 0"
    using assms by (auto intro!: strlen_cstr simp: cstr_block)
  moreover have "s32 (int (length xs)) = int (length xs)"
    "u64 (int (length ys) + int (length xs)) = int (length (xs @ ys))"
    using assms(6) by (simp_all add: s32_id u64_id)
  ultimately have "strcat m dst src = cret (?m, dst)"
    using assms cp by (simp add: strcat_def to_end_cstr Let_def del: fun_upd_apply)
  with dst src show ?thesis by (intro exI [of _ ?m]) (auto simp: copied_def)
qed

theorem strcat_correct_witness:
  "\<exists>m'. strcat (\<lambda>x. if x = 100 \<or> x = 200 then 65 else 0) 200 100 = cret (m', 200) \<and>
     cstr m' 200 ([65] @ [65]) \<and> cstr m' 100 [65] \<and>
     (\<forall>x. x \<notin> bytes (200 + int (length [65 :: 8 word]), int (length [65 :: 8 word]) + 1) \<longrightarrow>
        m' x = (if x = 100 \<or> x = 200 then 65 else 0))"
  by (rule strcat_correct) auto

text \<open>\<open>strcmp\<close> on terminated strings returns, with no assertion failing, a value in
  \<open>{-1, 0, 1}\<close> that is zero exactly on equal strings and negative exactly when the first string
  comes first in the lexicographic order of signed characters.\<close>

theorem strcmp_correct:
  assumes "cstr m s1 xs" "cstr m s2 ys" "0 < s1" "0 < s2"
    and "int (length xs) < 18446744073709551616" "int (length ys) < 18446744073709551616"
  shows "\<exists>r. strcmp m s1 s2 = cret r \<and> r \<in> {- 1, 0, 1} \<and> (r = 0 \<longleftrightarrow> xs = ys) \<and>
    (r < 0 \<longleftrightarrow> (map sint xs, map sint ys) \<in> lexord {(a, b :: int). a < b})"
  using strcmp_loop_cstr [OF assms] assms(3,4) cmp_chars_range cmp_chars_eq0 cmp_chars_less
  by (intro exI [of _ "cmp_chars xs ys"]) (simp add: strcmp_def)

theorem strcmp_correct_witness:
  "\<exists>r. strcmp (\<lambda>x. if x = 100 then 65 else if x = 200 then 66 else 0) 100 200 = cret r \<and>
     r \<in> {- 1, 0, 1} \<and> (r = 0 \<longleftrightarrow> [65 :: 8 word] = [66]) \<and>
     (r < 0 \<longleftrightarrow> (map sint [65 :: 8 word], map sint [66 :: 8 word]) \<in> lexord {(a, b :: int). a < b})"
  by (rule strcmp_correct) auto

text \<open>C15. \<open>memmove\<close> is right for every pair of addresses, overlapping or not: it returns \<open>dst\<close>, the
  \<open>n\<close> bytes at \<open>dst\<close> are what the \<open>n\<close> bytes at \<open>src\<close> were, and nothing else changes.\<close>

theorem memmove_correct:
  "snd (memmove m dst src n) = dst \<and>
   block (fst (memmove m dst src n)) dst n = block m src n \<and>
   (\<forall>x. fst (memmove m dst src n) x = (if x \<in> bytes (dst, int n) then m (src + (x - dst)) else m x))"
proof -
  have "memmove m dst src n = (copied m dst src n, dst)"
    by (simp add: memmove_def copy_up_eq copy_down_eq)
  then show ?thesis by (simp add: copied_def [of m dst src n, symmetric]) (simp add: copied_def)
qed

text \<open>\<open>memcpy\<close> between separate buffers copies the \<open>n\<close> bytes and nothing else, but the pointer
  it returns is the end of the destination, \<open>out + n\<close>, not the \<open>out\<close> the C library returns.\<close>

theorem memcpy_correct:
  assumes "apart (out, int n) (src, int n)"
  shows "block (fst (memcpy m out src n)) out n = block m src n \<and>
    snd (memcpy m out src n) = out + int n \<and>
    (\<forall>x. x \<notin> bytes (out, int n) \<longrightarrow> fst (memcpy m out src n) x = m x)"
proof -
  have "out \<le> src \<or> src + int n \<le> out" using assms by auto
  then have "memcpy m out src n = (copied m out src n, out + int n)"
    by (simp add: memcpy_def copy_up_eq)
  then show ?thesis by auto
qed

theorem memcpy_correct_witness:
  "block (fst (memcpy (\<lambda>x. word_of_int x) 200 100 4)) 200 4 = block (\<lambda>x. word_of_int x) 100 4 \<and>
   snd (memcpy (\<lambda>x. word_of_int x) 200 100 4) = 204 \<and>
   fst (memcpy (\<lambda>x. word_of_int x) 200 100 4) 204 = 204"
  using memcpy_correct [of 200 4 100 "\<lambda>x. word_of_int x"] by simp

text \<open>\<open>memcmp\<close> has the sign of the first difference of the two buffers read as unsigned bytes,
  and is zero exactly when they agree.\<close>

theorem memcmp_correct:
  "(memcmp m s1 s2 n = 0 \<longleftrightarrow> block m s1 n = block m s2 n) \<and>
   (memcmp m s1 s2 n < 0 \<longleftrightarrow>
      (block m s1 n, block m s2 n) \<in> lexord {(a, b). uint a < uint b})"
proof -
  have "s32 (case dropWhile (\<lambda>(x, y). x = y) (zip xs ys) of [] \<Rightarrow> 0
        | (x, y) # _ \<Rightarrow> u64 (uint x - uint y)) =
      (case dropWhile (\<lambda>(x, y). x = y) (zip xs ys) of [] \<Rightarrow> 0 | (x, y) # _ \<Rightarrow> uint x - uint y)"
    for xs ys :: "8 word list"
  proof -
    have "s32 (uint x - uint y) = uint x - uint y" for x y :: "8 word"
      using byte_range [of x] byte_range [of y] by (intro s32_id) linarith+
    then show ?thesis
      by (cases "dropWhile (\<lambda>(x, y). x = y) (zip xs ys)") (auto simp del: dropWhile_eq_Nil_conv)
  qed
  moreover have "length xs = length ys \<Longrightarrow>
      ((case dropWhile (\<lambda>(x, y). x = y) (zip xs ys) of [] \<Rightarrow> 0 | (x, y) # _ \<Rightarrow> uint x - uint y) = 0
        \<longleftrightarrow> xs = ys) \<and>
      ((case dropWhile (\<lambda>(x, y). x = y) (zip xs ys) of [] \<Rightarrow> 0 | (x, y) # _ \<Rightarrow> uint x - uint y) < 0
        \<longleftrightarrow> (xs, ys) \<in> lexord {(a, b). uint a < uint b})" for xs ys :: "8 word list"
    by (induction xs ys rule: list_induct2) (auto simp: word_uint_eq_iff)
  ultimately show ?thesis
    by (simp add: memcmp_def memcmp_loop_eq block_def)
qed

end
