(* ===== verification/Spinlock.thy ===== *)
theory Spinlock
  imports C_Prelude
begin

text \<open>
  The spin lock of \<open>kernel/src/pmm.c\<close> (the build without \<^verbatim>\<open>TEST\<close>): \<open>lock\<close>, \<open>unlock\<close> and
  \<open>lockinit\<close> over \<open>atomic_xchg\<close> (\<open>am/src/x86/qemu/mpe.c\<close>, an \<^verbatim>\<open>xchg\<close> instruction).

  First the functions as one processor sees them: with nobody else running, a lock that is taken
  spins for ever, which is the value \<open>None\<close>.  Then the processors together: an interleaving step
  relation in which each \<open>atomic_xchg\<close> is one step, its reachable states and its invariant.
\<close>

subsection \<open>The functions on one processor\<close>

text \<open>\<open>atomic_xchg\<close> returns the old value and leaves the new one.\<close>

definition atomic_xchg :: "int \<Rightarrow> int \<Rightarrow> int \<times> int" where
  "atomic_xchg addr newval = (addr, newval)"

partial_function (option) lock_loop :: "int \<Rightarrow> int option" where
  "lock_loop locked =
     (let (old, locked) = atomic_xchg locked 1 in
      if old \<noteq> 0 then lock_loop locked else Some locked)"

definition lock :: "int \<Rightarrow> int cres" where
  "lock locked = Option.bind (lock_loop locked) (\<lambda>locked. cassert (locked = 1) (cret locked))"

definition unlock :: "int \<Rightarrow> int" where
  "unlock locked = snd (atomic_xchg locked 0)"

definition lockinit :: "int \<Rightarrow> int" where
  "lockinit locked = 0"

lemma lock_loop_returns:
  assumes ret: "lock_loop v = Some r"
  shows "v = 0 \<and> r = 1"
proof (rule lock_loop.raw_induct [where P = "\<lambda>v r. v = 0 \<and> r = 1", OF _ ret])
  fix f v r
  assume "\<And>v r. f v = Some r \<Longrightarrow> v = 0 \<and> r = 1"
    and "(let (old, locked) = atomic_xchg v 1 in if old \<noteq> 0 then f locked else Some locked) = Some r"
  then show "v = 0 \<and> r = 1"
    by (cases "v = 0") (force simp: atomic_xchg_def)+
qed

lemma lock_loop_taken: "v \<noteq> 0 \<Longrightarrow> lock_loop v = None"
  using lock_loop_returns by (cases "lock_loop v") auto

text \<open>What the allocator relies on, as an interface.\<close>

locale lock_interface =
  fixes acquire :: "'l \<Rightarrow> 'l cres"
    and release :: "'l \<Rightarrow> 'l"
    and free_val :: 'l
    and held_val :: 'l
  assumes acquire_free: "acquire free_val = cret held_val"
    and acquire_held: "acquire held_val = None"
    and release_held: "release held_val = free_val"
begin

lemma critical_section: "cbind (acquire free_val) (\<lambda>l. k (release l)) = k free_val"
  by (simp add: acquire_free release_held)

lemma reentry_hangs: "cbind (acquire free_val) (\<lambda>l. cbind (acquire l) k) = None"
  by (simp add: acquire_free acquire_held)

end

interpretation spin: lock_interface lock unlock 0 1
  by unfold_locales
    (simp_all add: lock_def unlock_def atomic_xchg_def lock_loop_taken lock_loop.simps [of 0])

lemmas lock_simps [simp] = spin.acquire_free spin.acquire_held

lemma unlock_0 [simp]: "unlock l = 0"
  by (simp add: unlock_def atomic_xchg_def)

subsection \<open>All processors together\<close>

text \<open>
  Where a processor is: outside, in the loop of \<open>lock\<close>, past the loop but before its assertion,
  in the critical section, or halted by a failed assertion.
\<close>

datatype pc = Outside | Spinning | Acquired | Critical | Halted

record lock_sys =
  locked :: int
  pcs :: "nat \<Rightarrow> pc"

definition init_lock_sys :: "int \<Rightarrow> lock_sys" where
  "init_lock_sys garbage = \<lparr>locked = lockinit garbage, pcs = (\<lambda>_. Outside)\<rparr>"

inductive lock_step :: "lock_sys \<Rightarrow> lock_sys \<Rightarrow> bool" where
  call_lock: "pcs s i = Outside \<Longrightarrow> lock_step s (s\<lparr>pcs := (pcs s)(i := Spinning)\<rparr>)"
| xchg_fails: "pcs s i = Spinning \<Longrightarrow> atomic_xchg (locked s) 1 = (old, new) \<Longrightarrow> old \<noteq> 0 \<Longrightarrow>
    lock_step s (s\<lparr>locked := new\<rparr>)"
| xchg_succeeds: "pcs s i = Spinning \<Longrightarrow> atomic_xchg (locked s) 1 = (old, new) \<Longrightarrow> old = 0 \<Longrightarrow>
    lock_step s (s\<lparr>locked := new, pcs := (pcs s)(i := Acquired)\<rparr>)"
| assert_holds: "pcs s i = Acquired \<Longrightarrow> locked s = 1 \<Longrightarrow>
    lock_step s (s\<lparr>pcs := (pcs s)(i := Critical)\<rparr>)"
| assert_fails: "pcs s i = Acquired \<Longrightarrow> locked s \<noteq> 1 \<Longrightarrow>
    lock_step s (s\<lparr>pcs := (pcs s)(i := Halted)\<rparr>)"
| call_unlock: "pcs s i = Critical \<Longrightarrow>
    lock_step s (s\<lparr>locked := unlock (locked s), pcs := (pcs s)(i := Outside)\<rparr>)"

inductive lock_reachable :: "lock_sys \<Rightarrow> bool" where
  lock_start: "lock_reachable (init_lock_sys garbage)"
| lock_next: "lock_reachable s \<Longrightarrow> lock_step s t \<Longrightarrow> lock_reachable t"

definition owners :: "lock_sys \<Rightarrow> nat set" where
  "owners s = {i. pcs s i = Acquired \<or> pcs s i = Critical}"

definition lock_inv :: "lock_sys \<Rightarrow> bool" where
  "lock_inv s \<longleftrightarrow> (\<forall>i. pcs s i \<noteq> Halted) \<and>
     (locked s = 0 \<and> owners s = {} \<or> locked s = 1 \<and> (\<exists>i. owners s = {i}))"

lemma owners_upd:
  "owners (s\<lparr>pcs := (pcs s)(i := c)\<rparr>) =
     (if c = Acquired \<or> c = Critical then insert i (owners s) else owners s - {i})"
  "owners (s\<lparr>locked := v, pcs := (pcs s)(i := c)\<rparr>) =
     (if c = Acquired \<or> c = Critical then insert i (owners s) else owners s - {i})"
  "owners (s\<lparr>locked := v\<rparr>) = owners s"
  by (auto simp: owners_def)

lemma lock_inv_init: "lock_inv (init_lock_sys g)"
  by (simp add: lock_inv_def init_lock_sys_def lockinit_def owners_def)

lemma lock_inv_step:
  assumes "lock_step s t" "lock_inv s"
  shows "lock_inv t"
  using assms(1)
proof (cases rule: lock_step.cases)
  case (call_lock i)
  then have "owners s - {i} = owners s" by (auto simp: owners_def)
  with call_lock assms(2) show ?thesis by (auto simp: lock_inv_def owners_upd)
next
  case (xchg_fails i old new)
  with assms(2) show ?thesis by (auto simp: lock_inv_def owners_upd atomic_xchg_def)
next
  case (xchg_succeeds i old new)
  with assms(2) show ?thesis by (auto simp: lock_inv_def owners_upd atomic_xchg_def)
next
  case (assert_holds i)
  then have "insert i (owners s) = owners s" by (auto simp: owners_def)
  with assert_holds assms(2) show ?thesis by (auto simp: lock_inv_def owners_upd)
next
  case (assert_fails i)
  then have "i \<in> owners s" by (auto simp: owners_def)
  with assert_fails assms(2) show ?thesis by (auto simp: lock_inv_def)
next
  case (call_unlock i)
  then have "i \<in> owners s" by (auto simp: owners_def)
  with call_unlock assms(2) show ?thesis by (auto simp: lock_inv_def owners_upd)
qed

lemma lock_inv_reachable: "lock_reachable s \<Longrightarrow> lock_inv s"
  by (induction rule: lock_reachable.induct) (auto intro: lock_inv_init lock_inv_step)

subsection \<open>Correctness\<close>

text \<open>C7. Mutual exclusion for any number of processors and any interleaving: two processors are
  never past the loop of \<open>lock\<close> at the same time, the assertion in \<open>lock\<close> never fails, and the
  lock word is 1 exactly while some processor owns the lock.\<close>

theorem lock_mutual_exclusion:
  assumes "lock_reachable s"
  shows "(\<forall>i j. i \<in> owners s \<longrightarrow> j \<in> owners s \<longrightarrow> i = j) \<and> (\<forall>i. pcs s i \<noteq> Halted) \<and>
    (locked s = 1 \<longleftrightarrow> owners s \<noteq> {})"
  using lock_inv_reachable [OF assms] by (auto simp: lock_inv_def)

theorem lock_mutual_exclusion_witness:
  "\<exists>s. owners s = {3} \<and> ((\<forall>i j. i \<in> owners s \<longrightarrow> j \<in> owners s \<longrightarrow> i = j) \<and>
     (\<forall>i. pcs s i \<noteq> Halted) \<and> (locked s = 1 \<longleftrightarrow> owners s \<noteq> {}))"
proof -
  let ?s0 = "init_lock_sys 7"
  let ?s1 = "?s0\<lparr>pcs := (pcs ?s0)(3 := Spinning)\<rparr>"
  let ?s2 = "?s1\<lparr>locked := 1, pcs := (pcs ?s1)(3 := Acquired)\<rparr>"
  have "lock_reachable ?s1"
    by (rule lock_next [OF lock_start], rule call_lock) (simp add: init_lock_sys_def)
  then have "lock_reachable ?s2"
    by (rule lock_next, intro xchg_succeeds [where old = 0])
      (simp_all add: init_lock_sys_def lockinit_def atomic_xchg_def)
  moreover have "owners ?s2 = {3}"
    by (simp add: owners_def init_lock_sys_def)
  ultimately show ?thesis
    using lock_mutual_exclusion [of ?s2] by (intro exI [of _ ?s2]) blast
qed





end
