(* ===== verification/Pmm_State.thy ===== *)
theory Pmm_State
  imports Klib_String Spinlock
begin

text \<open>
  The state of the physical memory manager (\<open>kernel/src/pmm.c\<close>, build without \<^verbatim>\<open>TEST\<close>) and its
  initialisation.  The global variables are the fields of one record: the physical memory, the
  head of the heap's free list, the heap lock, and per processor a list of 64 KiB pages with its
  lock.  The free nodes, page headers and block headers live in the memory itself.
\<close>

record pagelist_t =
  pagehead :: int
  plock :: int

record pmm_state =
  mem :: mem
  head :: int
  heap_lock :: int
  cpupagelist :: "nat \<Rightarrow> pagelist_t"

abbreviation page_bytes :: int where
  "page_bytes \<equiv> 65536"

definition set_pagehead :: "nat \<Rightarrow> int \<Rightarrow> pmm_state \<Rightarrow> pmm_state" where
  "set_pagehead i p s = s\<lparr>cpupagelist := (cpupagelist s)(i := (cpupagelist s i)\<lparr>pagehead := p\<rparr>)\<rparr>"

definition set_plock :: "nat \<Rightarrow> int \<Rightarrow> pmm_state \<Rightarrow> pmm_state" where
  "set_plock i l s = s\<lparr>cpupagelist := (cpupagelist s)(i := (cpupagelist s i)\<lparr>plock := l\<rparr>)\<rparr>"

text \<open>\<^verbatim>\<open>lock(&cpupagelist[i].lock)\<close>, \<^verbatim>\<open>lock(&heap_lock)\<close> and their releases.\<close>

definition lock_cpu :: "nat \<Rightarrow> pmm_state \<Rightarrow> pmm_state cres" where
  "lock_cpu i s = cbind (lock (plock (cpupagelist s i))) (\<lambda>l. cret (set_plock i l s))"

definition unlock_cpu :: "nat \<Rightarrow> pmm_state \<Rightarrow> pmm_state" where
  "unlock_cpu i s = set_plock i (unlock (plock (cpupagelist s i))) s"

definition lock_heap :: "pmm_state \<Rightarrow> pmm_state cres" where
  "lock_heap s = cbind (lock (heap_lock s)) (\<lambda>l. cret (s\<lparr>heap_lock := l\<rparr>))"

definition unlock_heap :: "pmm_state \<Rightarrow> pmm_state" where
  "unlock_heap s = s\<lparr>heap_lock := unlock (heap_lock s)\<rparr>"

text \<open>The loop of \<open>pmm_init\<close> over the processors.\<close>

fun init_pagelists :: "nat list \<Rightarrow> pmm_state \<Rightarrow> pmm_state" where
  "init_pagelists [] s = s"
| "init_pagelists (i # is) s =
     init_pagelists is
       (set_plock i (lockinit (plock (cpupagelist s i))) (set_pagehead i 0 s))"

text \<open>
  \<open>pmm_init\<close> on the heap area \<open>[start, endp)\<close> with \<open>ncpu\<close> processors; its progress message is not
  modelled.  \<^verbatim>\<open>head->size\<close> is an \<^verbatim>\<open>int\<close>, so the size of the area is truncated to 32 bits.
\<close>

definition pmm_init :: "int \<Rightarrow> int \<Rightarrow> nat \<Rightarrow> pmm_state \<Rightarrow> pmm_state cres" where
  "pmm_init start endp ncpu s =
     (let s = s\<lparr>head := start\<rparr> in
      cassert (head s \<noteq> 0)
        (let s = s\<lparr>mem := set_size (mem s) (head s) (endp - start)\<rparr>;
             s = s\<lparr>mem := set_next (mem s) (head s) 0\<rparr>;
             s = s\<lparr>heap_lock := lockinit (heap_lock s)\<rparr>;
             s = init_pagelists [0..<ncpu] s
         in cret (s\<lparr>heap_lock := lockinit (heap_lock s)\<rparr>)))"

subsection \<open>Reading a state after an update\<close>

lemma set_pagehead_simps [simp]:
  "mem (set_pagehead i p s) = mem s" "head (set_pagehead i p s) = head s"
  "heap_lock (set_pagehead i p s) = heap_lock s"
  "plock (cpupagelist (set_pagehead i p s) j) = plock (cpupagelist s j)"
  "pagehead (cpupagelist (set_pagehead i p s) j) =
     (if j = i then p else pagehead (cpupagelist s j))"
  by (simp_all add: set_pagehead_def)

lemma set_plock_simps [simp]:
  "mem (set_plock i l s) = mem s" "head (set_plock i l s) = head s"
  "heap_lock (set_plock i l s) = heap_lock s"
  "plock (cpupagelist (set_plock i l s) j) = (if j = i then l else plock (cpupagelist s j))"
  "pagehead (cpupagelist (set_plock i l s) j) = pagehead (cpupagelist s j)"
  by (simp_all add: set_plock_def)

lemma lock_cpu_free [simp]: "plock (cpupagelist s i) = 0 \<Longrightarrow> lock_cpu i s = cret (set_plock i 1 s)"
  by (simp add: lock_cpu_def)

lemma lock_heap_free [simp]: "heap_lock s = 0 \<Longrightarrow> lock_heap s = cret (s\<lparr>heap_lock := 1\<rparr>)"
  by (simp add: lock_heap_def)

lemma unlock_cpu_eq [simp]: "unlock_cpu i s = set_plock i 0 s"
  by (simp add: unlock_cpu_def)

lemma unlock_heap_eq [simp]: "unlock_heap s = s\<lparr>heap_lock := 0\<rparr>"
  by (simp add: unlock_heap_def)

text \<open>No lock is held.\<close>

definition quiet :: "nat \<Rightarrow> pmm_state \<Rightarrow> bool" where
  "quiet ncpu s \<longleftrightarrow> heap_lock s = 0 \<and> (\<forall>i < ncpu. plock (cpupagelist s i) = 0)"

lemma init_pagelists_simps [simp]:
  "mem (init_pagelists is s) = mem s" "head (init_pagelists is s) = head s"
  "heap_lock (init_pagelists is s) = heap_lock s"
  "pagehead (cpupagelist (init_pagelists is s) j) =
     (if j \<in> set is then 0 else pagehead (cpupagelist s j))"
  "plock (cpupagelist (init_pagelists is s) j) =
     (if j \<in> set is then 0 else plock (cpupagelist s j))"
  by (induction "is" arbitrary: s) (auto simp: lockinit_def)

end
