(* ===== verification/Pmm_Heap.thy ===== *)
theory Pmm_Heap
  imports Pmm_State
begin

text \<open>
  The slow path of \<open>kernel/src/pmm.c\<close>: the free list of the whole heap, from which \<open>allockpage\<close>
  carves 64 KiB pages at the low end of a node, \<open>kallocHugeMemory\<close> takes large blocks at the high
  end of the highest node that fits, and \<open>kfree\<close> of a large block puts them back.

  The abstract state is the list of free regions; \<open>take_page\<close>, \<open>take_huge\<close> and \<open>give_back\<close> are what the
  three operations do to it, and the refinement lemmas say that the code on byte memory does
  exactly that and writes only inside memory that was free.
\<close>

subsection \<open>Model\<close>

definition allockpage :: "pmm_state \<Rightarrow> (pmm_state \<times> int) cres" where
  "allockpage s =
     cbind (lock_heap s) (\<lambda>s.
     Option.bind (scan_prev (\<lambda>h. get_size (mem s) h \<ge> 65536) (get_next (mem s)) 0 (head s))
       (\<lambda>(oldfreenode, prenode).
       if oldfreenode \<noteq> 0 then
         let freenode = u64 (oldfreenode + 65536) in
         if get_size (mem s) oldfreenode = 65536 then
           cbind
             (if prenode \<noteq> 0 then
                cassert (get_next (mem s) prenode = oldfreenode)
                  (cret (s\<lparr>mem := set_next (mem s) prenode (get_next (mem s) oldfreenode)\<rparr>))
              else
                cassert (oldfreenode = head s) (cret (s\<lparr>head := get_next (mem s) (head s)\<rparr>)))
             (\<lambda>s. let s = s\<lparr>mem := fst (memset (mem s) oldfreenode 0 16)\<rparr> in
                cret (unlock_heap s, oldfreenode))
         else
           cassert (get_size (mem s) oldfreenode > 65536)
             (let s = s\<lparr>mem := set_next (mem s) freenode (get_next (mem s) oldfreenode)\<rparr>;
                  s = s\<lparr>mem := set_size (mem s) freenode (get_size (mem s) oldfreenode - 65536)\<rparr>
              in cbind
                (if prenode = 0 then
                   cassert (oldfreenode = head s) (cret (s\<lparr>head := freenode\<rparr>))
                 else
                   cassert (get_next (mem s) prenode = oldfreenode)
                     (cret (s\<lparr>mem := set_next (mem s) prenode freenode\<rparr>)))
                (\<lambda>s. let s = s\<lparr>mem := fst (memset (mem s) oldfreenode 0 16)\<rparr> in
                   cret (unlock_heap s, oldfreenode)))
       else cret (unlock_heap s, 0)))"

text \<open>
  The loop of \<open>kallocHugeMemory\<close>; \<^verbatim>\<open>h->size >= size\<close> compares an \<^verbatim>\<open>int\<close> with a \<^verbatim>\<open>size_t\<close>, so a
  negative \<^verbatim>\<open>h->size\<close> counts as huge.
\<close>

definition highnode_step :: "mem \<Rightarrow> int \<Rightarrow> int \<Rightarrow> int \<Rightarrow> int" where
  "highnode_step m sz h highnode =
     (if u64 (get_size m h) \<ge> sz then
        if highnode = 0 then h else if h > highnode then h else highnode
      else highnode)"

definition kallocHugeMemory :: "int \<Rightarrow> pmm_state \<Rightarrow> (pmm_state \<times> int) cres" where
  "kallocHugeMemory sz s =
     cbind (lock_heap s) (\<lambda>s.
     Option.bind (walk (highnode_step (mem s) sz) (get_next (mem s)) (head s) 0) (\<lambda>highnode.
       if highnode \<noteq> 0 then
         let ret = u64 (highnode + get_size (mem s) highnode - sz);
             header = u64 (ret - 16);
             s = s\<lparr>mem := set_size (mem s) highnode (header - highnode)\<rparr>;
             s = s\<lparr>mem := set_size (mem s) header sz\<rparr>;
             s = s\<lparr>mem := set_magic (mem s) header 7654321\<rparr>
         in cret (unlock_heap s, ret)
       else cret (unlock_heap s, 0)))"

text \<open>
  The loop, shared by both halves of \<open>kfree\<close>, that finds the nearest free node below (\<^verbatim>\<open>before\<close>)
  and above (\<^verbatim>\<open>after\<close>) an address.
\<close>

definition neighbour_step :: "int \<Rightarrow> int \<Rightarrow> int \<times> int \<Rightarrow> int \<times> int" where
  "neighbour_step p h = (\<lambda>(before, after).
     (if h < p then (if before = 0 then h else if h > before then h else before) else before,
      if h > p then (if after = 0 then h else if h < after then h else after) else after))"

text \<open>
  The part of \<open>kfree\<close> after \<^verbatim>\<open>lock(&heap_lock)\<close>, freeing a large block: \<open>kfree_merge\<close> links the
  block of \<open>sz\<close> bytes behind \<open>header\<close> into the free list with head \<open>lhead\<close>, once its neighbours are known.
\<close>

definition kfree_merge ::
  "int \<Rightarrow> int \<Rightarrow> int \<Rightarrow> int \<Rightarrow> int \<Rightarrow> mem \<Rightarrow> int \<Rightarrow> (mem \<times> int) cres" where
  "kfree_merge ptr header sz before after m lhead =
     (if before \<noteq> 0 \<and> u64 (before + get_size m before) = header then
        let m = set_size m before (get_size m before + sz + 16) in
        if u64 (ptr + sz) = after then
          let m = set_size m before (get_size m before + get_size m after) in
          Option.bind (scan (\<lambda>h. get_next m h = after) (get_next m) lhead)
            (\<lambda>h. if h \<noteq> 0 then cret (set_next m h (get_next m after), lhead)
                 else cret (m, get_next m lhead))
        else cret (m, lhead)
      else if u64 (ptr + sz) = after then
        let m = set_size m header (sz + get_size m after);
            m = set_next m header lhead;
            lhead = header
        in
        Option.bind (scan (\<lambda>h. get_next m h = after) (get_next m) header)
          (\<lambda>h. if h \<noteq> 0 then cret (set_next m h (get_next m after), lhead) else cfail Null_Deref)
      else
        let m = set_size m header sz;
            m = set_next m header lhead
        in cret (m, header))"

definition kfree_large :: "int \<Rightarrow> pmm_state \<Rightarrow> pmm_state cres" where
  "kfree_large ptr s =
     cbind (lock_heap s) (\<lambda>s. let header = u64 (ptr - 16) in
     cassert (get_magic (mem s) header = 7654321)
       (let sz = u64 (get_size (mem s) header);
            s = s\<lparr>mem := fst (memset (mem s) (u64 (ptr - 16)) 0 (u64 (get_size (mem s) header + 16)))\<rparr>
        in
        Option.bind (walk (neighbour_step header) (get_next (mem s)) (head s) (0, 0))
          (\<lambda>(before, after).
          cbind (kfree_merge ptr header sz before after (mem s) (head s))
            (\<lambda>(m, lhead). cret (unlock_heap (s\<lparr>mem := m, head := lhead\<rparr>))))))"

subsection \<open>Free regions\<close>

text \<open>
  What the free list holds: regions inside the heap \<open>[lo, hi)\<close> that do not overlap, of a size that
  is a multiple of 16 and fits an \<^verbatim>\<open>int\<close>.
\<close>

definition free_ok :: "int \<Rightarrow> int \<Rightarrow> region list \<Rightarrow> bool" where
  "free_ok lo hi xs \<longleftrightarrow> 0 < lo \<and> hi \<le> 9223372036854775808 \<and> all_apart xs \<and>
     (\<forall>r \<in> set xs. lo \<le> fst r \<and> fst r + snd r \<le> hi \<and> 16 \<le> snd r \<and> snd r < 2147483648 \<and>
        16 dvd snd r)"

fun take_page :: "region list \<Rightarrow> int \<times> region list" where
  "take_page [] = (0, [])"
| "take_page ((a, n) # xs) =
     (if n \<ge> page_bytes then (a, if n = page_bytes then xs else (a + page_bytes, n - page_bytes) # xs)
      else let (p, ys) = take_page xs in (p, (a, n) # ys))"

lemma free_ok_memD:
  assumes "free_ok lo hi xs" "(a, n) \<in> set xs"
  shows "lo \<le> a" "0 < a" "a + n \<le> hi" "16 \<le> n" "n < 2147483648" "16 dvd n"
    "a < 9223372036854775808"
  using assms by (auto simp: free_ok_def)

lemma free_ok_append:
  "free_ok lo hi (xs @ ys) \<longleftrightarrow> free_ok lo hi xs \<and> free_ok lo hi ys \<and>
     (\<forall>r \<in> set xs. \<forall>t \<in> set ys. apart r t)"
  by (auto simp: free_ok_def)

lemma free_ok_Cons:
  "free_ok lo hi ((a, n) # xs) \<longleftrightarrow> free_ok lo hi xs \<and> (\<forall>r \<in> set xs. apart (a, n) r) \<and>
     lo \<le> a \<and> a + n \<le> hi \<and> 16 \<le> n \<and> n < 2147483648 \<and> 16 dvd n"
  by (auto simp: free_ok_def)

lemma apart_nodeI:
  "apart r (a, n) \<or> apart (a, n) r \<Longrightarrow> 16 \<le> snd r \<Longrightarrow> a \<le> b \<Longrightarrow> b + 16 \<le> a + n \<Longrightarrow>
     apart (fst r, node_bytes) (b, node_bytes)"
  by (auto simp: apart_def)

lemma free_ok_clear_of:
  assumes "free_ok lo hi (xs @ (a, n) # ys)" "a \<le> b" "b + 16 \<le> a + n"
  shows "clear_of b xs" "clear_of b ys"
  unfolding clear_of_def
  using assms by (auto simp: free_ok_def simp del: apart_simp intro!: apart_nodeI)

lemma free_ok_node_bytes:
  "free_ok lo hi xs \<Longrightarrow> (b, k) \<in> set xs \<Longrightarrow> bytes (b, node_bytes) \<subseteq> all_bytes xs"
  using all_bytes_memI [of "(b, k)" xs] by (fastforce simp: free_ok_def)

text \<open>How many pages the free list can still give.\<close>

definition heap_pages :: "region list \<Rightarrow> nat" where
  "heap_pages xs = sum_list (map (\<lambda>r. nat (snd r div page_bytes)) xs)"

lemma heap_pages_simps [simp]:
  "heap_pages [] = 0" "heap_pages (r # xs) = nat (snd r div page_bytes) + heap_pages xs"
  by (simp_all add: heap_pages_def)

lemma heap_pages_take: "take_page xs = (p, ys) \<Longrightarrow> heap_pages ys = heap_pages xs - 1"
proof (induction xs arbitrary: p ys)
  case (Cons r xs)
  obtain a n where r: "r = (a, n)" by (cases r)
  show ?case
  proof (cases "page_bytes \<le> n")
    case True
    have "nat (n div page_bytes) = Suc (nat ((n - page_bytes) div page_bytes))" if "page_bytes < n"
    proof -
      have "n div page_bytes = (n - page_bytes) div page_bytes + 1" using div_add1_eq [of "n - page_bytes" page_bytes page_bytes] by simp
      moreover have "0 \<le> (n - page_bytes) div page_bytes" using that by (simp add: pos_imp_zdiv_nonneg_iff)
      ultimately show ?thesis by simp
    qed
    then show ?thesis using Cons.prems True r by (auto split: if_splits)
  next
    case False
    then have "nat (n div page_bytes) = 0" using zdiv_mono1 [of n "page_bytes - 1" page_bytes] by simp
    then show ?thesis using Cons r False by (auto split: prod.splits)
  qed
qed simp

lemma heap_pages_none: "\<forall>r \<in> set xs. snd r < page_bytes \<Longrightarrow> heap_pages xs = 0"
proof (induction xs)
  case (Cons r xs)
  then show ?case using zdiv_mono1 [of "snd r" "page_bytes - 1" page_bytes] by simp
qed simp

lemma take_page_none:
  "\<forall>(a, n) \<in> set xs. n < page_bytes \<Longrightarrow> take_page xs = (0, xs)"
  by (induction xs) auto

lemma take_page_split:
  "\<forall>(b, k) \<in> set ys. k < page_bytes \<Longrightarrow> page_bytes \<le> n \<Longrightarrow>
     take_page (ys @ (a, n) # zs) =
       (a, ys @ (if n = page_bytes then zs else (a + page_bytes, n - page_bytes) # zs))"
  by (induction ys) auto

lemma page_split:
  obtains "\<forall>(a, n) \<in> set xs. n < page_bytes"
  | ys a n zs where "xs = ys @ (a, n) # zs" "\<forall>(b, k) \<in> set ys. k < page_bytes" "page_bytes \<le> n"
proof (cases "\<exists>r \<in> set xs. page_bytes \<le> snd r")
  case True
  then obtain ys r zs where "xs = ys @ r # zs" "page_bytes \<le> snd r" "\<forall>t \<in> set ys. \<not> page_bytes \<le> snd t"
    using split_list_first_prop [of xs "\<lambda>r. page_bytes \<le> snd r"] by blast
  then show ?thesis by (cases r) (auto intro!: that(2))
next
  case False
  then show ?thesis by (auto intro!: that(1))
qed

lemma take_page_null:
  assumes "free_ok lo hi xs" "fst (take_page xs) = 0"
  shows "\<forall>r \<in> set xs. snd r < page_bytes"
proof (cases rule: page_split [of xs])
  case (2 us a l zs)
  then have "fst (take_page xs) = a" by (simp add: take_page_split)
  moreover have "0 < a" using free_ok_memD(2) [OF assms(1), of a l] 2 by simp
  ultimately show ?thesis using assms(2) by simp
qed auto

lemma apart_part:
  "apart r (a, n) \<Longrightarrow> a \<le> b \<Longrightarrow> b + k \<le> a + n \<Longrightarrow> apart r (b, k)"
  "apart (a, n) r \<Longrightarrow> a \<le> b \<Longrightarrow> b + k \<le> a + n \<Longrightarrow> apart (b, k) r"
  "apart (a, n) r \<Longrightarrow> a \<le> b \<Longrightarrow> b + k \<le> a + n \<Longrightarrow> apart r (b, k)"
  by (auto simp: apart_def)

lemma take_page_free_ok:
  assumes ok: "free_ok lo hi xs" and tp: "take_page xs = (p, ys)"
  shows "free_ok lo hi ys \<and>
    (p = 0 \<and> ys = xs \<or>
     lo \<le> p \<and> p + page_bytes \<le> hi \<and> all_bytes xs = bytes (p, page_bytes) \<union> all_bytes ys \<and>
     (\<forall>r \<in> set ys. apart r (p, page_bytes)))"
proof (cases rule: page_split [of xs])
  case 1
  with tp ok show ?thesis by (simp add: take_page_none)
next
  case (2 us a n zs)
  then have eq: "p = a" "ys = us @ (if n = page_bytes then zs else (a + page_bytes, n - page_bytes) # zs)"
    using tp by (simp_all add: take_page_split)
  have n: "16 dvd n" "n < 2147483648" "lo \<le> a" "a + n \<le> hi"
    and us: "free_ok lo hi us" and zs: "free_ok lo hi zs"
    and sep: "\<forall>r \<in> set us. apart r (a, n)" "\<forall>r \<in> set zs. apart (a, n) r"
      "\<forall>r \<in> set us. \<forall>t \<in> set zs. apart r t"
    using ok by (auto simp: 2 free_ok_append free_ok_Cons)
  have "16 dvd n - page_bytes" using n by (simp add: dvd_diff)
  then have rem: "n \<noteq> page_bytes \<Longrightarrow> 16 \<le> n - page_bytes"
    using 2 by (intro zdvd_imp_le) auto
  have "free_ok lo hi ys"
    using us zs sep n 2 rem \<open>16 dvd n - page_bytes\<close>
    by (auto simp: eq free_ok_append free_ok_Cons simp del: apart_simp intro: apart_part)
  moreover have "\<forall>r \<in> set ys. apart r (a, page_bytes)"
    using sep 2 by (auto simp: eq simp del: apart_simp intro: apart_part) auto
  moreover have "all_bytes xs = bytes (a, page_bytes) \<union> all_bytes ys"
    using 2 by (auto simp: eq)
  ultimately show ?thesis using n 2 eq by auto
qed

subsection \<open>Allocating a page\<close>

lemma node_list_memset:
  assumes "node_list m p xs" "\<forall>r \<in> set xs. 16 \<le> snd r \<and> apart r (a, n)"
  shows "node_list (fst (memset m a c n)) p xs"
  using assms(1)
  by (rule node_list_frame) (use assms(2) in \<open>auto simp: memset_eq apart_def\<close>)

text \<open>
  Taking the node \<open>a\<close> out of the list, or putting another in its place: the node before it, or the
  head, is redirected to \<open>q\<close>.
\<close>

lemma redirect:
  assumes nl: "node_list m p (us @ (a, n) # zs)" and q: "node_list m q ys"
    and "0 \<le> q" "q < 18446744073709551616"
    and us: "\<And>vs b k. us = vs @ [(b, k)] \<Longrightarrow> clear_of b vs \<and> clear_of b ys"
  shows "us = [] \<and> p = a \<or>
    (\<exists>vs b k. us = vs @ [(b, k)] \<and> last (0 # map fst us) = b \<and> b \<noteq> 0 \<and> get_next m b = a \<and>
       node_list (set_next m b q) p (us @ ys))"
proof (cases us rule: rev_cases)
  case Nil
  with nl show ?thesis by simp
next
  case (snoc vs r)
  obtain b k where r: "r = (b, k)" by (cases r)
  have nl': "node_list m p (vs @ (b, k) # (a, n) # zs)" using nl snoc r by simp
  have "node_list (set_next m b q) p (vs @ (b, k) # ys)"
    by (rule node_list_relink [OF nl' q]) (use us snoc r assms(3,4) in auto)
  moreover have "get_next m b = a" "b \<noteq> 0"
    using node_list_after [OF nl'] by auto
  ultimately show ?thesis using snoc r by auto
qed

lemma allockpage_refines:
  assumes quiet: "heap_lock s = 0" and nl: "node_list (mem s) (head s) xs"
    and ok: "free_ok lo hi xs" and tp: "take_page xs = (p, ys)"
  shows "\<exists>s'. allockpage s = cret (s', p) \<and> heap_lock s' = 0 \<and> cpupagelist s' = cpupagelist s \<and>
    node_list (mem s') (head s') ys \<and> (\<forall>x. x \<notin> all_bytes xs \<longrightarrow> mem s' x = mem s x)"
proof (cases rule: page_split [of xs])
  case 1
  then have "take_page xs = (0, xs)" by (rule take_page_none)
  moreover have "scan_prev (\<lambda>h. 65536 \<le> get_size (mem s) h) (get_next (mem s)) 0 (head s) =
      Some (0, last (0 # map fst xs))"
    by (rule node_list_scan_none [OF nl]) (use 1 nl in \<open>auto simp: node_list_def\<close>)
  ultimately show ?thesis
    using quiet nl tp by (auto simp: allockpage_def simp del: last.simps)
next
  case (2 us a n zs)
  let ?m = "mem s"
  define ys' where "ys' = (if n = page_bytes then zs else (a + page_bytes, n - page_bytes) # zs)"
  have eq: "p = a" "ys = us @ ys'"
    using tp 2 by (simp_all add: take_page_split ys'_def)
  have a: "lo \<le> a" "a \<noteq> 0" "a + n \<le> hi" "n < 2147483648" "0 < lo" "hi \<le> 9223372036854775808"
    using ok by (auto simp: 2 free_ok_append free_ok_Cons free_ok_def)
  have nl2: "node_list ?m (head s) (us @ (a, n) # zs)" using nl 2 by simp
  have scan: "scan_prev (\<lambda>h. 65536 \<le> get_size ?m h) (get_next ?m) 0 (head s) =
      Some (a, last (0 # map fst us))"
    by (rule node_list_scan_found [OF nl2]) (use 2 nl in \<open>auto simp: node_list_def\<close>)
  have sz: "get_size ?m a = n" and zs: "node_list ?m (get_next ?m a) zs"
    using node_list_after [OF nl2] by auto
  note tpo = take_page_free_ok [OF ok tp]
  have "n \<noteq> page_bytes \<Longrightarrow> 16 \<le> n - page_bytes"
    using 2 ok by (intro zdvd_imp_le) (auto simp: free_ok_append free_ok_Cons dvd_diff)
  then have rem: "n \<noteq> page_bytes \<Longrightarrow> a + page_bytes + 16 \<le> a + n" by simp
  have clr: "clear_of a us" "clear_of a zs" "n \<noteq> page_bytes \<Longrightarrow> clear_of (a + page_bytes) us"
      "n \<noteq> page_bytes \<Longrightarrow> clear_of (a + page_bytes) zs"
    using free_ok_clear_of [of lo hi us a n zs] ok rem 2(3) by (auto simp: 2(1))
  define m1 where "m1 = (if n = page_bytes then ?m else
     set_size (set_next ?m (a + page_bytes) (get_next ?m a)) (a + page_bytes) (n - page_bytes))"
  define q where "q = (if n = page_bytes then get_next ?m a else a + page_bytes)"
  have nl1: "node_list m1 (head s) (us @ (a, n) # zs)"
    using nl2 clr by (auto simp: m1_def)
  have q: "node_list m1 q ys'" "0 \<le> q" "q < 18446744073709551616"
    using zs clr a 2 by (auto simp: m1_def q_def ys'_def s32_id u64_id)
  have us: "clear_of b vs \<and> clear_of b ys'" if "us = vs @ [(b, k)]" for vs b k
    using free_ok_clear_of [of lo hi vs b k ys' b] tpo that
    by (auto simp: eq free_ok_append free_ok_Cons)
  have zap: "node_list (fst (memset m' h 0 16)) p' ys" if "node_list m' p' ys" "h = a" for m' h p'
    unfolding that(2) using that(1)
    by (rule node_list_memset)
      (use tpo a eq in \<open>auto simp: free_ok_def apart_def\<close>)
  have frame: "x \<notin> bytes (b, 16)" if "x \<notin> all_bytes xs" "(b, k) \<in> set xs" for x b k
    using free_ok_node_bytes [OF ok that(2)] that(1) by blast
  have m1: "m1 x = ?m x" "x \<notin> bytes (a, 16)" if "x \<notin> all_bytes xs" for x
  proof -
    have "x \<notin> bytes (a, n)" using that by (simp add: 2)
    then show "m1 x = ?m x" "x \<notin> bytes (a, 16)"
      using rem 2(3) by (auto simp: m1_def node_set_frame)
  qed
  have "us = [] \<and> head s = a \<or> (\<exists>vs b k. us = vs @ [(b, k)] \<and> last (0 # map fst us) = b \<and>
      b \<noteq> 0 \<and> get_next m1 b = a \<and> node_list (set_next m1 b q) (head s) (us @ ys'))"
    by (rule redirect [OF nl1 q]) (rule us)
  then show ?thesis
  proof (elim disjE exE conjE)
    assume "us = []" "head s = a"
    then have run: "allockpage s =
        cret (s\<lparr>heap_lock := 0, head := q, mem := fst (memset m1 a 0 16)\<rparr>, a)"
      using quiet scan sz a 2 by (auto simp: allockpage_def m1_def q_def node_apart_fields u64_id Let_def)
    show ?thesis
      unfolding run eq using zap [of m1 q a] q \<open>us = []\<close> eq m1 by (auto simp: memset_eq)
  next
    fix vs b k
    assume us: "us = vs @ [(b, k)]" "last (0 # map fst us) = b" "b \<noteq> 0" "get_next m1 b = a"
      "node_list (set_next m1 b q) (head s) (us @ ys')"
    then have run: "allockpage s =
        cret (s\<lparr>heap_lock := 0, mem := fst (memset (set_next m1 b q) a 0 16)\<rparr>, a)"
      using quiet scan sz a 2 by (auto simp: allockpage_def m1_def q_def node_apart_fields u64_id Let_def)
    show ?thesis
      unfolding run eq using zap [of "set_next m1 b q" "head s" a] us eq m1 frame [of _ b k] 2(1)
      by (auto simp: memset_eq node_set_frame)
  qed
qed

subsection \<open>Large blocks\<close>

text \<open>
  The highest node that can hold \<open>sz\<close> bytes gives its upper end, 16 bytes of which become the
  header of the block.
\<close>

definition high_fit :: "int \<Rightarrow> region list \<Rightarrow> int" where
  "high_fit sz xs = fold max (map fst (filter (\<lambda>r. sz \<le> snd r) xs)) 0"

definition resize :: "int \<Rightarrow> int \<Rightarrow> region list \<Rightarrow> region list" where
  "resize a v xs = map (\<lambda>r. (fst r, if fst r = a then v else snd r)) xs"

definition take_huge :: "int \<Rightarrow> region list \<Rightarrow> int \<times> region list" where
  "take_huge sz xs =
     (let a = high_fit sz xs in
      case map_of xs a of None \<Rightarrow> (0, xs)
      | Some n \<Rightarrow> (a + n - sz, resize a (n - sz - 16) xs))"

text \<open>No node that can hold the block is too small for its header and a remaining node.\<close>

definition roomy :: "int \<Rightarrow> region list \<Rightarrow> bool" where
  "roomy sz xs \<longleftrightarrow> (\<forall>r \<in> set xs. sz \<le> snd r \<longrightarrow> sz + 32 \<le> snd r)"

lemma high_fit_walk:
  assumes "node_list m p xs" "free_ok lo hi xs"
  shows "walk (highnode_step m sz) (get_next m) p 0 = Some (high_fit sz xs)"
proof -
  have "fold (\<lambda>r. highnode_step m sz (fst r)) ys h = fold max (map fst (filter (\<lambda>r. sz \<le> snd r) ys)) h"
    if "0 \<le> h" "\<forall>r \<in> set ys. 0 < fst r \<and> get_size m (fst r) = snd r \<and> 0 \<le> snd r" for ys h
    using that
  proof (induction ys arbitrary: h)
    case (Cons r ys)
    obtain a n where r: "r = (a, n)" by (cases r)
    have "n < 2147483648" using Cons.prems(2) node_ranges(4) [of m a] r by auto
    then have "highnode_step m sz a h = (if sz \<le> n then max a h else h)"
      using Cons.prems r by (auto simp: highnode_step_def u64_id)
    then show ?case
      using Cons.IH [of "if sz \<le> n then max a h else h"] Cons.prems r by auto
  qed simp
  moreover have "\<forall>r \<in> set xs. 0 < fst r \<and> get_size m (fst r) = snd r \<and> 0 \<le> snd r"
    using assms by (auto simp: node_list_def free_ok_def)
  ultimately show ?thesis
    by (simp add: high_fit_def node_list_walk [OF assms(1)])
qed

lemma fold_max: "fold max xs b = (if xs = [] then b else max b (Max (set xs)))" for b :: int
  by (induction xs arbitrary: b) (auto simp: max.assoc max.commute max.left_commute)

lemma high_fit_cases:
  assumes "free_ok lo hi xs"
  obtains "high_fit sz xs = 0" "\<forall>r \<in> set xs. snd r < sz" "0 \<notin> fst ` set xs"
  | n where "0 < high_fit sz xs" "(high_fit sz xs, n) \<in> set xs" "sz \<le> n"
      "\<forall>(b, k) \<in> set xs. sz \<le> k \<longrightarrow> b \<le> high_fit sz xs"
proof -
  let ?ys = "map fst (filter (\<lambda>r. sz \<le> snd r) xs)"
  have pos: "0 < a" if "(a, n) \<in> set xs" for a n using free_ok_memD [OF assms that] by simp
  show ?thesis
  proof (cases "?ys = []")
    case True
    then have "\<forall>r \<in> set xs. snd r < sz" by (auto simp: filter_empty_conv)
    with True pos show ?thesis by (force intro: that(1) simp: high_fit_def)
  next
    case False
    then have "set ?ys \<noteq> {}" unfolding set_empty .
    then have mem: "Max (set ?ys) \<in> set ?ys" by (intro Max_in) auto
    then have "0 < Max (set ?ys)" using pos by auto
    then have eq: "high_fit sz xs = Max (set ?ys)"
      using False by (simp add: high_fit_def fold_max del: map_is_Nil_conv)
    have "b \<le> Max (set ?ys)" if "(b, k) \<in> set xs" "sz \<le> k" for b k
      using that by (intro Max_ge) force+
    then show ?thesis using mem \<open>0 < Max (set ?ys)\<close> unfolding eq [symmetric]
      by (auto intro: that(2))
  qed
qed

lemma free_ok_distinct: "free_ok lo hi xs \<Longrightarrow> distinct (map fst xs)"
proof (induction xs)
  case (Cons r xs)
  then show ?case by (cases r) (force simp: free_ok_Cons free_ok_def)
qed simp

lemma resize_split:
  assumes "distinct (map fst (us @ (a, n) # zs))"
  shows "resize a v (us @ (a, n) # zs) = us @ (a, v) # zs"
  using assms by (auto simp: resize_def intro!: map_idI) force+

lemma take_huge_cases:
  assumes ok: "free_ok lo hi xs"
  obtains "high_fit sz xs = 0" "take_huge sz xs = (0, xs)" "\<forall>r \<in> set xs. snd r < sz"
  | us a n zs where "xs = us @ (a, n) # zs" "high_fit sz xs = a" "sz \<le> n"
      "take_huge sz xs = (a + n - sz, us @ (a, n - sz - 16) # zs)"
proof (cases rule: high_fit_cases [OF ok, of sz])
  case 1
  then have "map_of xs 0 = None" by (simp add: map_of_eq_None_iff)
  with 1 show ?thesis by (intro that(1)) (auto simp: take_huge_def)
next
  case (2 n)
  obtain us zs where xs: "xs = us @ (high_fit sz xs, n) # zs" using 2(2) by (meson split_list)
  have d: "distinct (map fst xs)" by (rule free_ok_distinct [OF ok])
  then have "map_of xs (high_fit sz xs) = Some n" using 2(2) by simp
  moreover have "resize (high_fit sz xs) (n - sz - 16) xs = us @ (high_fit sz xs, n - sz - 16) # zs"
    by (subst (2) xs, rule resize_split) (use d xs in metis)
  ultimately have "take_huge sz xs = (high_fit sz xs + n - sz, us @ (high_fit sz xs, n - sz - 16) # zs)"
    by (simp add: take_huge_def Let_def)
  then show ?thesis using xs 2(3) by (intro that(2)) auto
qed

text \<open>
  Large blocks are not aligned to their size: of two blocks of \<open>n\<close> bytes that are cut from one region one after the
  other, at most one is at a multiple of \<open>n\<close>, because the 16-byte header is between them.
\<close>

lemma large_blocks_misaligned:
  assumes "0 < a" "16 < n" "n dvd fst (take_huge n [(a, l)])" "2 * n + 16 \<le> l"
  shows "fst (take_huge n (snd (take_huge n [(a, l)]))) = fst (take_huge n [(a, l)]) - n - 16 \<and>
    \<not> n dvd fst (take_huge n (snd (take_huge n [(a, l)])))"
proof -
  have hf: "high_fit n [(a, k)] = a" if "n \<le> k" for k using assms(1) that by (simp add: high_fit_def)
  have th: "take_huge n [(a, k)] = (a + k - n, [(a, k - n - 16)])" if "n \<le> k" for k
    using hf [OF that] by (simp add: take_huge_def resize_def)
  have next_block: "fst (take_huge n (snd (take_huge n [(a, l)]))) = fst (take_huge n [(a, l)]) - n - 16"
    using th [of l] th [of "l - n - 16"] assms(2,4) by simp
  moreover have "\<not> n dvd fst (take_huge n [(a, l)]) - n - 16"
  proof
    assume d: "n dvd fst (take_huge n [(a, l)]) - n - 16"
    have "n dvd 16" using dvd_diff [OF dvd_diff [OF assms(3) dvd_refl] d] by simp
    then show False using assms(2) by (auto dest: zdvd_imp_le)
  qed
  ultimately show ?thesis by simp
qed

lemma take_huge_free_ok:
  assumes ok: "free_ok lo hi xs" and rm: "roomy sz xs" and sz: "0 < sz" "16 dvd sz"
    and th: "take_huge sz xs = (p, ys)"
  shows "free_ok lo hi ys \<and>
    (p = 0 \<and> ys = xs \<and> (\<forall>r \<in> set xs. snd r < sz) \<or>
     lo + 16 \<le> p \<and> p + sz \<le> hi \<and> all_bytes xs = bytes (p - 16, sz + 16) \<union> all_bytes ys \<and>
     (\<forall>r \<in> set ys. apart r (p - 16, sz + 16)))"
proof (cases rule: take_huge_cases [OF ok, of sz])
  case 1
  with th ok show ?thesis by simp
next
  case (2 us a n zs)
  have n: "16 dvd n" "n < 2147483648" "lo \<le> a" "a + n \<le> hi" "sz + 32 \<le> n"
    and us: "free_ok lo hi us" and zs: "free_ok lo hi zs"
    and sep: "\<forall>r \<in> set us. apart r (a, n)" "\<forall>r \<in> set zs. apart (a, n) r"
      "\<forall>r \<in> set us. \<forall>t \<in> set zs. apart r t"
    using ok rm 2(3) by (auto simp: 2(1) free_ok_append free_ok_Cons roomy_def)
  have eq: "p = a + n - sz" "ys = us @ (a, n - sz - 16) # zs" using th 2(4) by auto
  have dvd: "16 dvd n - sz - 16" using n sz by (simp add: dvd_diff)
  have "free_ok lo hi ys"
    using us zs sep n dvd sz
    by (auto simp: eq free_ok_append free_ok_Cons simp del: apart_simp intro: apart_part)
  moreover have "\<forall>r \<in> set ys. apart r (p - 16, sz + 16)"
    using sep n sz by (auto simp: eq simp del: apart_simp intro: apart_part) auto
  moreover have "all_bytes xs = bytes (p - 16, sz + 16) \<union> all_bytes ys"
    using n sz by (auto simp: eq 2(1))
  ultimately show ?thesis using n eq sz by auto
qed

lemma kallocHugeMemory_refines:
  assumes quiet: "heap_lock s = 0" and nl: "node_list (mem s) (head s) xs"
    and ok: "free_ok lo hi xs" and rm: "roomy sz xs" and sz: "0 < sz" "sz < 2147483648" "16 dvd sz"
    and th: "take_huge sz xs = (p, ys)"
  shows "\<exists>s'. kallocHugeMemory sz s = cret (s', p) \<and> heap_lock s' = 0 \<and>
    cpupagelist s' = cpupagelist s \<and> node_list (mem s') (head s') ys \<and>
    (p \<noteq> 0 \<longrightarrow> get_size (mem s') (p - 16) = sz \<and> get_magic (mem s') (p - 16) = 7654321) \<and>
    (\<forall>x. x \<notin> all_bytes xs \<longrightarrow> mem s' x = mem s x)"
proof (cases rule: take_huge_cases [OF ok, of sz])
  case 1
  with th quiet nl show ?thesis
    by (auto simp: kallocHugeMemory_def high_fit_walk [OF _ ok])
next
  case (2 us a n zs)
  let ?m = "mem s"
  have n: "16 dvd n" "n < 2147483648" "lo \<le> a" "a + n \<le> hi" "sz + 32 \<le> n" "0 < a"
      "a + n \<le> 9223372036854775808"
    using ok rm 2(3) by (auto simp: 2(1) free_ok_def roomy_def)
  have eq: "p = a + n - sz" "ys = us @ (a, n - sz - 16) # zs" using th 2(4) by auto
  have nl2: "node_list ?m (head s) (us @ (a, n) # zs)" using nl 2 by simp
  have szn: "get_size ?m a = n" using node_list_after [OF nl2] by simp
  have clr: "clear_of b us" "clear_of b zs" if "a \<le> b" "b + 16 \<le> a + n" for b
    using free_ok_clear_of [of lo hi us a n zs b] ok that by (auto simp: 2(1))
  let ?h = "a + n - sz - 16"
  let ?m' = "set_magic (set_size (set_size ?m a (n - sz - 16)) ?h sz) ?h 7654321"
  have run: "kallocHugeMemory sz s = cret (s\<lparr>heap_lock := 0, mem := ?m'\<rparr>, p)"
    using quiet n sz nl high_fit_walk [OF nl ok, of sz]
    by (simp add: kallocHugeMemory_def 2(2) Let_def szn u64_id eq) (simp add: algebra_simps)
  have "node_list (set_size ?m a (n - sz - 16)) (head s) ys"
    unfolding eq by (rule node_list_resize [OF nl2]) (use clr n sz in auto)
  then have "node_list ?m' (head s) ys"
    using clr [of ?h] n sz by (simp add: eq)
  moreover have "\<forall>x. x \<notin> all_bytes xs \<longrightarrow> ?m' x = ?m x"
    using n sz by (auto simp: 2(1) node_set_frame)
  moreover have "get_size ?m' ?h = sz" "get_magic ?m' ?h = 7654321"
    using sz by (simp_all add: s32_id)
  ultimately show ?thesis unfolding run eq by simp
qed

end
