(* ===== verification/Pmm_Heap_Free.thy ===== *)
theory Pmm_Heap_Free
  imports Pmm_Heap
begin

text \<open>
  Giving memory back.  The first part is shared by the two halves of \<open>kfree\<close> in
  \<open>kernel/src/pmm.c\<close>: what its search for the neighbours of a block finds, and how it takes a node
  out of a list.  The second part is the half for large blocks: \<open>give_back\<close> says what happens to
  the free regions and \<open>leaked\<close> which bytes are lost, and \<open>kfree_large\<close> is shown to do that.
\<close>

subsection \<open>Neighbours of an address\<close>

definition nearest_below :: "region list \<Rightarrow> int \<Rightarrow> int \<Rightarrow> bool" where
  "nearest_below xs h b \<longleftrightarrow>
     b = 0 \<and> (\<forall>r \<in> set xs. h \<le> fst r) \<or>
     b \<in> fst ` set xs \<and> b < h \<and> (\<forall>r \<in> set xs. fst r < h \<longrightarrow> fst r \<le> b)"

definition nearest_above :: "region list \<Rightarrow> int \<Rightarrow> int \<Rightarrow> bool" where
  "nearest_above xs h a \<longleftrightarrow>
     a = 0 \<and> (\<forall>r \<in> set xs. fst r \<le> h) \<or>
     a \<in> fst ` set xs \<and> h < a \<and> (\<forall>r \<in> set xs. h < fst r \<longrightarrow> a \<le> fst r)"

lemma neighbours_fold:
  assumes "\<forall>r \<in> set xs. 0 < fst r"
  shows "case fold (\<lambda>r. neighbour_step h (fst r)) xs (0, 0) of (b, a) \<Rightarrow>
    nearest_below xs h b \<and> nearest_above xs h a"
  using assms
proof (induction xs rule: rev_induct)
  case Nil
  then show ?case by (simp add: nearest_below_def nearest_above_def)
next
  case (snoc r xs)
  obtain b a where ba: "fold (\<lambda>r. neighbour_step h (fst r)) xs (0, 0) = (b, a)" by fastforce
  have b: "nearest_below xs h b" and a: "nearest_above xs h a" and r: "0 < fst r"
    using snoc ba by auto
  have "nearest_below (xs @ [r]) h
      (if fst r < h then (if b = 0 then fst r else if fst r > b then fst r else b) else b)"
    using b r snoc.prems unfolding nearest_below_def by (auto; force)
  moreover have "nearest_above (xs @ [r]) h
      (if fst r > h then (if a = 0 then fst r else if fst r < a then fst r else a) else a)"
    using a r snoc.prems unfolding nearest_above_def by (auto; force)
  ultimately show ?case using ba by (simp add: neighbour_step_def)
qed

lemma neighbours_walk:
  assumes "node_list m p xs" "\<forall>r \<in> set xs. 0 < fst r"
  obtains b a where "walk (neighbour_step h) (get_next m) p (0, 0) = Some (b, a)"
    "nearest_below xs h b" "nearest_above xs h a"
proof -
  obtain b a where "fold (\<lambda>r. neighbour_step h (fst r)) xs (0, 0) = (b, a)" by fastforce
  with neighbours_fold [OF assms(2), of h] node_list_walk [OF assms(1), of "neighbour_step h" "(0, 0)"]
  show ?thesis by (auto intro: that)
qed

text \<open>The free region that ends at an address, and the one that starts there.\<close>

definition touching_below :: "region list \<Rightarrow> int \<Rightarrow> region option" where
  "touching_below xs h = find (\<lambda>r. fst r + snd r = h) xs"

definition touching_above :: "region list \<Rightarrow> int \<Rightarrow> region option" where
  "touching_above xs e = find (\<lambda>r. fst r = e) xs"

lemma touching_below_SomeD:
  "touching_below xs h = Some (b, n) \<Longrightarrow> (b, n) \<in> set xs \<and> b + n = h"
  by (auto simp: touching_below_def find_Some_iff) (metis fst_conv snd_conv nth_mem)+

lemma touching_above_SomeD:
  "touching_above xs e = Some (a, k) \<Longrightarrow> (a, k) \<in> set xs \<and> a = e"
  by (auto simp: touching_above_def find_Some_iff) (metis fst_conv nth_mem)+

lemma touching_below_None: "touching_below xs h = None \<longleftrightarrow> (\<forall>r \<in> set xs. fst r + snd r \<noteq> h)"
  unfolding touching_below_def find_None_iff by blast

lemma touching_above_None: "touching_above xs e = None \<longleftrightarrow> (\<forall>r \<in> set xs. fst r \<noteq> e)"
  unfolding touching_above_def find_None_iff by blast

lemma all_apart_eqI:
  assumes "all_apart xs" "(a, n) \<in> set xs" "(b, k) \<in> set xs" "0 < n" "0 < k" "a < b + k" "b < a + n"
  shows "(a, n) = (b, k)"
  using assms by (induction xs) (auto simp: apart_def)

lemma nearest_below_touching:
  assumes ap: "all_apart xs" and pos: "\<forall>r \<in> set xs. 0 < fst r \<and> 0 < snd r"
    and near: "nearest_below xs h b"
  shows "(case touching_below xs h of None \<Rightarrow> \<forall>n. (b, n) \<in> set xs \<longrightarrow> b + n \<noteq> h
    | Some (c, n) \<Rightarrow> c = b)"
proof (cases "touching_below xs h")
  case None
  then have "\<forall>r \<in> set xs. fst r + snd r \<noteq> h" by (simp add: touching_below_None)
  with None show ?thesis by auto
next
  case (Some r)
  obtain c n where r: "r = (c, n)" by (cases r)
  then have c: "(c, n) \<in> set xs" "c + n = h" using Some touching_below_SomeD by auto
  then have "0 < n" using pos by auto
  have "b \<in> fst ` set xs" "b < h" "c \<le> b"
    using near c \<open>0 < n\<close> unfolding nearest_below_def by force+
  then obtain k where "(b, k) \<in> set xs" by auto
  with all_apart_eqI [OF ap c(1) this] pos c \<open>c \<le> b\<close> \<open>b < h\<close> have "c = b" by force
  then show ?thesis using Some r by simp
qed

lemma nearest_above_touching:
  assumes pos: "\<forall>r \<in> set xs. 0 < fst r" and e: "h < e" "0 < e"
    and sep: "\<forall>r \<in> set xs. h < fst r \<longrightarrow> e \<le> fst r" and near: "nearest_above xs h a"
  shows "(case touching_above xs e of None \<Rightarrow> a \<noteq> e | Some (c, k) \<Rightarrow> c = a \<and> a = e)"
proof (cases "touching_above xs e")
  case None
  then have "\<forall>r \<in> set xs. fst r \<noteq> e" by (simp add: touching_above_None)
  with None e near show ?thesis by (auto simp: nearest_above_def)
next
  case (Some r)
  obtain c k where r: "r = (c, k)" by (cases r)
  then have c: "(c, k) \<in> set xs" "c = e" using Some touching_above_SomeD by auto
  then have "a = e" using near sep e unfolding nearest_above_def by force
  then show ?thesis using Some r c by simp
qed

subsection \<open>Taking a node out of a list\<close>

text \<open>Nodes whose 16 bytes do not overlap.\<close>

definition spaced :: "region list \<Rightarrow> bool" where
  "spaced xs = sorted_wrt (\<lambda>r t. apart (fst r, node_bytes) (fst t, node_bytes)) xs"

lemma spaced_simps [simp]:
  "spaced []"
  "spaced (r # xs) \<longleftrightarrow> (\<forall>t \<in> set xs. apart (fst r, node_bytes) (fst t, node_bytes)) \<and> spaced xs"
  "spaced (xs @ ys) \<longleftrightarrow> spaced xs \<and> spaced ys \<and>
     (\<forall>r \<in> set xs. \<forall>t \<in> set ys. apart (fst r, node_bytes) (fst t, node_bytes))"
  by (simp_all add: spaced_def sorted_wrt_append)

lemma spaced_distinct: "spaced xs \<Longrightarrow> distinct (map fst xs)"
proof (induction xs)
  case (Cons r xs)
  then have "fst r \<noteq> fst t" if "t \<in> set xs" for t using that by (auto simp: apart_def)
  with Cons show ?case by auto
qed simp

lemma spaced_clear_of:
  "spaced (xs @ (a, n) # ys) \<Longrightarrow> clear_of a xs \<and> clear_of a ys"
  by (auto simp: clear_of_def)

lemma spaced_resize [simp]: "spaced (resize a v xs) = spaced xs"
  by (induction xs) (auto simp: resize_def)

lemma free_ok_spaced: "free_ok lo hi xs \<Longrightarrow> spaced xs"
proof (induction xs)
  case (Cons r xs)
  then show ?case by (cases r) (force simp: free_ok_Cons free_ok_def apart_def)
qed simp

lemma node_list_next:
  "node_list m p (xs @ (b, k) # ys) \<Longrightarrow> get_next m b = (case ys of [] \<Rightarrow> 0 | r # _ \<Rightarrow> fst r)"
  using node_list_after node_list_hd by blast

lemma filter_split:
  assumes "distinct (map fst (us @ (a, n) # zs))"
  shows "filter (\<lambda>r. fst r \<noteq> a) (us @ (a, n) # zs) = us @ zs"
proof -
  have "a \<notin> fst ` set us" "a \<notin> fst ` set zs" using assms by auto
  then have "filter (\<lambda>r. fst r \<noteq> a) us = us" "filter (\<lambda>r. fst r \<noteq> a) zs = zs"
    by (force intro: filter_True)+
  then show ?thesis by simp
qed

text \<open>The loop that looks for the predecessor of \<open>a\<close> finds it, and unlinking there removes \<open>a\<close>.\<close>

lemma scan_predecessor:
  assumes nl: "node_list m p (us @ (a, n) # zs)" and d: "distinct (map fst (us @ (a, n) # zs))"
  shows "scan (\<lambda>h. get_next m h = a) (get_next m) p = Some (last (0 # map fst us))"
proof -
  have next_ne: "get_next m c \<noteq> a"
    if "us @ (a, n) # zs = ps @ (c, l) # qs" "a \<noteq> 0" "case qs of [] \<Rightarrow> True | r # _ \<Rightarrow> fst r \<noteq> a"
    for ps c l qs
    using node_list_next [of m p ps c l qs] nl that by (cases qs) auto
  have a: "a \<noteq> 0" using node_list_after [OF nl] by simp
  have hd_ne: "case qs of [] \<Rightarrow> True | r # _ \<Rightarrow> fst r \<noteq> a" if "a \<notin> fst ` set qs" for qs
    using that by (auto split: list.split)
  show ?thesis
  proof (cases us rule: rev_cases)
    case Nil
    have "get_next m (fst r) \<noteq> a" if r: "r \<in> set ((a, n) # zs)" for r
    proof -
      obtain ps qs where sp: "(a, n) # zs = ps @ r # qs" using split_list [OF r] by blast
      then have "a \<notin> fst ` set qs" using d Nil by (cases ps) force+
      then show ?thesis using next_ne [of ps "fst r" "snd r" qs] sp Nil a hd_ne [of qs] by simp
    qed
    then show ?thesis
      using node_list_scan_none(1) [of m p "(a, n) # zs" "\<lambda>h. get_next m h = a"] nl Nil by auto
  next
    case (snoc vs r)
    obtain b k where r: "r = (b, k)" by (cases r)
    have nl': "node_list m p (vs @ (b, k) # (a, n) # zs)" using nl snoc r by simp
    have "get_next m (fst t) \<noteq> a" if t: "t \<in> set vs" for t
    proof -
      obtain ps qs where sp: "vs = ps @ t # qs" using split_list [OF t] by blast
      then have "a \<notin> fst ` set (qs @ [r])" using d snoc by auto
      then have "case qs @ r # (a, n) # zs of [] \<Rightarrow> True | r # _ \<Rightarrow> fst r \<noteq> a"
        by (cases qs) auto
      then show ?thesis
        using next_ne [of ps "fst t" "snd t" "qs @ r # (a, n) # zs"] sp snoc a by simp
    qed
    then have "scan (\<lambda>h. get_next m h = a) (get_next m) p = Some b"
      using node_list_next [OF nl'] by (intro node_list_scan_found(1) [OF nl']) auto
    then show ?thesis using snoc r by simp
  qed
qed

lemma remove_node:
  assumes nl: "node_list m p xs" and sp: "spaced xs" and a: "a \<in> fst ` set xs"
  obtains "p = a" "scan (\<lambda>h. get_next m h = a) (get_next m) p = Some 0"
    "node_list m (get_next m a) (filter (\<lambda>r. fst r \<noteq> a) xs)"
  | h k where "p \<noteq> a" "h \<noteq> 0" "(h, k) \<in> set xs" "h \<noteq> a"
    "scan (\<lambda>h. get_next m h = a) (get_next m) p = Some h"
    "node_list (set_next m h (get_next m a)) p (filter (\<lambda>r. fst r \<noteq> a) xs)"
proof -
  obtain n where "(a, n) \<in> set xs" using a by auto
  then obtain us zs where xs: "xs = us @ (a, n) # zs" by (meson split_list)
  have d: "distinct (map fst (us @ (a, n) # zs))" using spaced_distinct [OF sp] xs by simp
  have nl': "node_list m p (us @ (a, n) # zs)" using nl xs by simp
  have zs: "node_list m (get_next m a) zs" using node_list_after [OF nl'] by simp
  note sc = scan_predecessor [OF nl' d]
  have "us = [] \<and> p = a \<or> (\<exists>vs b k. us = vs @ [(b, k)] \<and> last (0 # map fst us) = b \<and>
      b \<noteq> 0 \<and> get_next m b = a \<and> node_list (set_next m b (get_next m a)) p (us @ zs))"
  proof (rule redirect [OF nl' zs])
    show "clear_of b vs \<and> clear_of b zs" if "us = vs @ [(b, k)]" for vs b k
      using spaced_clear_of [of vs b k "(a, n) # zs"] sp xs that by simp
  qed auto
  then show ?thesis
  proof (elim disjE exE conjE)
    assume "us = []" "p = a"
    then show ?thesis using sc zs filter_split [OF d] xs by (intro that(1)) auto
  next
    fix vs b k
    assume us: "us = vs @ [(b, k)]" "last (0 # map fst us) = b" "b \<noteq> 0"
      "node_list (set_next m b (get_next m a)) p (us @ zs)"
    have "p \<noteq> a" using node_list_hd [OF nl'] us(1) d by (cases vs) auto
    then show ?thesis
      using us sc filter_split [OF d] xs d by (intro that(2) [of b k]) auto
  qed
qed

subsection \<open>Freeing a large block\<close>

text \<open>
  The block of \<open>sz\<close> bytes whose 16-byte header is at \<open>h\<close> joins the free region that ends at \<open>h\<close>
  and the one that starts where it ends.  When none ends at \<open>h\<close>, the new node is given
  the size of the block without its header, and the last 16 bytes are lost.
\<close>

definition without :: "int \<Rightarrow> region list \<Rightarrow> region list" where
  "without a xs = filter (\<lambda>r. fst r \<noteq> a) xs"

definition give_back :: "int \<Rightarrow> int \<Rightarrow> region list \<Rightarrow> region list" where
  "give_back h sz xs =
     (case touching_below xs h of
        Some (b, n) \<Rightarrow>
          (case touching_above xs (h + 16 + sz) of
             Some (a, k) \<Rightarrow> without a (resize b (n + sz + 16 + k) xs)
           | None \<Rightarrow> resize b (n + sz + 16) xs)
      | None \<Rightarrow>
          (case touching_above xs (h + 16 + sz) of
             Some (a, k) \<Rightarrow> (h, sz + k) # without a xs
           | None \<Rightarrow> (h, sz) # xs))"

definition leaked :: "int \<Rightarrow> int \<Rightarrow> region list \<Rightarrow> int set" where
  "leaked h sz xs =
     (if touching_below xs h \<noteq> None then {}
      else case touching_above xs (h + 16 + sz) of
          Some (a, k) \<Rightarrow> bytes (a + k - 16, 16)
        | None \<Rightarrow> bytes (h + sz, 16))"

lemma node_list_resize_mem:
  assumes "node_list m p xs" "spaced xs" "(b, n) \<in> set xs" "- 2147483648 \<le> v" "v < 2147483648"
  shows "node_list (set_size m b v) p (resize b v xs)"
proof -
  obtain us zs where xs: "xs = us @ (b, n) # zs" using assms(3) by (meson split_list)
  then show ?thesis
    using node_list_resize [of m p us b n zs v] spaced_clear_of [of us b n zs] assms
      resize_split [of us b n zs v] spaced_distinct [OF assms(2)] by auto
qed

lemma node_list_head_range:
  "node_list m p xs \<Longrightarrow> free_ok lo hi xs \<Longrightarrow> 0 \<le> p \<and> p < 9223372036854775808"
  by (cases xs) (auto simp: free_ok_Cons free_ok_def)

lemma nearest_below_code:
  assumes nl: "node_list m p xs" and ok: "free_ok lo hi xs" and near: "nearest_below xs h b"
  shows "(b \<noteq> 0 \<and> u64 (b + get_size m b) = h) = (touching_below xs h \<noteq> None) \<and>
    (\<forall>c n. touching_below xs h = Some (c, n) \<longrightarrow> c = b \<and> (b, n) \<in> set xs \<and> b + n = h)"
proof -
  have pos: "\<forall>r \<in> set xs. 0 < fst r \<and> 0 < snd r" and ap: "all_apart xs"
    using ok by (auto simp: free_ok_def)
  have sz: "get_size m b = n \<and> u64 (b + n) = b + n" if "(b, n) \<in> set xs" for n
    using node_list_sizes [OF nl that] free_ok_memD [OF ok that] by (simp add: u64_id)
  have b: "b \<in> fst ` set xs" if "b \<noteq> 0" using near that by (auto simp: nearest_below_def)
  note tb = nearest_below_touching [OF ap pos near]
  show ?thesis
  proof (cases "touching_below xs h")
    case None
    with tb sz b show ?thesis by fastforce
  next
    case (Some r)
    obtain c n where r: "r = (c, n)" by (cases r)
    then have "(c, n) \<in> set xs" "c + n = h" "c = b" using Some touching_below_SomeD tb by auto
    then show ?thesis using Some r sz pos by auto
  qed
qed

lemma neighbour_code:
  assumes nl: "node_list m p xs" and ok: "free_ok lo hi xs"
    and blk: "lo \<le> h" "0 < w" "h + w \<le> hi" "\<forall>r \<in> set xs. apart r (h, w)"
  obtains b a where "walk (neighbour_step h) (get_next m) p (0, 0) = Some (b, a)"
    "(b \<noteq> 0 \<and> u64 (b + get_size m b) = h) = (touching_below xs h \<noteq> None)"
    "\<forall>c n. touching_below xs h = Some (c, n) \<longrightarrow> c = b \<and> (b, n) \<in> set xs \<and> b + n = h"
    "(u64 (h + w) = a) = (touching_above xs (h + w) \<noteq> None)"
    "\<forall>c k. touching_above xs (h + w) = Some (c, k) \<longrightarrow> c = a \<and> (a, k) \<in> set xs \<and> a = h + w"
proof -
  have pos: "\<forall>r \<in> set xs. 0 < fst r \<and> 0 < snd r" and lohi: "0 < lo" "hi \<le> 9223372036854775808"
    using ok by (auto simp: free_ok_def)
  obtain b a where w: "walk (neighbour_step h) (get_next m) p (0, 0) = Some (b, a)"
    and near: "nearest_below xs h b" "nearest_above xs h a"
    using neighbours_walk [OF nl, of h] pos by auto
  have sep: "\<forall>r \<in> set xs. h < fst r \<longrightarrow> h + w \<le> fst r"
    using pos blk(4) by (fastforce simp: apart_def)
  have e: "h < h + w" "0 < h + w" "u64 (h + w) = h + w" using blk lohi by (auto simp: u64_id)
  have "(u64 (h + w) = a) = (touching_above xs (h + w) \<noteq> None)"
    "\<forall>c k. touching_above xs (h + w) = Some (c, k) \<longrightarrow> c = a \<and> (a, k) \<in> set xs \<and> a = h + w"
    using nearest_above_touching [OF _ e(1,2) sep near(2)] pos touching_above_SomeD [of xs "h + w"] e(3)
    by (auto split: option.splits)
  with w nearest_below_code [OF nl ok near(1)] show ?thesis by (intro that [of b a]) auto
qed

lemma free_ok_frame:
  "free_ok lo hi xs \<Longrightarrow> (c, k) \<in> set xs \<Longrightarrow> x \<notin> all_bytes xs \<Longrightarrow> x \<notin> bytes (c, node_bytes)"
  using free_ok_node_bytes by blast

text \<open>The four ways a block joins the list.\<close>

lemma kfree_merge_below:
  assumes nl: "node_list m p xs" and ok: "free_ok lo hi xs" and b: "(b, n) \<in> set xs" "b + n = h"
    and a: "u64 (ptr + sz) \<noteq> a" and fits: "n + sz + 16 < 2147483648" "0 < sz"
  shows "\<exists>m' q. kfree_merge ptr h sz b a m p = cret (m', q) \<and>
    node_list m' q (resize b (n + sz + 16) xs) \<and> (\<forall>x. x \<notin> all_bytes xs \<longrightarrow> m' x = m x)"
proof -
  note fb = free_ok_memD [OF ok b(1)] and sb = node_list_sizes [OF nl b(1)]
  have "kfree_merge ptr h sz b a m p = cret (set_size m b (n + sz + 16), p)"
    using fb a b(2) by (simp add: kfree_merge_def sb u64_id)
  moreover have "node_list (set_size m b (n + sz + 16)) p (resize b (n + sz + 16) xs)"
    using fb fits by (intro node_list_resize_mem [OF nl free_ok_spaced [OF ok] b(1)]) auto
  ultimately show ?thesis using free_ok_frame [OF ok b(1)] by (simp add: node_set_frame)
qed

lemma kfree_merge_both:
  assumes nl: "node_list m p xs" and ok: "free_ok lo hi xs" and b: "(b, n) \<in> set xs" "b + n = h"
    and a: "(a, k) \<in> set xs" "u64 (ptr + sz) = a" "h < a"
    and fits: "n + sz + 16 + k < 2147483648" "0 < sz"
  shows "\<exists>m' q. kfree_merge ptr h sz b a m p = cret (m', q) \<and>
    node_list m' q (without a (resize b (n + sz + 16 + k) xs)) \<and> (\<forall>x. x \<notin> all_bytes xs \<longrightarrow> m' x = m x)"
proof -
  let ?m = "set_size m b (n + sz + 16 + k)" and ?ys = "resize b (n + sz + 16 + k) xs"
  note fb = free_ok_memD [OF ok b(1)] and fa = free_ok_memD [OF ok a(1)]
  note sp = free_ok_spaced [OF ok]
  have sizes: "get_size m b = n" "get_size m a = k" using nl a b by (auto simp: node_list_sizes)
  have ab: "apart (a, node_bytes) (b, node_bytes)" using fb b a(3) by auto
  have "kfree_merge ptr h sz b a m p =
      Option.bind (scan (\<lambda>c. get_next ?m c = a) (get_next ?m) p)
        (\<lambda>c. if c \<noteq> 0 then cret (set_next ?m c (get_next ?m a), p) else cret (?m, get_next ?m p))"
    using fb fa b(2) a(2) ab sizes fits
    by (simp add: kfree_merge_def Let_def u64_id s32_id node_apart_fields cong: if_cong del: apart_simp)
  moreover have nl2: "node_list ?m p ?ys"
    using fb fa fits by (intro node_list_resize_mem [OF nl sp b(1)]) auto
  moreover have sp2: "spaced ?ys" using sp by simp
  moreover have mem: "a \<in> fst ` set ?ys" using a(1) by (force simp: resize_def)
  moreover have "\<forall>x. x \<notin> all_bytes xs \<longrightarrow> ?m x = m x"
    using free_ok_frame [OF ok b(1)] by (simp add: node_set_frame)
  ultimately show ?thesis
  proof (cases rule: remove_node [OF nl2 sp2 mem, case_names head inner])
    case (inner c l)
    then obtain l' where "(c, l') \<in> set xs" by (auto simp: resize_def)
    from free_ok_frame [OF ok this] inner \<open>\<forall>x. x \<notin> all_bytes xs \<longrightarrow> ?m x = m x\<close> show ?thesis
      using \<open>kfree_merge _ _ _ _ _ _ _ = _\<close> by (simp add: without_def node_set_frame)
  qed (simp add: without_def)
qed

lemma kfree_merge_new:
  assumes nl: "node_list m p xs" and ok: "free_ok lo hi xs"
    and nb: "\<not> (b \<noteq> 0 \<and> u64 (b + get_size m b) = h)"
    and h: "0 < h" "h < 9223372036854775808" "clear_of h xs" and fits: "sz < 2147483648" "0 < sz"
  shows "u64 (ptr + sz) \<noteq> a \<Longrightarrow> \<exists>m' q. kfree_merge ptr h sz b a m p = cret (m', q) \<and>
      node_list m' q ((h, sz) # xs) \<and> (\<forall>x. x \<notin> all_bytes xs \<union> bytes (h, node_bytes) \<longrightarrow> m' x = m x)"
    and "(a, k) \<in> set xs \<Longrightarrow> u64 (ptr + sz) = a \<Longrightarrow> h + node_bytes \<le> a \<Longrightarrow> sz + k < 2147483648 \<Longrightarrow>
      \<exists>m' q. kfree_merge ptr h sz b a m p = cret (m', q) \<and>
      node_list m' q ((h, sz + k) # without a xs) \<and>
      (\<forall>x. x \<notin> all_bytes xs \<union> bytes (h, node_bytes) \<longrightarrow> m' x = m x)"
proof -
  define m2 where "m2 v = set_next (set_size m h v) h p" for v
  have nl2: "node_list (m2 v) h ((h, v) # xs)" if "0 < v" "v < 2147483648" for v
    using that h nl node_list_head_range [OF nl ok] by (simp add: m2_def s32_id u64_id)
  have m2: "m2 v x = m x" if "x \<notin> all_bytes xs \<union> bytes (h, node_bytes)" for x v
    using that by (auto simp: m2_def node_set_frame)
  show "\<exists>m' q. kfree_merge ptr h sz b a m p = cret (m', q) \<and> node_list m' q ((h, sz) # xs) \<and>
      (\<forall>x. x \<notin> all_bytes xs \<union> bytes (h, node_bytes) \<longrightarrow> m' x = m x)" if "u64 (ptr + sz) \<noteq> a"
  proof -
    have "kfree_merge ptr h sz b a m p = cret (m2 sz, h)"
      unfolding kfree_merge_def m2_def using nb that by (simp only: if_False Let_def)
    then show ?thesis using nl2 [of sz] m2 [of _ sz] fits by auto
  qed
  assume a: "(a, k) \<in> set xs" "u64 (ptr + sz) = a" "h + node_bytes \<le> a" "sz + k < 2147483648"
  have size: "get_size m a = k" using nl a by (auto simp: node_list_sizes)
  have k: "0 < sz + k" using free_ok_memD [OF ok a(1)] fits by simp
  have ah: "apart (a, node_bytes) (h, node_bytes)" using a(3) by simp
  have mem: "a \<in> fst ` set ((h, sz + k) # xs)" "h \<noteq> a" using a by (force, simp)
  have sp: "spaced ((h, sz + k) # xs)"
    using free_ok_spaced [OF ok] h(3) by (auto simp: clear_of_def apart_def)
  have run: "kfree_merge ptr h sz b a m p =
      Option.bind (scan (\<lambda>c. get_next (m2 (sz + k)) c = a) (get_next (m2 (sz + k))) h)
        (\<lambda>c. if c \<noteq> 0 then cret (set_next (m2 (sz + k)) c (get_next (m2 (sz + k)) a), h)
             else cfail Null_Deref)"
    unfolding kfree_merge_def if_not_P [OF nb] using a(2) ah size
    by (simp add: m2_def Let_def node_apart_fields cong: if_cong del: apart_simp)
  show "\<exists>m' q. kfree_merge ptr h sz b a m p = cret (m', q) \<and>
      node_list m' q ((h, sz + k) # without a xs) \<and>
      (\<forall>x. x \<notin> all_bytes xs \<union> bytes (h, node_bytes) \<longrightarrow> m' x = m x)"
  proof (cases rule: remove_node [OF nl2 [OF k a(4)] sp mem(1), case_names head inner])
    case head
    with mem show ?thesis by simp
  next
    case (inner c l)
    then have "x \<notin> bytes (c, node_bytes)" if "x \<notin> all_bytes xs \<union> bytes (h, node_bytes)" for x
      using that free_ok_frame [OF ok, of c l x] by auto
    with inner run mem m2 [of _ "sz + k"] show ?thesis by (simp add: without_def node_set_frame)
  qed
qed

lemma kfree_merge_refines:
  assumes nl: "node_list m p xs" and ok: "free_ok lo hi xs" and small: "hi - lo < 2147483648"
    and blk: "lo \<le> h" "0 < sz" "h + 16 + sz \<le> hi" "\<forall>r \<in> set xs. apart r (h, 16 + sz)"
  obtains b a m' q where "walk (neighbour_step h) (get_next m) p (0, 0) = Some (b, a)"
    "kfree_merge (h + 16) h sz b a m p = cret (m', q)" "node_list m' q (give_back h sz xs)"
    "\<forall>x. x \<notin> all_bytes xs \<union> bytes (h, 16 + sz) \<longrightarrow> m' x = m x"
proof -
  have hi: "0 < lo" "hi \<le> 9223372036854775808" using ok by (auto simp: free_ok_def)
  have clr: "clear_of h xs"
    using blk(2,4) ok by (fastforce simp: clear_of_def apart_def free_ok_def)
  have "h + (16 + sz) \<le> hi" "0 < 16 + sz" using blk by auto
  then obtain b a where w: "walk (neighbour_step h) (get_next m) p (0, 0) = Some (b, a)"
    and below: "(b \<noteq> 0 \<and> u64 (b + get_size m b) = h) = (touching_below xs h \<noteq> None)"
      "\<forall>c n. touching_below xs h = Some (c, n) \<longrightarrow> c = b \<and> (b, n) \<in> set xs \<and> b + n = h"
    and above: "(u64 (h + 16 + sz) = a) = (touching_above xs (h + 16 + sz) \<noteq> None)"
      "\<forall>c k. touching_above xs (h + 16 + sz) = Some (c, k) \<longrightarrow> c = a \<and> (a, k) \<in> set xs \<and> a = h + 16 + sz"
    using neighbour_code [OF nl ok blk(1) _ _ blk(4)] by (simp add: add.assoc) blast
  have fits: "sz < 2147483648" "0 < h" "h < 9223372036854775808" using blk hi small by auto
  have "\<exists>m' q. kfree_merge (h + 16) h sz b a m p = cret (m', q) \<and> node_list m' q (give_back h sz xs) \<and>
      (\<forall>x. x \<notin> all_bytes xs \<union> bytes (h, 16 + sz) \<longrightarrow> m' x = m x)"
  proof (cases "touching_below xs h"; cases "touching_above xs (h + 16 + sz)")
    assume n: "touching_below xs h = None" "touching_above xs (h + 16 + sz) = None"
    with below above have c: "\<not> (b \<noteq> 0 \<and> u64 (b + get_size m b) = h)" "u64 (h + 16 + sz) \<noteq> a" by auto
    show ?thesis using kfree_merge_new(1) [OF nl ok c(1) fits(2,3) clr fits(1) blk(2) c(2)] n blk(2)
      by (fastforce simp: give_back_def)
  next
    fix t assume n: "touching_below xs h = None" "touching_above xs (h + 16 + sz) = Some t"
    obtain k where t: "t = (a, k)" and a: "(a, k) \<in> set xs" "a = h + 16 + sz"
      using above n by (cases t) auto
    with below above n have c: "\<not> (b \<noteq> 0 \<and> u64 (b + get_size m b) = h)" "u64 (h + 16 + sz) = a" by auto
    have "sz + k < 2147483648" "h + node_bytes \<le> a" using free_ok_memD(3) [OF ok a(1)] a blk small by auto
    then show ?thesis
      using kfree_merge_new(2) [OF nl ok c(1) fits(2,3) clr fits(1) blk(2) a(1) c(2)] n t blk(2)
      by (fastforce simp: give_back_def)
  next
    fix r assume n: "touching_below xs h = Some r" "touching_above xs (h + 16 + sz) = None"
    obtain l where r: "r = (b, l)" and b: "(b, l) \<in> set xs" "b + l = h" using below n by (cases r) auto
    have c: "u64 (h + 16 + sz) \<noteq> a" using above n by auto
    have "l + sz + 16 < 2147483648" using free_ok_memD(1) [OF ok b(1)] b blk small by auto
    then show ?thesis using kfree_merge_below [OF nl ok b c _ blk(2)] n r by (fastforce simp: give_back_def)
  next
    fix r t assume n: "touching_below xs h = Some r" "touching_above xs (h + 16 + sz) = Some t"
    obtain l where r: "r = (b, l)" and b: "(b, l) \<in> set xs" "b + l = h" using below n by (cases r) auto
    obtain k where t: "t = (a, k)" and a: "(a, k) \<in> set xs" "a = h + 16 + sz"
      using above n by (cases t) auto
    have c: "u64 (h + 16 + sz) = a" "h < a" using above n a blk by auto
    have "l + sz + 16 + k < 2147483648"
      using free_ok_memD(1) [OF ok b(1)] free_ok_memD(3) [OF ok a(1)] a b blk small by auto
    then show ?thesis using kfree_merge_both [OF nl ok b a(1) c _ blk(2)] n r t
      by (fastforce simp: give_back_def)
  qed
  with w show ?thesis using that by blast
qed

lemma kfree_large_refines:
  assumes quiet: "heap_lock s = 0" and nl: "node_list (mem s) (head s) xs"
    and ok: "free_ok lo hi xs" and small: "hi - lo < 2147483648"
    and hdr: "get_magic (mem s) h = 7654321" "get_size (mem s) h = sz"
    and blk: "lo \<le> h" "0 < sz" "h + 16 + sz \<le> hi" "\<forall>r \<in> set xs. apart r (h, 16 + sz)"
  shows "\<exists>s'. kfree_large (h + 16) s = cret s' \<and> heap_lock s' = 0 \<and>
    cpupagelist s' = cpupagelist s \<and> node_list (mem s') (head s') (give_back h sz xs) \<and>
    (\<forall>x. x \<notin> all_bytes xs \<union> bytes (h, 16 + sz) \<longrightarrow> mem s' x = mem s x)"
proof -
  define m1 where "m1 = fst (memset (mem s) h 0 (sz + 16))"
  have nl1: "node_list m1 (head s) xs"
    unfolding m1_def by (rule node_list_memset [OF nl])
      (use ok blk(4) in \<open>fastforce simp: free_ok_def apart_def\<close>)
  obtain b a m' q where w: "walk (neighbour_step h) (get_next m1) (head s) (0, 0) = Some (b, a)"
    "kfree_merge (h + 16) h sz b a m1 (head s) = cret (m', q)" "node_list m' q (give_back h sz xs)"
    "\<forall>x. x \<notin> all_bytes xs \<union> bytes (h, 16 + sz) \<longrightarrow> m' x = m1 x"
    using kfree_merge_refines [OF nl1 ok small blk] by blast
  have hi: "0 < lo" "hi \<le> 9223372036854775808" using ok by (auto simp: free_ok_def)
  then have "u64 h = h" "u64 sz = sz" "u64 (sz + 16) = sz + 16"
    using blk small by (auto simp: u64_id)
  then have "kfree_large (h + 16) s = cret (s\<lparr>mem := m', head := q, heap_lock := 0\<rparr>)"
    using quiet hdr w by (simp add: kfree_large_def m1_def [symmetric])
  moreover have "m1 x = mem s x" if "x \<notin> bytes (h, 16 + sz)" for x
    using that by (auto simp: m1_def memset_eq)
  ultimately show ?thesis using w by auto
qed

text \<open>What giving a block back does to the free bytes.\<close>

lemma all_bytes_resize:
  assumes "distinct (map fst xs)" "(b, n) \<in> set xs" "n \<le> v"
  shows "all_bytes (resize b v xs) = all_bytes xs \<union> bytes (b, v)"
proof -
  obtain us zs where xs: "xs = us @ (b, n) # zs" using assms(2) by (meson split_list)
  then show ?thesis using resize_split [of us b n zs v] assms by auto
qed

lemma all_bytes_without:
  assumes ok: "free_ok lo hi xs" and a: "(a, k) \<in> set xs"
  shows "all_bytes (without a xs) = all_bytes xs - bytes (a, k)"
proof -
  obtain us zs where xs: "xs = us @ (a, k) # zs" using a by (meson split_list)
  have "bytes (a, k) \<inter> all_bytes (us @ zs) = {}"
    using ok apart_bytes unfolding xs by (fastforce simp: free_ok_def all_bytes_def simp del: apart_simp)
  then show ?thesis
    using filter_split [of us a k zs] free_ok_distinct [OF ok] xs by (auto simp: without_def)
qed

lemma free_ok_without: "free_ok lo hi xs \<Longrightarrow> free_ok lo hi (without a xs)"
  by (auto simp: free_ok_def without_def all_apart_def sorted_wrt_filter)

lemma free_ok_resize:
  assumes ok: "free_ok lo hi xs" and b: "(b, n) \<in> set xs"
    and v: "b + v \<le> hi" "16 \<le> v" "v < 2147483648" "16 dvd v"
    and sep: "\<forall>r \<in> set xs. r \<noteq> (b, n) \<longrightarrow> apart r (b, v)"
  shows "free_ok lo hi (resize b v xs)"
proof -
  obtain us zs where xs: "xs = us @ (b, n) # zs" using b by (meson split_list)
  have d: "distinct (map fst xs)" by (rule free_ok_distinct [OF ok])
  then have "r \<noteq> (b, n) \<and> r \<in> set xs" if "r \<in> set us \<union> set zs" for r
    using that unfolding xs by force
  then have "\<forall>r \<in> set us. apart r (b, v)" "\<forall>r \<in> set zs. apart (b, v) r"
    using sep apart_sym by blast+
  then show ?thesis
    using ok v resize_split [of us b n zs v] d unfolding xs
    by (auto simp: free_ok_append free_ok_Cons simp del: apart_simp)
qed

lemma free_ok_apart:
  assumes "free_ok lo hi xs" "r \<in> set xs" "t \<in> set xs" "r \<noteq> t"
  shows "apart r t"
  using assms apart_sym unfolding free_ok_def all_apart_def
  by (metis (no_types, lifting) in_set_conv_nth linorder_neqE_nat sorted_wrt_iff_nth_less)

text \<open>
  \<open>give_back\<close> is an instance of putting the region \<open>(h, w)\<close> back, where a new node is given the
  size \<open>v\<close>; the same function describes the pages of small blocks.
\<close>

definition join :: "int \<Rightarrow> int \<Rightarrow> int \<Rightarrow> region list \<Rightarrow> region list" where
  "join h w v xs =
     (case touching_below xs h of
        Some (b, n) \<Rightarrow>
          (case touching_above xs (h + w) of
             Some (a, k) \<Rightarrow> without a (resize b (n + w + k) xs)
           | None \<Rightarrow> resize b (n + w) xs)
      | None \<Rightarrow>
          (case touching_above xs (h + w) of
             Some (a, k) \<Rightarrow> (h, v + k) # without a xs
           | None \<Rightarrow> (h, v) # xs))"

definition lost :: "int \<Rightarrow> int \<Rightarrow> int \<Rightarrow> region list \<Rightarrow> int set" where
  "lost h w v xs =
     (if touching_below xs h \<noteq> None then {}
      else case touching_above xs (h + w) of
          Some (a, k) \<Rightarrow> bytes (h + v + k, w - v)
        | None \<Rightarrow> bytes (h + v, w - v))"

lemma give_back_join: "give_back h sz xs = join h (16 + sz) sz xs"
proof -
  have e: "n + 16 + sz = n + sz + 16" "n + (16 + sz) = n + sz + 16" for n by simp_all
  show ?thesis by (simp only: give_back_def join_def e)
qed

lemma leaked_lost: "leaked h sz xs = lost h (16 + sz) sz xs"
  using touching_above_SomeD [of xs "h + (16 + sz)"]
  by (auto simp: leaked_def lost_def algebra_simps split: option.split)

lemma join_free_ok_new:
  assumes ok: "free_ok lo hi xs" and small: "hi - lo < 2147483648"
    and blk: "lo \<le> h" "16 \<le> v" "v \<le> w" "w \<le> v + 16" "16 dvd v" "h + w \<le> hi"
      "\<forall>r \<in> set xs. apart r (h, w)"
    and none: "touching_below xs h = None"
  shows "free_ok lo hi (join h w v xs) \<and>
    all_bytes (join h w v xs) = all_bytes xs \<union> bytes (h, w) - lost h w v xs"
proof (cases "touching_above xs (h + w)")
  case None
  have "x \<notin> all_bytes xs" if "h \<le> x" "x < h + w" for x
    using blk(7) that by (fastforce simp: all_bytes_def bytes_def apart_def)
  moreover have "\<forall>r \<in> set xs. apart (h, v) r" using blk(3,7) by (auto simp: apart_def)
  ultimately show ?thesis
    using ok blk small none None by (auto simp: join_def lost_def free_ok_Cons simp del: apart_simp)
next
  case (Some t)
  let ?a = "h + w"
  obtain k where k: "touching_above xs ?a = Some (?a, k)" "(?a, k) \<in> set xs"
    using Some touching_above_SomeD by (cases t) fastforce
  have ks: "16 \<le> k" "16 dvd k" "?a + k \<le> hi" using free_ok_memD [OF ok k(2)] by auto
  have sep: "apart (h, w + k) r" if "r \<in> set xs" "r \<noteq> (?a, k)" for r
    using free_ok_apart [OF ok that(1) k(2) that(2)] blk(7) that(1)
      free_ok_memD(4) [OF ok, of "fst r" "snd r"] by (fastforce simp: apart_def)
  have "apart (h, v + k) r" if "r \<in> set (without ?a xs)" for r
    by (rule apart_part(2) [OF sep]) (use that blk(3) in \<open>auto simp: without_def\<close>)
  then have "free_ok lo hi ((h, v + k) # without ?a xs)"
    using blk ks small free_ok_without [OF ok, of ?a]
    by (auto simp: free_ok_Cons dvd_add simp del: apart_simp)
  moreover have "bytes (h, w + k) \<inter> all_bytes (without ?a xs) = {}"
    using sep apart_bytes by (fastforce simp: all_bytes_def without_def simp del: apart_simp)
  then have "all_bytes ((h, v + k) # without ?a xs) =
      all_bytes xs \<union> bytes (h, w) - bytes (h + v + k, w - v)"
    using all_bytes_without [OF ok k(2)] all_bytes_memI [OF k(2)] blk ks by auto
  ultimately show ?thesis using none k by (simp add: join_def lost_def)
qed

lemma join_free_ok_below:
  assumes ok: "free_ok lo hi xs" and small: "hi - lo < 2147483648"
    and blk: "16 \<le> w" "16 dvd w" "h + w \<le> hi" "\<forall>r \<in> set xs. apart r (h, w)"
    and some: "touching_below xs h = Some (b, n)"
  shows "free_ok lo hi (join h w v xs) \<and> all_bytes (join h w v xs) = all_bytes xs \<union> bytes (h, w)"
proof -
  have b: "(b, n) \<in> set xs" "b + n = h" using some touching_below_SomeD by auto
  have ns: "16 \<le> n" "16 dvd n" "lo \<le> b" using free_ok_memD [OF ok b(1)] by auto
  have d: "distinct (map fst xs)" by (rule free_ok_distinct [OF ok])
  have sep: "apart r (b, n + w)" if "r \<in> set xs" "r \<noteq> (b, n)" for r
    using free_ok_apart [OF ok that(1) b(1) that(2)] blk(4) that(1) b(2)
      free_ok_memD(4) [OF ok, of "fst r" "snd r"] by (fastforce simp: apart_def)
  show ?thesis
  proof (cases "touching_above xs (h + w)")
    case None
    have "free_ok lo hi (resize b (n + w) xs)"
      using ns b(2) blk small sep by (intro free_ok_resize [OF ok b(1)]) (auto simp: dvd_add)
    then show ?thesis
      using all_bytes_resize [OF d b(1), of "n + w"] all_bytes_memI [OF b(1)] b some None blk(1) ns
      by (auto simp: join_def)
  next
    case (Some t)
    let ?a = "h + w"
    obtain k where k: "touching_above xs ?a = Some (?a, k)" "(?a, k) \<in> set xs"
      using Some touching_above_SomeD by (cases t) fastforce
    let ?v = "n + w + k"
    have ks: "16 \<le> k" "16 dvd k" "?a + k \<le> hi" using free_ok_memD [OF ok k(2)] by auto
    have ab: "b \<noteq> ?a" using b(2) ns blk(1) by simp
    have ok': "free_ok lo hi (without ?a xs)" by (rule free_ok_without [OF ok])
    have bw: "(b, n) \<in> set (without ?a xs)" using b ab by (simp add: without_def)
    have sep': "apart r (b, ?v)" if "r \<in> set (without ?a xs)" "r \<noteq> (b, n)" for r
      using free_ok_apart [OF ok _ k(2), of r] sep [of r] that b(2)
        free_ok_memD(4) [OF ok, of "fst r" "snd r"] by (fastforce simp: apart_def without_def)
    have "free_ok lo hi (resize b ?v (without ?a xs))"
      using ns ks b(2) blk small sep' by (intro free_ok_resize [OF ok' bw]) (auto simp: dvd_add)
    moreover have "all_bytes (resize b ?v (without ?a xs)) = all_bytes xs \<union> bytes (h, w)"
      using all_bytes_resize [OF free_ok_distinct [OF ok'] bw, of ?v] all_bytes_without [OF ok k(2)]
        all_bytes_memI [OF b(1)] all_bytes_memI [OF k(2)] b(2) blk(1) ns ks by auto
    moreover have "without ?a (resize b ?v xs) = resize b ?v (without ?a xs)"
      by (simp add: without_def resize_def filter_map comp_def)
    ultimately show ?thesis using some k by (simp add: join_def)
  qed
qed

lemma leaked_within:
  assumes "free_ok lo hi xs" "16 \<le> sz"
  shows "leaked h sz xs \<subseteq> all_bytes xs \<union> bytes (h, 16 + sz)"
proof (cases "touching_above xs (h + 16 + sz)")
  case None
  then show ?thesis using assms(2) by (auto simp: leaked_def)
next
  case (Some t)
  then obtain a k where t: "t = (a, k)" "(a, k) \<in> set xs" using touching_above_SomeD by (cases t) auto
  then show ?thesis
    using Some free_ok_memD(4) [OF assms(1) t(2)] all_bytes_memI [OF t(2)] by (auto simp: leaked_def)
qed

lemma give_back_free_ok:
  assumes ok: "free_ok lo hi xs" and small: "hi - lo < 2147483648"
    and blk: "lo \<le> h" "16 \<le> sz" "16 dvd sz" "h + 16 + sz \<le> hi" "\<forall>r \<in> set xs. apart r (h, 16 + sz)"
  shows "free_ok lo hi (give_back h sz xs) \<and>
    all_bytes (give_back h sz xs) = all_bytes xs \<union> bytes (h, 16 + sz) - leaked h sz xs"
proof (cases "touching_below xs h")
  case None
  then show ?thesis
    using join_free_ok_new [OF ok small blk(1,2) _ _ blk(3) _ blk(5)] blk
    by (simp add: give_back_join leaked_lost)
next
  case (Some r)
  then show ?thesis
    using join_free_ok_below [OF ok small _ _ _ blk(5)] blk
    by (cases r) (simp add: give_back_join leaked_lost lost_def dvd_add)
qed

text \<open>
  Freeing the large block allocated last gives the free list back as it was, when no other free
  region starts where the block ends.
\<close>

lemma find_skip: "\<forall>x \<in> set us. \<not> P x \<Longrightarrow> find P (us @ ys) = find P ys"
  by (induction us) auto

lemma give_back_take_huge:
  assumes ok: "free_ok lo hi xs" and rm: "roomy sz xs" and sz: "0 < sz"
    and th: "take_huge sz xs = (p, ys)" "p \<noteq> 0" and top: "\<forall>r \<in> set xs. fst r \<noteq> p + sz"
  shows "give_back (p - 16) sz ys = xs"
proof (cases rule: take_huge_cases [OF ok, of sz])
  case 1
  with th show ?thesis by simp
next
  case (2 us a n zs)
  then have eq: "p = a + n - sz" "ys = us @ (a, n - sz - 16) # zs" using th by auto
  have d: "distinct (map fst xs)" by (rule free_ok_distinct [OF ok])
  then have d': "distinct (map fst ys)" by (simp add: eq 2(1))
  have n: "sz + 32 \<le> n" using rm 2(1,3) by (auto simp: roomy_def)
  have "fst r + snd r \<noteq> p - 16" if "r \<in> set us" for r
  proof -
    have "apart r (a, n)" "16 \<le> snd r" using ok that by (auto simp: 2(1) free_ok_def)
    then show ?thesis using n sz by (auto simp: eq apart_def)
  qed
  then have below: "touching_below ys (p - 16) = Some (a, n - sz - 16)"
    by (simp add: eq(2) touching_below_def find_skip) (simp add: eq(1))
  have "touching_above ys (p + sz) = None"
    using top unfolding touching_above_None by (auto simp: eq 2(1))
  then show ?thesis
    using below resize_split [of us a "n - sz - 16" zs n] d'
    by (simp add: give_back_def eq 2(1))
qed

end
