(* ===== verification/Pmm_Slab.thy ===== *)
theory Pmm_Slab
  imports Pmm_Heap_Free
begin

text \<open>
  The 64 KiB pages of \<open>kernel/src/pmm.c\<close>.  A page starts with a \<^verbatim>\<open>pageheader_t\<close> that gives the
  size of its blocks and the index of its first free run; every block is a multiple of that size
  away from the header.  The free runs form a linked list inside the page.

  \<open>take_run\<close> is the fast path of \<open>kalloc\<close>, \<open>first_page\<close>, \<open>fresh_page\<close> and \<open>start_page\<close> are the ways
  it prepares a page, and \<open>kfree_page\<close> is the part of \<open>kfree\<close> that puts a block back.  The
  abstract state of a page is its address, its block size and its list of free runs; \<open>page_ok\<close>
  relates it to memory.
\<close>

subsection \<open>Model\<close>

definition first_page :: "nat \<Rightarrow> int \<Rightarrow> pmm_state \<Rightarrow> pmm_state cres" where
  "first_page c sz s =
     (if pagehead (cpupagelist s c) = 0 then
        cbind (lock_cpu c s) (\<lambda>s.
        cbind (allockpage s) (\<lambda>(s, p).
          let s = set_pagehead c p s in
          cassert (pagehead (cpupagelist s c) \<noteq> 0)
            (let ph = pagehead (cpupagelist s c);
                 s = s\<lparr>mem := set_next (mem s) ph 0\<rparr>;
                 s = s\<lparr>mem := set_size (mem s) ph sz\<rparr>;
                 s = s\<lparr>mem := set_pagefreehead_index (mem s) ph 1\<rparr>;
                 pageFreend = u64 (ph + sz);
                 s = s\<lparr>mem := set_magic (mem s) pageFreend 1234567\<rparr>;
                 s = s\<lparr>mem := set_next (mem s) pageFreend 0\<rparr>;
                 s = s\<lparr>mem := set_size (mem s) pageFreend (65536 - sz)\<rparr>
             in cret (unlock_cpu c s))))
      else cret s)"

text \<open>The fast path, up to the release of the lock.\<close>

definition take_run :: "int \<Rightarrow> int \<Rightarrow> mem \<Rightarrow> (mem \<times> int) cres" where
  "take_run ph sz m =
     cassert (u64 (get_size m ph) = sz)
       (let fd = u64 (ph + u64 (get_pagefreehead_index m ph * sz)) in
        if u64 (get_size m fd) \<ge> sz then
          let m = set_size m fd (get_size m fd - sz) in
          if get_size m fd = 0 then
            cassert (get_magic m fd = 1234567)
              (if get_next m fd = 0 then cret (set_pagefreehead_index m ph 0, fd)
               else
                 let m = set_pagefreehead_index m ph (u64 (get_next m fd - ph) div sz) in
                 cassert (u64 (ph + u64 (get_pagefreehead_index m ph * sz)) = get_next m fd)
                   (cret (m, fd)))
          else
            cassert (u64 (get_size m ph) = sz)
              (let newnode = u64 (fd + sz);
                   m = set_magic m newnode 1234567;
                   m = set_next m newnode (get_next m fd);
                   m = set_size m newnode (get_size m fd);
                   m = set_pagefreehead_index m ph (get_pagefreehead_index m ph + 1)
               in
               cassert (u64 (ph + u64 (get_pagefreehead_index m ph * sz)) = newnode)
                 (cassert (get_pagefreehead_index m ph < 65536 div sz) (cret (m, fd))))
        else cfail Panic)"

text \<open>The first block of a page that has just been given its block size.\<close>

definition start_page :: "int \<Rightarrow> int \<Rightarrow> mem \<Rightarrow> (mem \<times> int) cres" where
  "start_page pg sz m =
     (let ret = u64 (pg + u64 (get_pagefreehead_index m pg * sz));
          newnode = u64 (ret + sz);
          m = set_magic m newnode 1234567;
          m = set_next m newnode 0;
          m = set_pagefreehead_index m pg (get_pagefreehead_index m pg + 1);
          m = set_size m newnode (65536 - u64 (get_pagefreehead_index m pg * sz))
      in cassert (u64 (pg + u64 (get_pagefreehead_index m pg * sz)) = newnode)
           (cret (fst (memset m ret 0 sz), ret)))"

text \<open>An empty page of this processor, or else a new page; \<^verbatim>\<open>NULL\<close> when there is neither.\<close>

definition fresh_page :: "nat \<Rightarrow> int \<Rightarrow> pmm_state \<Rightarrow> (pmm_state \<times> int) cres" where
  "fresh_page c sz s =
     Option.bind
       (scan (\<lambda>p. get_size (mem s) p = 0 \<and> get_pagefreehead_index (mem s) p > 0)
          (get_next (mem s)) (pagehead (cpupagelist s c)))
       (\<lambda>pg.
         if pg \<noteq> 0 then cret (s\<lparr>mem := set_size (mem s) pg sz\<rparr>, pg)
         else
           cbind (allockpage s) (\<lambda>(s, pg).
             if pg \<noteq> 0 then
               let s = s\<lparr>mem := set_next (mem s) pg (pagehead (cpupagelist s c))\<rparr>;
                   s = s\<lparr>mem := set_size (mem s) pg sz\<rparr>;
                   s = s\<lparr>mem := set_pagefreehead_index (mem s) pg 1\<rparr>
               in cret (set_pagehead c pg s, pg)
             else cret (s, 0)))"

text \<open>\<^verbatim>\<open>a / b\<close> on unsigned operands.\<close>

definition cdiv :: "int \<Rightarrow> int \<Rightarrow> (int \<Rightarrow> 'a cres) \<Rightarrow> 'a cres" where
  "cdiv a b k = (if b = 0 then cfail Div_Zero else k (a div b))"

definition page_run_head :: "mem \<Rightarrow> int \<Rightarrow> int" where
  "page_run_head m ph = u64 (ph + u32 (get_pagefreehead_index m ph * get_size m ph))"

text \<open>
  The body of \<open>kfree\<close> for a block of the page \<open>ph\<close>.  Every field is read again where the code reads
  it again, so that a write to the page header through an alias is seen.  \<open>page_merge\<close> is what
  follows the search for the neighbours.
\<close>

definition page_merge :: "int \<Rightarrow> int \<Rightarrow> int \<Rightarrow> int \<Rightarrow> mem \<Rightarrow> mem cres" where
  "page_merge ptr ph before after m =
     (if before \<noteq> 0 \<and> u64 (before + get_size m before) = ptr then
        let m = set_size m before (get_size m before + get_size m ph) in
        cbind
          (if u64 (ptr + get_size m ph) = after then
             let m = set_size m before (get_size m before + get_size m after) in
             Option.bind (scan (\<lambda>h. get_next m h = after) (get_next m) (page_run_head m ph))
               (\<lambda>h. if h \<noteq> 0 then cret (set_next m h (get_next m after))
                    else cdiv (u64 (before - ph)) (u64 (get_size m ph))
                           (\<lambda>i. cret (set_pagefreehead_index m ph i)))
           else cret m)
          (\<lambda>m. if get_size m before = 65536 - get_size m ph then cret (set_size m ph 0)
               else cret m)
      else if u64 (ptr + get_size m ph) = after then
        let m = set_magic m ptr 1234567;
            m = set_size m ptr (get_size m ph + get_size m after);
            m = set_next m ptr (page_run_head m ph)
        in
        cdiv (u64 (ptr - ph)) (u64 (get_size m ph)) (\<lambda>i.
          let m = set_pagefreehead_index m ph i in
          cassert (get_pagefreehead_index m ph > 0)
            (Option.bind (scan (\<lambda>h. get_next m h = after) (get_next m) (page_run_head m ph))
              (\<lambda>h. if h \<noteq> 0 then
                     let m = set_next m h (get_next m after) in
                     if get_size m ptr = 65536 - get_size m ph then cret (set_size m ph 0)
                     else cret m
                   else cfail Null_Deref)))
      else
        let m = set_magic m ptr 1234567;
            m = set_size m ptr (get_size m ph);
            m = set_next m ptr (page_run_head m ph)
        in
        cdiv (u64 (ptr - ph)) (u64 (get_size m ph)) (\<lambda>i.
          let m = set_pagefreehead_index m ph i in
          cassert (get_pagefreehead_index m ph > 0) (cret m)))"

definition kfree_page :: "int \<Rightarrow> int \<Rightarrow> mem \<Rightarrow> mem cres" where
  "kfree_page ptr ph m =
     (let m = fst (memset m ptr 0 (u64 (get_size m ph))) in
      Option.bind (walk (neighbour_step ptr) (get_next m) (page_run_head m ph) (0, 0))
        (\<lambda>(before, after). page_merge ptr ph before after m))"

subsection \<open>What a page holds\<close>

definition size_class :: "int \<Rightarrow> bool" where
  "size_class sz \<longleftrightarrow> sz \<in> {32, 64, 128, 256, 512, 1024, 2048, 4096, 8192, 16384}"

text \<open>A page: its address, the size of its blocks (0 when it has none), its free runs in list order.\<close>

type_synonym page = "int \<times> int \<times> region list"

definition run_ok :: "int \<Rightarrow> int \<Rightarrow> region \<Rightarrow> bool" where
  "run_ok ph sz r \<longleftrightarrow> ph + sz \<le> fst r \<and> fst r + snd r \<le> ph + page_bytes \<and> sz \<le> snd r \<and>
     sz dvd fst r - ph \<and> sz dvd snd r"

definition runs_ok :: "int \<Rightarrow> int \<Rightarrow> region list \<Rightarrow> bool" where
  "runs_ok ph sz fs \<longleftrightarrow> all_apart fs \<and> (\<forall>r \<in> set fs. run_ok ph sz r)"

definition run_head :: "region list \<Rightarrow> int" where
  "run_head fs = (case fs of [] \<Rightarrow> 0 | r # _ \<Rightarrow> fst r)"

definition run_index :: "int \<Rightarrow> int \<Rightarrow> region list \<Rightarrow> int" where
  "run_index ph sz fs = (case fs of [] \<Rightarrow> 0 | r # _ \<Rightarrow> (fst r - ph) div sz)"

definition page_ok :: "mem \<Rightarrow> page \<Rightarrow> bool" where
  "page_ok m g \<longleftrightarrow> (case g of (ph, sz, fs) \<Rightarrow>
     0 < ph \<and> ph + page_bytes \<le> 9223372036854775808 \<and> get_size m ph = sz \<and>
     (if sz = 0 then fs = [] \<and> get_pagefreehead_index m ph = 1
      else size_class sz \<and> runs_ok ph sz fs \<and> node_list m (run_head fs) fs \<and>
        get_pagefreehead_index m ph = run_index ph sz fs \<and>
        (\<forall>r \<in> set fs. get_magic m (fst r) = 1234567)))"

text \<open>The bytes of a page that no client holds.\<close>

definition page_owned :: "page \<Rightarrow> int set" where
  "page_owned g = (case g of (ph, sz, fs) \<Rightarrow>
     if sz = 0 then bytes (ph, page_bytes) else bytes (ph, sz) \<union> all_bytes fs)"

lemma size_class_bounds:
  assumes "size_class sz"
  shows "32 \<le> sz" "sz \<le> 16384" "16 dvd sz" "sz dvd page_bytes"
  using assms by (auto simp: size_class_def)

lemma page_okE:
  assumes "page_ok m (ph, sz, fs)" "sz \<noteq> 0"
  shows "0 < ph" "ph + page_bytes \<le> 9223372036854775808" "get_size m ph = sz" "size_class sz"
    "runs_ok ph sz fs" "node_list m (run_head fs) fs"
    "get_pagefreehead_index m ph = run_index ph sz fs" "\<forall>r \<in> set fs. get_magic m (fst r) = 1234567"
  using assms by (auto simp: page_ok_def)

lemma run_ok_bounds:
  assumes "size_class sz" "run_ok ph sz (a, n)"
  shows "ph + sz \<le> a" "a + n \<le> ph + page_bytes" "sz \<le> n" "(a - ph) div sz * sz = a - ph"
    "0 < (a - ph) div sz" "(a - ph) div sz < page_bytes div sz" "(a - ph) div sz < 2048"
proof -
  show bnd: "ph + sz \<le> a" "a + n \<le> ph + page_bytes" "sz \<le> n" and mul: "(a - ph) div sz * sz = a - ph"
    using assms by (auto simp: run_ok_def)
  note sz = size_class_bounds [OF assms(1)]
  show "0 < (a - ph) div sz" using bnd sz by (simp add: pos_imp_zdiv_pos_iff)
  have "(a - ph) div sz \<le> (page_bytes - sz) div sz"
    using bnd sz by (intro zdiv_mono1) auto
  also have "(page_bytes - sz) div sz = page_bytes div sz - 1"
    using sz by (simp add: div_diff)
  finally show lt: "(a - ph) div sz < page_bytes div sz" by simp
  have "page_bytes div sz \<le> page_bytes div 32" using sz by (intro zdiv_mono2) auto
  with lt show "(a - ph) div sz < 2048" by simp
qed

lemma runs_ok_Cons:
  "runs_ok ph sz ((a, n) # fs) \<longleftrightarrow> run_ok ph sz (a, n) \<and> runs_ok ph sz fs \<and> (\<forall>r \<in> set fs. apart (a, n) r)"
  by (auto simp: runs_ok_def)

lemma run_ok_rest:
  assumes "size_class sz" "run_ok ph sz (a, n)" "n \<noteq> sz"
  shows "run_ok ph sz (a + sz, n - sz)" "2 * sz \<le> n"
proof -
  note b = run_ok_bounds [OF assms(1,2)] and sz = size_class_bounds [OF assms(1)]
  have "sz dvd n - sz" using assms(2) by (simp add: run_ok_def)
  then show n: "2 * sz \<le> n"
    using zdvd_imp_le [of sz "n - sz"] b(3) assms(3) by linarith
  have "sz dvd (a - ph) + sz" using assms(2) by (intro dvd_add) (auto simp: run_ok_def)
  also have "(a - ph) + sz = a + sz - ph" by simp
  finally have "sz dvd a + sz - ph" .
  then show "run_ok ph sz (a + sz, n - sz)"
    using n b sz \<open>sz dvd n - sz\<close> by (simp add: run_ok_def)
qed

text \<open>Nodes of a page do not overlap each other or its header.\<close>

lemma runs_ok_spaced:
  assumes "size_class sz" "runs_ok ph sz fs"
  shows "spaced fs" "clear_of ph fs"
proof -
  note sz = size_class_bounds [OF assms(1)]
  have len: "\<forall>r \<in> set fs. 32 \<le> snd r \<and> ph + 32 \<le> fst r"
    using assms(2) sz by (fastforce simp: runs_ok_def run_ok_def)
  then show "clear_of ph fs" by (auto simp: clear_of_def)
  show "spaced fs"
    using assms(2) len unfolding runs_ok_def by (induction fs) (fastforce simp: apart_def)+
qed

lemma page_run_head:
  assumes "page_ok m (ph, sz, fs)" "sz \<noteq> 0" "fs \<noteq> []"
  shows "u64 (ph + u64 (get_pagefreehead_index m ph * sz)) = run_head fs"
    "page_run_head m ph = run_head fs" "0 < get_pagefreehead_index m ph"
proof -
  note p = page_okE [OF assms(1,2)]
  obtain a n rest where fs: "fs = (a, n) # rest" using assms(3) by (cases fs) auto
  have r: "run_ok ph sz (a, n)" using p(5) by (simp add: fs runs_ok_Cons)
  note b = run_ok_bounds [OF p(4) r] size_class_bounds [OF p(4)]
  show "0 < get_pagefreehead_index m ph" using b p(7) by (simp add: fs run_index_def)
  show "u64 (ph + u64 (get_pagefreehead_index m ph * sz)) = run_head fs" "page_run_head m ph = run_head fs"
    using b p by (simp_all add: fs run_index_def run_head_def page_run_head_def u64_id u32_id)
qed

subsection \<open>Taking a block\<close>

lemma clear_of_fields:
  assumes "clear_of b fs" "r \<in> set fs"
  shows "get_magic (set_next m b v) (fst r) = get_magic m (fst r)"
    "get_magic (set_size m b v) (fst r) = get_magic m (fst r)"
    "get_magic (set_magic m b v) (fst r) = get_magic m (fst r)"
    "get_magic (set_pagefreehead_index m b v) (fst r) = get_magic m (fst r)"
  using assms by (auto simp: clear_of_def node_apart_fields simp del: apart_simp)

lemma runs_ok_clear:
  assumes "size_class sz" "runs_ok ph sz fs" "fs = (a, n) # rest"
  shows "clear_of ph rest" "a \<le> b \<Longrightarrow> b + 16 \<le> a + n \<Longrightarrow> clear_of b rest"
proof -
  have len: "\<forall>r \<in> set rest. 32 \<le> snd r \<and> ph + 32 \<le> fst r \<and> apart (a, n) r"
    using assms size_class_bounds [OF assms(1)] by (fastforce simp: runs_ok_def run_ok_def)
  then show "clear_of ph rest" by (auto simp: clear_of_def)
  show "clear_of b rest" if "a \<le> b" "b + 16 \<le> a + n"
    using that len by (fastforce simp: clear_of_def apart_def)
qed

lemma run_index_bounds:
  assumes "size_class sz" "runs_ok ph sz fs"
  shows "0 \<le> run_index ph sz fs" "run_index ph sz fs < 2048"
    "fs \<noteq> [] \<Longrightarrow> run_index ph sz fs * sz = run_head fs - ph"
    "fs \<noteq> [] \<Longrightarrow> ph + 32 \<le> run_head fs \<and> run_head fs < ph + page_bytes"
proof -
  have "0 \<le> run_index ph sz fs \<and> run_index ph sz fs < 2048 \<and> (fs \<noteq> [] \<longrightarrow>
      run_index ph sz fs * sz = run_head fs - ph \<and> ph + 32 \<le> run_head fs \<and> run_head fs < ph + page_bytes)"
  proof (cases fs)
    case Nil
    then show ?thesis by (simp add: run_index_def)
  next
    case (Cons r rest)
    then have "run_ok ph sz (fst r, snd r)" using assms(2) by (simp add: runs_ok_def)
    from run_ok_bounds [OF assms(1) this] size_class_bounds [OF assms(1)] Cons show ?thesis
      by (simp add: run_index_def run_head_def)
  qed
  then show "0 \<le> run_index ph sz fs" "run_index ph sz fs < 2048"
    "fs \<noteq> [] \<Longrightarrow> run_index ph sz fs * sz = run_head fs - ph"
    "fs \<noteq> [] \<Longrightarrow> ph + 32 \<le> run_head fs \<and> run_head fs < ph + page_bytes" by auto
qed

lemma page_ok_memset:
  assumes ok: "page_ok m (ph, sz, fs)" "sz \<noteq> 0"
    and "apart (ph, node_bytes) (a, n)" "\<forall>r \<in> set fs. apart r (a, n)"
  shows "page_ok (fst (memset m a 0 n)) (ph, sz, fs)"
proof -
  let ?m = "fst (memset m a 0 n)"
  note p = page_okE [OF ok]
  have len: "\<forall>r \<in> set fs. 16 \<le> snd r"
    using p(5) size_class_bounds [OF p(4)] by (auto simp: runs_ok_def run_ok_def)
  have nl: "node_list ?m (run_head fs) fs"
    by (rule node_list_memset [OF p(6)]) (use len assms(4) in auto)
  have same: "?m x = m x" if "x \<in> bytes (q, node_bytes)" "apart (q, node_bytes) (a, n)" for q x
    using that by (auto simp: memset_eq)
  have "get_magic ?m (fst r) = get_magic m (fst r)" if "r \<in> set fs" for r
    using that len assms(4) by (intro node_local(3) same) (fastforce simp: apart_def)+
  then show ?thesis
    using ok p nl node_local [of ph ?m m] same [of _ ph] assms(3) by (simp add: page_ok_def)
qed

definition after_take :: "int \<Rightarrow> region list \<Rightarrow> region list" where
  "after_take sz fs = (case fs of [] \<Rightarrow> []
     | (a, n) # rest \<Rightarrow> if n = sz then rest else (a + sz, n - sz) # rest)"

lemma page_ok_ConsE:
  assumes "page_ok m (ph, sz, (a, n) # rest)" "sz \<noteq> 0"
  shows "run_ok ph sz (a, n)" "runs_ok ph sz rest" "\<forall>r \<in> set rest. apart (a, n) r"
    "get_size m a = n" "get_magic m a = 1234567" "node_list m (get_next m a) rest"
    "clear_of ph rest" "apart (ph, node_bytes) (a, node_bytes)" "apart (a, node_bytes) (ph, node_bytes)"
    "u64 (ph + u64 (get_pagefreehead_index m ph * sz)) = a" "get_next m a = run_head rest"
    "32 \<le> sz" "u64 sz = sz" "sz \<le> n" "u64 n = n" "get_size m ph = sz" "get_size m ph \<noteq> 0"
    "\<forall>r \<in> set rest. get_magic m (fst r) = 1234567"
proof -
  note p = page_okE [OF assms]
  show r: "run_ok ph sz (a, n)" "runs_ok ph sz rest" "\<forall>r \<in> set rest. apart (a, n) r"
    using p(5) by (auto simp: runs_ok_Cons simp del: apart_simp)
  show nl: "get_size m a = n" "get_magic m a = 1234567" "node_list m (get_next m a) rest"
    "\<forall>r \<in> set rest. get_magic m (fst r) = 1234567"
    using p(6,8) by auto
  then show "get_next m a = run_head rest" using node_list_hd by (simp add: run_head_def)
  show "clear_of ph rest" by (rule runs_ok_clear(1) [OF p(4,5)]) simp
  show "u64 (ph + u64 (get_pagefreehead_index m ph * sz)) = a"
    using page_run_head(1) [OF assms] by (simp add: run_head_def)
  note b = run_ok_bounds [OF p(4) r(1)] and sz = size_class_bounds [OF p(4)]
  show "apart (ph, node_bytes) (a, node_bytes)" "apart (a, node_bytes) (ph, node_bytes)"
    using b(1) sz(1) by auto
  show "32 \<le> sz" "sz \<le> n" "u64 sz = sz" "u64 n = n" "get_size m ph = sz" "get_size m ph \<noteq> 0"
    using b(1-3) sz(1,2) p(3) assms(2) by (auto simp: u64_id)
qed

lemma take_run_last:
  assumes ok: "page_ok m (ph, sz, (a, sz) # rest)" and nz: "sz \<noteq> 0"
  shows "\<exists>m'. take_run ph sz m = cret (m', a) \<and> page_ok m' (ph, sz, rest) \<and>
    get_next m' ph = get_next m ph \<and> (\<forall>x. x \<notin> page_owned (ph, sz, (a, sz) # rest) \<longrightarrow> m' x = m x)"
proof -
  note p = page_okE [OF ok nz] and c = page_ok_ConsE [OF ok nz]
  note i = run_index_bounds [OF p(4) c(2)] and b = run_ok_bounds [OF p(4) c(1)]
  let ?m = "set_pagefreehead_index (set_size m a 0) ph (run_index ph sz rest)"
  have clr: "clear_of a rest" by (rule runs_ok_clear(2) [OF p(4,5)]) (use c(12) in auto)
  have u: "u32 (run_index ph sz rest) = run_index ph sz rest"
    "rest \<noteq> [] \<Longrightarrow> u64 (run_head rest - ph) = run_head rest - ph \<and> u64 (run_head rest) = run_head rest
       \<and> run_head rest \<noteq> 0 \<and> (run_head rest - ph) div sz = run_index ph sz rest"
    using i p(1,2) by (auto simp: u32_id u64_id run_index_def run_head_def split: list.split)
  have run: "take_run ph sz m = cret (?m, a)"
  proof (cases "rest = []")
    case True
    then show ?thesis
      unfolding take_run_def using c(4,5,8-13,15,16) by (simp add: Let_def run_head_def run_index_def node_apart_fields)
  next
    case False
    then show ?thesis
      unfolding take_run_def using c(4,5,8-13,15,16) u i(3) by (simp add: Let_def node_apart_fields)
  qed
  have "get_magic ?m (fst r) = 1234567" if "r \<in> set rest" for r
    using that c(18) c(7) clr by (simp add: clear_of_fields)
  then have "page_ok ?m (ph, sz, rest)"
    using p(1,2,4) c(2,6-9,11,16) nz clr u(1) unfolding page_ok_def by (simp add: node_apart_fields)
  moreover have "x \<notin> page_owned (ph, sz, (a, sz) # rest) \<Longrightarrow> ?m x = m x" for x
    using c(12) nz by (auto simp: page_owned_def node_set_frame)
  ultimately show ?thesis using run c(8,9) by (simp add: node_apart_fields)
qed

lemma take_run_split:
  assumes ok: "page_ok m (ph, sz, (a, n) # rest)" and nz: "sz \<noteq> 0" "n \<noteq> sz"
  shows "\<exists>m'. take_run ph sz m = cret (m', a) \<and> page_ok m' (ph, sz, (a + sz, n - sz) # rest) \<and>
    get_next m' ph = get_next m ph \<and> (\<forall>x. x \<notin> page_owned (ph, sz, (a, n) # rest) \<longrightarrow> m' x = m x)"
proof -
  let ?b = "a + sz" and ?i = "run_index ph sz ((a, n) # rest)"
  let ?m = "set_pagefreehead_index (set_size (set_next (set_magic (set_size m a (n - sz)) ?b 1234567)
    ?b (get_next m a)) ?b (n - sz)) ph (?i + 1)"
  note p = page_okE [OF ok nz(1)] and c = page_ok_ConsE [OF ok nz(1)]
  note b = run_ok_bounds [OF p(4) c(1)] and rr = run_ok_rest [OF p(4) c(1) nz(2)]
  have clr: "clear_of ?b rest" "clear_of a rest"
    using runs_ok_clear(2) [OF p(4,5) refl] c(12) rr(2) by auto
  have bp: "apart (ph, node_bytes) (?b, node_bytes)" "apart (?b, node_bytes) (ph, node_bytes)"
    "apart (a, node_bytes) (?b, node_bytes)" "apart (?b, node_bytes) (a, node_bytes)"
    using b(1) c(12) by auto
  have "(?b - ph) div sz = (a - ph + 1 * sz) div sz" by (simp add: algebra_simps)
  also have "\<dots> = (a - ph) div sz + 1" using c(12) by (subst div_mult_self1) auto
  finally have idx: "run_index ph sz ((?b, n - sz) # rest) = ?i + 1"
    by (simp add: run_index_def)
  have i: "(?i + 1) * sz = ?b - ph" "?i * sz = a - ph" "0 \<le> ?i" "?i < 2048" "?i + 1 < page_bytes div sz"
    using run_index_bounds [OF p(4,5)] run_ok_bounds(6) [OF p(4) rr(1)] idx
    by (simp_all add: run_head_def run_index_def distrib_right)
  have u: "u64 ?b = ?b" "u64 (?b - ph) = ?b - ph" "u64 (a - ph) = a - ph" "u64 a = a"
    "u32 (?i + 1) = ?i + 1" "s32 (n - sz) = n - sz" "n - sz \<noteq> 0" "?b \<noteq> 0"
    "get_pagefreehead_index m ph = ?i"
    using p(1,2,7) b(1-3) c(12) i rr(2) by (simp_all add: u64_id u32_id s32_id)
  have run: "take_run ph sz m = cret (?m, a)"
    unfolding take_run_def using u i c(4,5,8-10,12-16) bp
    by (simp add: Let_def node_apart_fields del: apart_simp)
  have ru: "runs_ok ph sz ((?b, n - sz) # rest)"
    using rr c(2,3,12) by (auto simp: runs_ok_Cons simp del: apart_simp intro: apart_part(2))
  have nl: "node_list ?m ?b ((?b, n - sz) # rest)"
    using u c(6,7) clr bp by (simp add: node_apart_fields u64_id)
  have "get_magic ?m (fst r) = 1234567" if "r \<in> set ((?b, n - sz) # rest)" for r
    using that c(7,18) clr bp by (auto simp: clear_of_fields node_apart_fields s32_id)
  then have "page_ok ?m (ph, sz, (?b, n - sz) # rest)"
    using p(1,2,4) ru nl nz u idx c(8,9,16) bp unfolding page_ok_def
    by (simp add: node_apart_fields run_head_def)
  moreover have "x \<notin> page_owned (ph, sz, (a, n) # rest) \<Longrightarrow> ?m x = m x" for x
    using c(12) rr(2) nz by (auto simp: page_owned_def node_set_frame)
  ultimately show ?thesis using run c(8,9) bp by (simp add: node_apart_fields)
qed

lemma take_run_ok:
  assumes ok: "page_ok m (ph, sz, fs)" and nz: "sz \<noteq> 0" "fs \<noteq> []"
  shows "\<exists>m'. take_run ph sz m = cret (m', run_head fs) \<and> page_ok m' (ph, sz, after_take sz fs) \<and>
    get_next m' ph = get_next m ph \<and> (\<forall>x. x \<notin> page_owned (ph, sz, fs) \<longrightarrow> m' x = m x)"
proof -
  obtain a n rest where "fs = (a, n) # rest" using nz(2) by (cases fs) auto
  then show ?thesis
    using take_run_last [of m ph sz a rest] take_run_split [of m ph sz a n rest] ok nz(1)
    by (auto simp: after_take_def run_head_def)
qed

text \<open>A page whose blocks are all free from the \<open>j\<close>-th on.\<close>

lemma page_ok_tail:
  assumes sz: "size_class sz" and j: "0 < j" "j * sz < page_bytes"
    and pg: "0 < pg" "pg + page_bytes \<le> 9223372036854775808"
    and m: "get_size m pg = sz" "get_pagefreehead_index m pg = j"
      "get_next m (pg + j * sz) = 0" "get_size m (pg + j * sz) = page_bytes - j * sz"
      "get_magic m (pg + j * sz) = 1234567"
  shows "page_ok m (pg, sz, [(pg + j * sz, page_bytes - j * sz)])"
proof -
  note b = size_class_bounds [OF sz]
  have dvd: "sz dvd page_bytes - j * sz" using b(4) by (simp add: dvd_diff)
  then have "sz \<le> page_bytes - j * sz" using j(2) b by (intro zdvd_imp_le) auto
  moreover have "sz \<le> j * sz" using j(1) b by simp
  ultimately have "runs_ok pg sz [(pg + j * sz, page_bytes - j * sz)]"
    using dvd by (simp add: runs_ok_def run_ok_def)
  moreover have "run_index pg sz [(pg + j * sz, page_bytes - j * sz)] = j"
    using b by (simp add: run_index_def)
  moreover have "pg + j * sz \<noteq> 0" using pg(1) \<open>sz \<le> j * sz\<close> b by linarith
  ultimately show ?thesis
    using sz pg m b by (auto simp: page_ok_def run_head_def)
qed

lemma start_page_ok:
  assumes sz: "size_class sz" and pg: "0 < pg" "pg + page_bytes \<le> 9223372036854775808"
    and m: "get_size m pg = sz" "get_pagefreehead_index m pg = 1"
  shows "\<exists>m'. start_page pg sz m = cret (m', pg + sz) \<and>
    page_ok m' (pg, sz, [(pg + 2 * sz, page_bytes - 2 * sz)]) \<and> get_next m' pg = get_next m pg \<and>
    (\<forall>x \<in> bytes (pg + sz, sz). m' x = 0) \<and> (\<forall>x. x \<notin> bytes (pg, page_bytes) \<longrightarrow> m' x = m x)"
proof -
  let ?b = "pg + sz + sz"
  let ?m1 = "set_size (set_pagefreehead_index (set_next (set_magic m ?b 1234567) ?b 0) pg 2)
    ?b (page_bytes - 2 * sz)"
  let ?m = "fst (memset ?m1 (pg + sz) 0 sz)"
  note b = size_class_bounds [OF sz]
  have u: "u64 (pg + sz) = pg + sz" "u64 ?b = ?b" "u64 sz = sz" "u64 (2 * sz) = 2 * sz"
    "u64 (pg + 2 * sz) = ?b" "u32 2 = 2" "s32 (page_bytes - 2 * sz) = page_bytes - 2 * sz"
    using b pg by (auto simp: u64_id u32_id s32_id)
  have ap: "apart (pg, node_bytes) (?b, node_bytes)" "apart (?b, node_bytes) (pg, node_bytes)"
    using b by auto
  have run: "start_page pg sz m = cret (?m, pg + sz)"
    using u m ap by (simp add: start_page_def Let_def node_apart_fields del: apart_simp)
  have eq: "pg + 2 * sz = ?b" by simp
  have "page_ok ?m1 (pg, sz, [(pg + 2 * sz, page_bytes - 2 * sz)])"
    using sz _ _ pg
    by (rule page_ok_tail)
      (use u m ap b in \<open>simp_all add: eq node_apart_fields s32_id u32_id del: apart_simp\<close>)
  then have "page_ok ?m (pg, sz, [(pg + 2 * sz, page_bytes - 2 * sz)])"
    by (rule page_ok_memset) (use b in auto)
  moreover have "get_next ?m pg = get_next ?m1 pg"
    by (rule node_local) (use b in \<open>auto simp: memset_eq\<close>)
  moreover have "get_next ?m1 pg = get_next m pg"
    using ap by (simp add: node_apart_fields del: apart_simp)
  moreover have "\<forall>x. x \<notin> bytes (pg, page_bytes) \<longrightarrow> ?m x = m x"
    using b by (auto simp: memset_eq node_set_frame)
  ultimately show ?thesis using run by (auto simp: memset_eq)
qed

subsection \<open>Putting a block back\<close>

text \<open>
  The block \<open>(ptr, sz)\<close> joins the runs it touches.  When it touches a run on both sides and the
  upper one is the head of the list, the code makes the lower one the new head, and every run that stood
  before it in the list is dropped.  A page whose only run is all of its blocks becomes empty.
\<close>

definition lossy :: "int \<Rightarrow> int \<Rightarrow> region list \<Rightarrow> bool" where
  "lossy ptr sz fs \<longleftrightarrow> touching_below fs ptr \<noteq> None \<and> fs \<noteq> [] \<and> fst (hd fs) = ptr + sz"

definition release :: "int \<Rightarrow> int \<Rightarrow> region list \<Rightarrow> region list" where
  "release ptr sz fs =
     (case touching_below fs ptr of
        Some (b, n) \<Rightarrow> if lossy ptr sz fs then dropWhile (\<lambda>r. fst r \<noteq> b) (join ptr sz sz fs)
                        else join ptr sz sz fs
      | None \<Rightarrow> join ptr sz sz fs)"

definition settle :: "int \<Rightarrow> int \<Rightarrow> region list \<Rightarrow> page" where
  "settle ph sz fs = (if fs = [(ph + sz, page_bytes - sz)] then (ph, 0, []) else (ph, sz, fs))"

lemma runs_ok_free_ok:
  assumes "size_class sz" "0 < ph" "ph + page_bytes \<le> 9223372036854775808" "runs_ok ph sz fs"
  shows "free_ok ph (ph + page_bytes) fs"
proof -
  note b = size_class_bounds [OF assms(1)]
  have "ph \<le> fst r \<and> fst r + snd r \<le> ph + page_bytes \<and> 16 \<le> snd r \<and> snd r < 2147483648 \<and> 16 dvd snd r"
    if "r \<in> set fs" for r
  proof -
    have r: "run_ok ph sz (fst r, snd r)" using assms(4) that by (simp add: runs_ok_def)
    then have "16 dvd snd r" using b(3) dvd_trans by (auto simp: run_ok_def)
    with run_ok_bounds [OF assms(1) r] b show ?thesis by auto
  qed
  then show ?thesis using assms by (simp add: free_ok_def runs_ok_def)
qed

text \<open>A page with one run: only all of its blocks have the length of all of its blocks.\<close>

lemma settle_iff:
  assumes "size_class sz" "runs_ok ph sz fs" "(b, v) \<in> set fs"
  shows "v = page_bytes - sz \<longleftrightarrow> fs = [(ph + sz, page_bytes - sz)]"
proof
  assume v: "v = page_bytes - sz"
  note sz = size_class_bounds [OF assms(1)]
  have "run_ok ph sz (b, v)" using assms by (auto simp: runs_ok_def)
  from run_ok_bounds(1-3) [OF assms(1) this] v have b: "b = ph + sz" by linarith
  obtain us zs where fs: "fs = us @ (b, v) # zs" using assms(3) by (meson split_list)
  have "False" if "r \<in> set us \<union> set zs" for r
  proof -
    have "run_ok ph sz (fst r, snd r)" and "apart r (b, v) \<or> apart (b, v) r"
      using assms(2) that unfolding fs runs_ok_def by (auto simp del: apart_simp)
    with run_ok_bounds(1-3) [OF assms(1) this(1)] sz b v show False by (auto simp: apart_def)
  qed
  then have "us = []" "zs = []" by (metis Un_iff list.set_intros(1) neq_Nil_conv)+
  with fs b v show "fs = [(ph + sz, page_bytes - sz)]" by simp
qed (use assms in auto)

lemma settle_ok:
  assumes ok: "page_ok m (ph, sz, fs)" and nz: "sz \<noteq> 0" and b: "(b, v) \<in> set fs"
  shows "page_ok (if get_size m b = page_bytes - get_size m ph then set_size m ph 0 else m) (settle ph sz fs)"
proof -
  note p = page_okE [OF ok nz]
  have v: "get_size m b = v" using node_list_sizes [OF p(6) b] .
  show ?thesis
  proof (cases "v = page_bytes - sz")
    case True
    then have fs: "fs = [(ph + sz, page_bytes - sz)]" using settle_iff [OF p(4,5) b] by simp
    have "get_pagefreehead_index m ph = 1" using p(7) nz by (simp add: fs run_index_def)
    then show ?thesis using p(1-3) v True fs by (simp add: settle_def page_ok_def)
  next
    case False
    then have "fs \<noteq> [(ph + sz, page_bytes - sz)]" using settle_iff [OF p(4,5) b] by simp
    then show ?thesis using ok p(3) v False by (simp add: settle_def)
  qed
qed

lemma run_ok_add:
  assumes "run_ok ph sz (a, n)" "run_ok ph sz (a + n, k)" "0 \<le> sz"
  shows "run_ok ph sz (a, n + k)"
  using assms by (auto simp: run_ok_def)

lemma run_ok_join:
  assumes fs: "\<forall>r \<in> set fs. run_ok ph sz r" and ptr: "run_ok ph sz (ptr, sz)" and sz: "0 \<le> sz"
  shows "\<forall>r \<in> set (join ptr sz sz fs). run_ok ph sz r"
proof -
  have below: "run_ok ph sz (b, n + sz)" if "touching_below fs ptr = Some (b, n)" for b n
    using touching_below_SomeD [OF that] fs ptr run_ok_add [of ph sz b n sz] sz by auto
  have above: "run_ok ph sz (ptr, sz + k)" "run_ok ph sz (ptr + sz, k)"
    if "touching_above fs (ptr + sz) = Some (a, k)" for a k
    using touching_above_SomeD [OF that] fs ptr run_ok_add [of ph sz ptr sz k] sz by auto
  have both: "run_ok ph sz (b, n + sz + k)"
    if "touching_below fs ptr = Some (b, n)" "touching_above fs (ptr + sz) = Some (a, k)" for a b n k
    using below [OF that(1)] above(2) [OF that(2)] touching_below_SomeD [OF that(1)]
      run_ok_add [of ph sz b "n + sz" k] sz by (auto simp: add.assoc)
  show ?thesis
    using fs ptr below above both
    by (auto simp: join_def resize_def without_def split: option.split)
qed

lemma runs_ok_join:
  assumes sz: "size_class sz" and ph: "0 < ph" "ph + page_bytes \<le> 9223372036854775808"
    and fs: "runs_ok ph sz fs" and ptr: "run_ok ph sz (ptr, sz)" "\<forall>r \<in> set fs. apart r (ptr, sz)"
  shows "runs_ok ph sz (join ptr sz sz fs) \<and> all_bytes (join ptr sz sz fs) = all_bytes fs \<union> bytes (ptr, sz)"
proof -
  note b = size_class_bounds [OF sz] and r = run_ok_bounds [OF sz ptr(1)]
  note ok = runs_ok_free_ok [OF sz ph fs]
  have "free_ok ph (ph + page_bytes) (join ptr sz sz fs) \<and>
      all_bytes (join ptr sz sz fs) = all_bytes fs \<union> bytes (ptr, sz)"
  proof (cases "touching_below fs ptr")
    case None
    then have "lost ptr sz sz fs = {}" by (auto simp: lost_def split: option.split)
    then show ?thesis
      using join_free_ok_new [OF ok _ _ _ _ _ b(3) r(2) ptr(2) None] b r by simp
  next
    case (Some t)
    then show ?thesis using join_free_ok_below [OF ok _ _ b(3) r(2) ptr(2)] b by (cases t) simp
  qed
  moreover have "\<forall>r \<in> set (join ptr sz sz fs). run_ok ph sz r"
    using fs b by (intro run_ok_join [OF _ ptr(1)]) (auto simp: runs_ok_def)
  ultimately show ?thesis by (simp add: runs_ok_def free_ok_def)
qed

lemma runs_ok_dropWhile: "runs_ok ph sz fs \<Longrightarrow> runs_ok ph sz (dropWhile P fs)"
proof (induction fs)
  case (Cons r fs)
  then show ?case by (cases r) (auto simp: runs_ok_Cons simp del: apart_simp)
qed simp

lemma magic_same:
  assumes "c = b \<or> apart (c, node_bytes) (b, node_bytes)"
  shows "get_magic (set_size m b v) c = get_magic m c" "get_magic (set_next m b v) c = get_magic m c"
  using assms by (auto simp: node_apart_fields simp del: apart_simp)

lemma spaced_same:
  assumes "spaced fs" "r \<in> set fs" "t \<in> set fs"
  shows "fst r = fst t \<or> apart (fst r, node_bytes) (fst t, node_bytes)"
  using assms by (induction fs) (auto simp: apart_def)

text \<open>The end of both merging branches: a page with one run over all of its blocks becomes empty.\<close>

definition finish :: "int \<Rightarrow> int \<Rightarrow> mem \<Rightarrow> mem" where
  "finish b ph m = (if get_size m b = page_bytes - get_size m ph then set_size m ph 0 else m)"

lemma finish_ok:
  assumes "page_ok m1 (ph, sz, fs)" "sz \<noteq> 0" "(b, v) \<in> set fs"
    and "get_next m1 ph = get_next m ph" "\<forall>x. x \<notin> bytes (ph, sz) \<union> A \<longrightarrow> m1 x = m x"
  shows "page_ok (finish b ph m1) (settle ph sz fs) \<and> get_next (finish b ph m1) ph = get_next m ph \<and>
    (\<forall>x. x \<notin> bytes (ph, sz) \<union> A \<longrightarrow> finish b ph m1 x = m x)"
  using settle_ok [OF assms(1-3)] assms(4,5) size_class_bounds(1) [OF page_okE(4) [OF assms(1,2)]]
  by (auto simp: finish_def node_set_frame)

lemma node_list_dropWhile:
  "node_list m p xs \<Longrightarrow> b \<in> fst ` set xs \<Longrightarrow> node_list m b (dropWhile (\<lambda>r. fst r \<noteq> b) xs)"
  by (induction xs arbitrary: p) (auto, force)

lemma run_index_mem:
  assumes "fs \<noteq> []" "run_head fs = c"
  shows "run_index ph sz fs = (c - ph) div sz"
  using assms by (auto simp: run_index_def run_head_def split: list.splits)

text \<open>Memory that agrees with a page in all but the heads and links of its runs.\<close>

lemma page_ok_rewire:
  assumes ok: "page_ok m (ph, sz, fs)" and nz: "sz \<noteq> 0"
    and "get_size m' ph = sz" "runs_ok ph sz fs'" "node_list m' (run_head fs') fs'"
    and "get_pagefreehead_index m' ph = run_index ph sz fs'"
    and "\<forall>r \<in> set fs'. get_magic m' (fst r) = 1234567"
  shows "page_ok m' (ph, sz, fs')"
  using page_okE [OF ok nz] assms by (simp add: page_ok_def)

text \<open>The memory writes of the four ways a block joins the runs of a page.\<close>

lemma page_merge_below:
  assumes ok: "page_ok m (ph, sz, fs)" and nz: "sz \<noteq> 0"
    and b: "(b, n) \<in> set fs" "b + n = ptr" and a: "u64 (ptr + sz) \<noteq> a"
    and r: "runs_ok ph sz (resize b (n + sz) fs)"
  shows "\<exists>m'. page_merge ptr ph b a m = cret m' \<and> page_ok m' (settle ph sz (resize b (n + sz) fs)) \<and>
    get_next m' ph = get_next m ph \<and> (\<forall>x. x \<notin> bytes (ph, sz) \<union> (all_bytes fs \<union> bytes (ptr, sz)) \<longrightarrow> m' x = m x)"
proof -
  note p = page_okE [OF ok nz] and sb = node_list_sizes [OF page_okE(6) [OF ok nz] b(1)]
  note fo = runs_ok_free_ok [OF p(4,1,2,5)] and sp = runs_ok_spaced [OF p(4,5)]
  note fb = free_ok_memD [OF fo b(1)] and szb = size_class_bounds [OF p(4)]
  let ?m = "set_size m b (n + sz)" and ?fs = "resize b (n + sz) fs"
  have bp: "apart (ph, node_bytes) (b, node_bytes)" using sp(2) b(1) by (force simp: clear_of_def)
  have run: "page_merge ptr ph b a m = cret (finish b ph ?m)"
    using fb a b(2) p(1-3) bp
    by (simp add: page_merge_def finish_def sb u64_id node_apart_fields del: apart_simp)
  have mem: "(b, n + sz) \<in> set ?fs" using b(1) by (force simp: resize_def)
  have head: "run_head ?fs = run_head fs" "run_index ph sz ?fs = run_index ph sz fs"
    by (auto simp: run_head_def run_index_def resize_def split: list.split)
  have nl: "node_list ?m (run_head fs) ?fs"
    using fb(4,5) szb run_ok_bounds(2) [OF p(4), of ph b "n + sz"] r mem fb(1)
    by (intro node_list_resize_mem [OF p(6) sp(1) b(1)]) (auto simp: runs_ok_def)
  have "\<forall>t \<in> set ?fs. get_magic ?m (fst t) = 1234567"
    using p(8) spaced_same [OF sp(1) _ b(1)] by (fastforce simp: resize_def magic_same simp del: apart_simp)
  then have "page_ok ?m (ph, sz, ?fs)"
    using p(3,7) bp r nl head
    by (intro page_ok_rewire [OF ok nz]) (simp_all add: node_apart_fields del: apart_simp)
  moreover have "get_next ?m ph = get_next m ph"
    using bp by (simp add: node_apart_fields del: apart_simp)
  ultimately show ?thesis
    using finish_ok [OF _ nz mem, of ?m ph m "all_bytes fs \<union> bytes (ptr, sz)"] run free_ok_frame [OF fo b(1)]
    by (simp add: node_set_frame)
qed

lemma page_merge_both:
  assumes ok: "page_ok m (ph, sz, fs)" and nz: "sz \<noteq> 0"
    and b: "(b, n) \<in> set fs" "b + n = ptr" and a: "(a, k) \<in> set fs" "a = ptr + sz"
    and r: "runs_ok ph sz (without a (resize b (n + sz + k) fs))"
  shows "\<exists>m'. page_merge ptr ph b a m = cret m' \<and>
    page_ok m' (settle ph sz (if run_head fs = a
      then dropWhile (\<lambda>r. fst r \<noteq> b) (without a (resize b (n + sz + k) fs))
      else without a (resize b (n + sz + k) fs))) \<and> get_next m' ph = get_next m ph \<and>
    (\<forall>x. x \<notin> bytes (ph, sz) \<union> (all_bytes fs \<union> bytes (ptr, sz)) \<longrightarrow> m' x = m x)"
proof -
  note p = page_okE [OF ok nz] and fo = runs_ok_free_ok [OF page_okE(4,1,2,5) [OF ok nz]]
  note sp = runs_ok_spaced [OF p(4,5)] and szb = size_class_bounds [OF p(4)]
  note fb = free_ok_memD [OF fo b(1)] and fa = free_ok_memD [OF fo a(1)]
  have sizes: "get_size m b = n" "get_size m a = k" using p(6) a b by (auto simp: node_list_sizes)
  let ?v = "n + sz + k"
  let ?m = "set_size m b ?v" and ?fs = "resize b ?v fs"
  have bp: "apart (ph, node_bytes) (b, node_bytes)" "apart (a, node_bytes) (b, node_bytes)" "a \<noteq> b"
    using sp(2) b szb(1) a(2) fb(4) by (force simp: clear_of_def, auto)
  have ne: "fs \<noteq> []" using b(1) by auto
  have v: "0 \<le> ?v" "?v < 2147483648" using fb fa a(2) b(2) szb by auto
  have hm: "page_run_head ?m ph = run_head fs"
    using page_run_head(2) [OF ok nz ne] bp by (simp add: page_run_head_def node_apart_fields del: apart_simp)
  have u: "u64 (ptr + sz) = a" "u64 ptr = ptr" "s32 (n + sz) = n + sz" "u64 (b - ph) = b - ph" "u64 sz = sz"
    "b \<noteq> 0" using fa fb a(2) b(2) szb p(1,2) by (auto simp: u64_id s32_id)
  have run: "page_merge ptr ph b a m =
      cbind (Option.bind (scan (\<lambda>c. get_next ?m c = a) (get_next ?m) (run_head fs))
        (\<lambda>c. if c \<noteq> 0 then cret (set_next ?m c (get_next ?m a))
             else cret (set_pagefreehead_index ?m ph ((b - ph) div sz))))
        (\<lambda>m. cret (finish b ph m))"
    using b(2) u sizes p(3) bp hm nz
    by (simp add: page_merge_def Let_def cdiv_def finish_def if_distrib [of cret] node_apart_fields
        cong: if_cong del: apart_simp)
  have nl: "node_list ?m (run_head fs) ?fs"
    using v by (intro node_list_resize_mem [OF p(6) sp(1) b(1)]) auto
  have mg: "get_magic ?m (fst t) = 1234567" if "t \<in> set ?fs" for t
    using that p(8) spaced_same [OF sp(1) _ b(1)] by (fastforce simp: resize_def magic_same simp del: apart_simp)
  have fr: "?m x = m x" if "x \<notin> all_bytes fs" for x
    using that free_ok_frame [OF fo b(1)] by (simp add: node_set_frame)
  have mem: "a \<in> fst ` set ?fs" "(b, ?v) \<in> set (without a ?fs)"
    using a(1) b(1) bp(3) by (force simp: resize_def, force simp: resize_def without_def)
  have sp1: "spaced ?fs" using sp(1) by simp
  show ?thesis
  proof (cases rule: remove_node [OF nl sp1 mem(1), case_names head inner])
    case head
    let ?gs = "dropWhile (\<lambda>r. fst r \<noteq> b) (without a ?fs)"
    let ?m2 = "set_pagefreehead_index ?m ph ((b - ph) div sz)"
    have rg: "runs_ok ph sz ?gs" by (rule runs_ok_dropWhile [OF r])
    note clr = runs_ok_spaced(2) [OF p(4) rg]
    have ng: "node_list ?m b ?gs"
      using head(3) mem(2) unfolding without_def by (intro node_list_dropWhile) (auto, force)
    then obtain v' zs where gs: "?gs = (b, v') # zs" using u(6) by (cases ?gs) auto
    have mg': "get_magic ?m2 (fst t) = 1234567" if "t \<in> set ?gs" for t
      using set_dropWhileD [OF that] mg [of t] clear_of_fields(4) [OF clr that] by (simp add: without_def)
    have "run_ok ph sz (b, n)" using p(5) b(1) by (auto simp: runs_ok_def)
    then have "u32 ((b - ph) div sz) = run_index ph sz ?gs"
      using run_ok_bounds(5,7) [OF p(4), of ph b n] unfolding gs by (simp add: run_index_def u32_id)
    then have "page_ok ?m2 (ph, sz, ?gs)"
      using rg ng clr mg' p(3) bp gs
      by (intro page_ok_rewire [OF ok nz]) (simp_all add: node_apart_fields run_head_def del: apart_simp)
    moreover have "\<forall>x. x \<notin> bytes (ph, sz) \<union> (all_bytes fs \<union> bytes (ptr, sz)) \<longrightarrow> ?m2 x = m x"
      using fr szb(1) by (auto simp: node_set_frame)
    moreover have "page_merge ptr ph b a m = cret (finish b ph ?m2)" using run head(2) by simp
    moreover have "get_next ?m2 ph = get_next m ph"
      using bp by (simp add: node_apart_fields del: apart_simp)
    ultimately show ?thesis
      using finish_ok [OF _ nz, of ?m2 ph ?gs b v' m "all_bytes fs \<union> bytes (ptr, sz)"] gs head(1) by simp
  next
    case (inner c l)
    let ?gs = "without a ?fs" and ?m2 = "set_next ?m c (get_next ?m a)"
    obtain l' where c: "(c, l') \<in> set fs" using inner(3) by (auto simp: resize_def)
    have cp: "apart (ph, node_bytes) (c, node_bytes)" using sp(2) c by (force simp: clear_of_def)
    have "run_head ?gs = run_head fs" "?gs \<noteq> []"
      using inner(1) mem(2) ne by (auto simp: run_head_def without_def resize_def split: list.splits)
    then have hd: "run_head ?gs = run_head fs" "run_index ph sz ?gs = run_index ph sz fs"
      using run_index_mem ne by auto
    have "get_magic ?m2 (fst t) = 1234567" if "t \<in> set ?gs" for t
      using that mg [of t] magic_same(2) [of "fst t" c] spaced_same [OF sp1 _ inner(3), of t]
      by (auto simp: without_def simp del: apart_simp)
    then have "page_ok ?m2 (ph, sz, ?gs)"
      using r inner(6) p(3,7) bp cp hd
      by (intro page_ok_rewire [OF ok nz]) (simp_all add: node_apart_fields without_def del: apart_simp)
    moreover have "\<forall>x. x \<notin> bytes (ph, sz) \<union> (all_bytes fs \<union> bytes (ptr, sz)) \<longrightarrow> ?m2 x = m x"
      using fr free_ok_frame [OF fo c] by (simp add: node_set_frame)
    moreover have "page_merge ptr ph b a m = cret (finish b ph ?m2)" using run inner(2,5) by simp
    moreover have "get_next ?m2 ph = get_next m ph"
      using bp cp by (simp add: node_apart_fields del: apart_simp)
    ultimately show ?thesis
      using finish_ok [OF _ nz mem(2), of ?m2 ph m "all_bytes fs \<union> bytes (ptr, sz)"] inner(1) by simp
  qed
qed

text \<open>The block becomes the head of the list, with \<open>v\<close> in its size field.\<close>

definition push_run :: "int \<Rightarrow> int \<Rightarrow> int \<Rightarrow> int \<Rightarrow> int \<Rightarrow> mem \<Rightarrow> mem" where
  "push_run ptr ph sz v h m = set_pagefreehead_index
     (set_next (set_size (set_magic m ptr 1234567) ptr v) ptr h) ph ((ptr - ph) div sz)"

lemma push_run_ok:
  assumes ok: "page_ok m (ph, sz, fs)" and nz: "sz \<noteq> 0"
    and ptr: "run_ok ph sz (ptr, sz)" "\<forall>r \<in> set fs. apart r (ptr, sz)" and v: "0 < v" "v < 2147483648"
  defines "m1 \<equiv> push_run ptr ph sz v (run_head fs) m"
  shows "get_size m1 ph = sz" "get_pagefreehead_index m1 ph = (ptr - ph) div sz"
    "get_next m1 ph = get_next m ph" "node_list m1 ptr ((ptr, v) # fs)" "spaced ((ptr, v) # fs)"
    "\<forall>t \<in> set ((ptr, v) # fs). get_magic m1 (fst t) = 1234567" "page_run_head m1 ph = ptr"
    "\<forall>x. x \<notin> bytes (ph, sz) \<union> (all_bytes fs \<union> bytes (ptr, sz)) \<longrightarrow> m1 x = m x"
    "apart (ph, node_bytes) (ptr, node_bytes)" "clear_of ptr fs"
proof -
  note p = page_okE [OF ok nz] and b = run_ok_bounds [OF page_okE(4) [OF ok nz] ptr(1)]
  note szb = size_class_bounds [OF p(4)] and sp = runs_ok_spaced [OF p(4,5)]
  show bp: "apart (ph, node_bytes) (ptr, node_bytes)" using b(1) szb(1) by simp
  then have pb: "apart (ptr, node_bytes) (ph, node_bytes)" by auto
  have "clear_of ptr fs" unfolding clear_of_def
  proof
    fix r assume "r \<in> set fs"
    then have "apart r (ptr, sz)" "sz \<le> snd r"
      using ptr(2) p(5) run_ok_bounds(3) [OF p(4), of ph "fst r" "snd r"] by (auto simp: runs_ok_def)
    then show "apart (fst r, node_bytes) (ptr, node_bytes)" using szb(1) by (auto simp: apart_def)
  qed
  then show clr: "clear_of ptr fs" .
  show "spaced ((ptr, v) # fs)" using clr sp(1) by (auto simp: clear_of_def apart_def)
  have h: "u64 (run_head fs) = run_head fs"
    using run_index_bounds(4) [OF p(4,5)] p(1,2)
    by (cases fs) (auto simp: u64_id run_head_def)
  have i: "u32 ((ptr - ph) div sz) = (ptr - ph) div sz" using b(5,7) by (simp add: u32_id)
  have ptr0: "ptr \<noteq> 0" "u64 ptr = ptr" "u32 (ptr - ph) = ptr - ph"
    using p(1,2) b(1,2) szb(1) by (auto simp: u64_id u32_id)
  show f: "get_size m1 ph = sz" "get_pagefreehead_index m1 ph = (ptr - ph) div sz"
    "get_next m1 ph = get_next m ph"
    using p(3) bp i by (simp_all add: m1_def push_run_def node_apart_fields del: apart_simp)
  then show "page_run_head m1 ph = ptr" using b(4) ptr0 by (simp add: page_run_head_def)
  show "node_list m1 ptr ((ptr, v) # fs)"
    using clr sp(2) p(6) h v ptr0 pb
    by (simp add: m1_def push_run_def node_apart_fields s32_id del: apart_simp)
  show "\<forall>t \<in> set ((ptr, v) # fs). get_magic m1 (fst t) = 1234567"
    using clr sp(2) p(8) pb
    by (auto simp: m1_def push_run_def node_apart_fields clear_of_fields s32_id simp del: apart_simp)
  show "\<forall>x. x \<notin> bytes (ph, sz) \<union> (all_bytes fs \<union> bytes (ptr, sz)) \<longrightarrow> m1 x = m x"
    using szb(1) by (auto simp: m1_def push_run_def node_set_frame)
qed

lemma page_merge_none:
  assumes ok: "page_ok m (ph, sz, fs)" and nz: "sz \<noteq> 0" "fs \<noteq> []"
    and ptr: "run_ok ph sz (ptr, sz)" "\<forall>r \<in> set fs. apart r (ptr, sz)"
    and nb: "\<not> (b \<noteq> 0 \<and> u64 (b + get_size m b) = ptr)" and a: "u64 (ptr + sz) \<noteq> a"
  shows "\<exists>m'. page_merge ptr ph b a m = cret m' \<and> page_ok m' (settle ph sz ((ptr, sz) # fs)) \<and>
    get_next m' ph = get_next m ph \<and>
    (\<forall>x. x \<notin> bytes (ph, sz) \<union> (all_bytes fs \<union> bytes (ptr, sz)) \<longrightarrow> m' x = m x)"
proof -
  note p = page_okE [OF ok nz(1)] and bd = run_ok_bounds [OF page_okE(4) [OF ok nz(1)] ptr(1)]
  note szb = size_class_bounds [OF p(4)]
  have v: "0 < sz" "sz < 2147483648" using szb by auto
  note q = push_run_ok [OF ok nz(1) ptr v]
  let ?m = "push_run ptr ph sz sz (run_head fs) m"
  have u: "u64 (ptr - ph) = ptr - ph" "u64 sz = sz" "u32 ((ptr - ph) div sz) = (ptr - ph) div sz"
    "0 < (ptr - ph) div sz"
    using p(1,2) bd szb by (auto simp: u64_id u32_id)
  have h: "page_run_head (set_size (set_magic m ptr 1234567) ptr sz) ph = run_head fs"
    using page_run_head(2) [OF ok nz] q(9)
    by (simp add: page_run_head_def node_apart_fields del: apart_simp)
  have run: "page_merge ptr ph b a m = cret ?m"
    unfolding page_merge_def if_not_P [OF nb] using a p(3) q(9) u nz h
    by (simp add: push_run_def Let_def cdiv_def node_apart_fields del: apart_simp)
  have "runs_ok ph sz ((ptr, sz) # fs)"
    using p(5) ptr by (auto simp: runs_ok_Cons apart_sym simp del: apart_simp)
  then have "page_ok ?m (ph, sz, (ptr, sz) # fs)"
    using q by (intro page_ok_rewire [OF ok nz(1)]) (simp_all add: run_head_def run_index_def)
  moreover have "settle ph sz ((ptr, sz) # fs) = (ph, sz, (ptr, sz) # fs)"
    using nz by (simp add: settle_def)
  ultimately show ?thesis using run q by simp
qed

lemma page_merge_above:
  assumes ok: "page_ok m (ph, sz, fs)" and nz: "sz \<noteq> 0"
    and ptr: "run_ok ph sz (ptr, sz)" "\<forall>r \<in> set fs. apart r (ptr, sz)"
    and nb: "\<not> (b \<noteq> 0 \<and> u64 (b + get_size m b) = ptr)"
    and a: "(a, k) \<in> set fs" "a = ptr + sz" and r: "runs_ok ph sz ((ptr, sz + k) # without a fs)"
  shows "\<exists>m'. page_merge ptr ph b a m = cret m' \<and>
    page_ok m' (settle ph sz ((ptr, sz + k) # without a fs)) \<and> get_next m' ph = get_next m ph \<and>
    (\<forall>x. x \<notin> bytes (ph, sz) \<union> (all_bytes fs \<union> bytes (ptr, sz)) \<longrightarrow> m' x = m x)"
proof -
  note p = page_okE [OF ok nz(1)] and bd = run_ok_bounds [OF page_okE(4) [OF ok nz(1)] ptr(1)]
  note szb = size_class_bounds [OF p(4)] and fo = runs_ok_free_ok [OF p(4,1,2,5)]
  note fa = free_ok_memD [OF fo a(1)]
  have ne: "fs \<noteq> []" using a(1) by auto
  have v: "0 < sz + k" "sz + k < 2147483648" using szb fa a(2) bd p(1) by auto
  note q = push_run_ok [OF ok nz(1) ptr v]
  let ?m = "push_run ptr ph sz (sz + k) (run_head fs) m"
  have ka: "get_size m a = k" using node_list_sizes [OF p(6) a(1)] .
  have ap: "apart (a, node_bytes) (ptr, node_bytes)" "ptr \<noteq> a" using a(2) szb(1) by auto
  have u: "u64 (ptr - ph) = ptr - ph" "u64 sz = sz" "u32 ((ptr - ph) div sz) = (ptr - ph) div sz"
    "0 < (ptr - ph) div sz" "u64 (ptr + sz) = a"
    using p(1,2) bd szb a(2) by (auto simp: u64_id u32_id)
  have h: "page_run_head (set_size (set_magic m ptr 1234567) ptr (sz + k)) ph = run_head fs"
    using page_run_head(2) [OF ok nz ne] q(9)
    by (simp add: page_run_head_def node_apart_fields del: apart_simp)
  have run: "page_merge ptr ph b a m = Option.bind (scan (\<lambda>c. get_next ?m c = a) (get_next ?m) ptr)
      (\<lambda>c. if c \<noteq> 0 then cret (finish ptr ph (set_next ?m c (get_next ?m a))) else cfail Null_Deref)"
    unfolding page_merge_def if_not_P [OF nb] using p(3) q(7,9) u nz h ka ap
    by (simp add: push_run_def Let_def cdiv_def finish_def if_distrib [of cret] node_apart_fields
        cong: if_cong del: apart_simp)
  have mem: "a \<in> fst ` set ((ptr, sz + k) # fs)" using a(1) by force
  show ?thesis
  proof (cases rule: remove_node [OF q(4,5) mem, case_names head inner])
    case head
    with ap show ?thesis by simp
  next
    case (inner c l)
    let ?gs = "(ptr, sz + k) # without a fs" and ?m2 = "set_next ?m c (get_next ?m a)"
    have cp: "apart (ph, node_bytes) (c, node_bytes)"
      using inner(3) q(9) runs_ok_spaced(2) [OF p(4,5)] by (auto simp: clear_of_def)
    have "get_magic ?m2 (fst t) = 1234567" if "t \<in> set ?gs" for t
    proof -
      have t: "t \<in> set ((ptr, sz + k) # fs)" using that by (auto simp: without_def)
      then show ?thesis using q(6) magic_same(2) [OF spaced_same [OF q(5) t inner(3)], of ?m] by auto
    qed
    then have "page_ok ?m2 (ph, sz, ?gs)"
      using r inner(6) q(1,2) cp ap(2)
      by (intro page_ok_rewire [OF ok nz(1)])
        (simp_all add: node_apart_fields without_def run_head_def run_index_def del: apart_simp)
    moreover have "\<forall>x. x \<notin> bytes (ph, sz) \<union> (all_bytes fs \<union> bytes (ptr, sz)) \<longrightarrow> ?m2 x = m x"
    proof (intro allI impI)
      fix x assume x: "x \<notin> bytes (ph, sz) \<union> (all_bytes fs \<union> bytes (ptr, sz))"
      then have "x \<notin> bytes (c, node_bytes)" using inner(3) free_ok_frame [OF fo, of c l x] szb(1) by auto
      then show "?m2 x = m x" using q(8) x by (simp add: node_set_frame)
    qed
    moreover have "get_next ?m2 ph = get_next m ph"
      using q(3) cp by (simp add: node_apart_fields del: apart_simp)
    ultimately show ?thesis
      using finish_ok [of ?m2 ph sz ?gs ptr "sz + k" m "all_bytes fs \<union> bytes (ptr, sz)"] nz run inner(2,5)
      by simp
  qed
qed

text \<open>Freeing a block of a page that is not full.\<close>

lemma page_merge_ok:
  assumes ok: "page_ok m (ph, sz, fs)" and nz: "sz \<noteq> 0" "fs \<noteq> []"
    and ptr: "run_ok ph sz (ptr, sz)" "\<forall>r \<in> set fs. apart r (ptr, sz)"
  obtains b a m' where "walk (neighbour_step ptr) (get_next m) (page_run_head m ph) (0, 0) = Some (b, a)"
    "page_merge ptr ph b a m = cret m'" "page_ok m' (settle ph sz (release ptr sz fs))"
    "get_next m' ph = get_next m ph"
    "\<forall>x. x \<notin> bytes (ph, sz) \<union> (all_bytes fs \<union> bytes (ptr, sz)) \<longrightarrow> m' x = m x"
proof -
  note p = page_okE [OF ok nz(1)] and bd = run_ok_bounds [OF page_okE(4) [OF ok nz(1)] ptr(1)]
  note fo = runs_ok_free_ok [OF p(4,1,2,5)] and szb = size_class_bounds [OF p(4)]
  have blk: "ph \<le> ptr" "0 < sz" "ptr + sz \<le> ph + page_bytes" using bd szb by auto
  obtain b a where w: "walk (neighbour_step ptr) (get_next m) (run_head fs) (0, 0) = Some (b, a)"
    and below: "(b \<noteq> 0 \<and> u64 (b + get_size m b) = ptr) = (touching_below fs ptr \<noteq> None)"
      "\<forall>c n. touching_below fs ptr = Some (c, n) \<longrightarrow> c = b \<and> (b, n) \<in> set fs \<and> b + n = ptr"
    and above: "(u64 (ptr + sz) = a) = (touching_above fs (ptr + sz) \<noteq> None)"
      "\<forall>c k. touching_above fs (ptr + sz) = Some (c, k) \<longrightarrow> c = a \<and> (a, k) \<in> set fs \<and> a = ptr + sz"
    using neighbour_code [OF p(6) fo blk ptr(2)] by blast
  have rj: "runs_ok ph sz (join ptr sz sz fs)" using runs_ok_join [OF p(4,1,2,5) ptr] by simp
  have hd: "run_head fs = fst (hd fs)" using nz(2) by (cases fs) (auto simp: run_head_def)
  let ?goal = "\<exists>m'. page_merge ptr ph b a m = cret m' \<and> page_ok m' (settle ph sz (release ptr sz fs)) \<and>
    get_next m' ph = get_next m ph \<and>
    (\<forall>x. x \<notin> bytes (ph, sz) \<union> (all_bytes fs \<union> bytes (ptr, sz)) \<longrightarrow> m' x = m x)"
  have ?goal
  proof (cases "touching_below fs ptr"; cases "touching_above fs (ptr + sz)")
    assume n: "touching_below fs ptr = None" "touching_above fs (ptr + sz) = None"
    then have "\<not> (b \<noteq> 0 \<and> u64 (b + get_size m b) = ptr)" "u64 (ptr + sz) \<noteq> a" using below above by auto
    from page_merge_none [OF ok nz ptr this] show ?goal using n by (simp add: release_def join_def)
  next
    fix t assume n: "touching_below fs ptr = None" "touching_above fs (ptr + sz) = Some t"
    obtain k where t: "t = (a, k)" and a: "(a, k) \<in> set fs" "a = ptr + sz" using above n by (cases t) auto
    have "\<not> (b \<noteq> 0 \<and> u64 (b + get_size m b) = ptr)" using below n by auto
    from page_merge_above [OF ok nz(1) ptr this a] rj show ?goal using n t by (simp add: release_def join_def)
  next
    fix r assume n: "touching_below fs ptr = Some r" "touching_above fs (ptr + sz) = None"
    obtain l where r: "r = (b, l)" and b: "(b, l) \<in> set fs" "b + l = ptr" using below n by (cases r) auto
    have "u64 (ptr + sz) \<noteq> a" using above n by auto
    moreover have "\<not> lossy ptr sz fs" using n(2) nz(2) by (auto simp: lossy_def touching_above_None)
    ultimately show ?goal
      using page_merge_below [OF ok nz(1) b, of a] rj n r by (simp add: release_def join_def)
  next
    fix r t assume n: "touching_below fs ptr = Some r" "touching_above fs (ptr + sz) = Some t"
    obtain l where r: "r = (b, l)" and b: "(b, l) \<in> set fs" "b + l = ptr" using below n by (cases r) auto
    obtain k where t: "t = (a, k)" and a: "(a, k) \<in> set fs" "a = ptr + sz" using above n by (cases t) auto
    have "lossy ptr sz fs = (run_head fs = a)" using n nz(2) a(2) hd by (simp add: lossy_def)
    then show ?goal
      using page_merge_both [OF ok nz(1) b a] rj n r t
      by (cases "run_head fs = a") (simp_all add: release_def join_def)
  qed
  then obtain m' where "page_merge ptr ph b a m = cret m'" "page_ok m' (settle ph sz (release ptr sz fs))"
    "get_next m' ph = get_next m ph"
    "\<forall>x. x \<notin> bytes (ph, sz) \<union> (all_bytes fs \<union> bytes (ptr, sz)) \<longrightarrow> m' x = m x" by blast
  with w show ?thesis unfolding page_run_head(2) [OF ok nz, symmetric] by (rule that)
qed

lemma kfree_page_ok:
  assumes ok: "page_ok m (ph, sz, fs)" and nz: "sz \<noteq> 0" "fs \<noteq> []"
    and ptr: "run_ok ph sz (ptr, sz)" "\<forall>r \<in> set fs. apart r (ptr, sz)"
  shows "\<exists>m'. kfree_page ptr ph m = cret m' \<and> page_ok m' (settle ph sz (release ptr sz fs)) \<and>
    get_next m' ph = get_next m ph \<and>
    (\<forall>x. x \<notin> page_owned (ph, sz, fs) \<union> bytes (ptr, sz) \<longrightarrow> m' x = m x)"
proof -
  note p = page_okE [OF ok nz(1)] and bd = run_ok_bounds [OF page_okE(4) [OF ok nz(1)] ptr(1)]
  note szb = size_class_bounds [OF p(4)]
  define m1 where "m1 = fst (memset m ptr 0 sz)"
  have ok1: "page_ok m1 (ph, sz, fs)"
    unfolding m1_def by (rule page_ok_memset [OF ok nz(1) _ ptr(2)]) (use bd szb in simp)
  obtain b a m' where w: "walk (neighbour_step ptr) (get_next m1) (page_run_head m1 ph) (0, 0) = Some (b, a)"
    "page_merge ptr ph b a m1 = cret m'" "page_ok m' (settle ph sz (release ptr sz fs))"
    "get_next m' ph = get_next m1 ph"
    "\<forall>x. x \<notin> bytes (ph, sz) \<union> (all_bytes fs \<union> bytes (ptr, sz)) \<longrightarrow> m' x = m1 x"
    by (rule page_merge_ok [OF ok1 nz ptr])
  have "u64 (get_size m ph) = sz" using p(3) szb by (simp add: u64_id)
  then have "kfree_page ptr ph m = cret m'" using w by (simp add: kfree_page_def m1_def [symmetric])
  moreover have "get_next m1 ph = get_next m ph"
    unfolding m1_def by (rule node_local) (use bd szb in \<open>auto simp: memset_eq\<close>)
  moreover have "m1 x = m x" if "x \<notin> bytes (ptr, sz)" for x
    using that by (auto simp: m1_def memset_eq)
  ultimately show ?thesis using w nz by (simp add: page_owned_def)
qed

text \<open>Nothing that was free is lost unless the list was cut.\<close>

lemma release_owned:
  assumes ok: "page_ok m (ph, sz, fs)" and nz: "sz \<noteq> 0" "fs \<noteq> []"
    and ptr: "run_ok ph sz (ptr, sz)" "\<forall>r \<in> set fs. apart r (ptr, sz)"
  shows "page_owned (settle ph sz (release ptr sz fs)) \<subseteq> page_owned (ph, sz, fs) \<union> bytes (ptr, sz)"
    and "\<not> lossy ptr sz fs \<Longrightarrow>
      page_owned (settle ph sz (release ptr sz fs)) = page_owned (ph, sz, fs) \<union> bytes (ptr, sz)"
proof -
  note p = page_okE [OF ok nz(1)] and szb = size_class_bounds [OF page_okE(4) [OF ok nz(1)]]
  have j: "all_bytes (join ptr sz sz fs) = all_bytes fs \<union> bytes (ptr, sz)"
    using runs_ok_join [OF p(4,1,2,5) ptr] by simp
  have st: "page_owned (settle ph sz gs) = bytes (ph, sz) \<union> all_bytes gs" for gs
    using nz szb by (auto simp: page_owned_def settle_def)
  have sub: "all_bytes (release ptr sz fs) \<subseteq> all_bytes (join ptr sz sz fs)"
    by (auto simp: release_def all_bytes_def split: option.split dest: set_dropWhileD)
  show "page_owned (settle ph sz (release ptr sz fs)) \<subseteq> page_owned (ph, sz, fs) \<union> bytes (ptr, sz)"
    unfolding st using sub j nz by (auto simp: page_owned_def)
  show "page_owned (settle ph sz (release ptr sz fs)) = page_owned (ph, sz, fs) \<union> bytes (ptr, sz)"
    if "\<not> lossy ptr sz fs"
    unfolding st using that j nz by (auto simp: page_owned_def release_def split: option.split)
qed

end
