(* ===== verification/Pmm.thy ===== *)
theory Pmm
  imports Pmm_Slab
begin

text \<open>
  \<open>kalloc\<close> and \<open>kfree\<close> of \<open>kernel/src/pmm.c\<close>, put together from the heap and the pages, and the
  invariant of the whole allocator.  The number of processors and the current processor
  (\<^verbatim>\<open>cpu_count()\<close>, \<^verbatim>\<open>cpu_current()\<close>) are arguments.
\<close>

subsection \<open>Model\<close>

partial_function (option) round_up :: "int \<Rightarrow> int \<Rightarrow> int option" where
  "round_up powval sz = (if powval < sz then round_up (u64 (powval * 2)) sz else Some powval)"

text \<open>The part of \<open>kalloc\<close> for small blocks, once the size is rounded up.\<close>

definition kalloc_small :: "nat \<Rightarrow> nat \<Rightarrow> int \<Rightarrow> pmm_state \<Rightarrow> (pmm_state \<times> int) cres" where
  "kalloc_small ncpu cpuno sz s =
     cassert (cpuno \<le> ncpu)
       (cbind (first_page cpuno sz s) (\<lambda>s.
        cbind (lock_cpu cpuno s) (\<lambda>s.
        Option.bind
          (scan (\<lambda>p. u64 (get_size (mem s) p) = sz \<and> get_pagefreehead_index (mem s) p > 0)
             (get_next (mem s)) (pagehead (cpupagelist s cpuno)))
          (\<lambda>ph.
            if ph \<noteq> 0 then
              cbind (take_run ph sz (mem s)) (\<lambda>(m, fd).
                let s = unlock_cpu cpuno (s\<lparr>mem := m\<rparr>) in
                cret (s\<lparr>mem := fst (memset (mem s) fd 0 sz)\<rparr>, fd))
            else
              cbind (fresh_page cpuno sz s) (\<lambda>(s, pg).
                if pg = 0 then cret (unlock_cpu cpuno s, 0)
                else
                  cbind (start_page pg sz (mem s)) (\<lambda>(m, ret).
                    cret (unlock_cpu cpuno (s\<lparr>mem := m\<rparr>), ret)))))))"

definition kalloc :: "nat \<Rightarrow> nat \<Rightarrow> int \<Rightarrow> pmm_state \<Rightarrow> (pmm_state \<times> int) cres" where
  "kalloc ncpu cpuno sz s =
     (if sz \<le> 32 then kalloc_small ncpu cpuno 32 s
      else if sz > 16384 then
        if sz > 16777216 then cret (s, 0)
        else Option.bind (round_up 32 sz) (\<lambda>sz. kallocHugeMemory sz s)
      else Option.bind (round_up 32 sz) (\<lambda>sz. kalloc_small ncpu cpuno sz s))"

text \<open>The search of \<open>kfree\<close> for the page of a block: the page and \<^verbatim>\<open>flag\<close>.\<close>

fun find_page_of :: "int \<Rightarrow> pmm_state \<Rightarrow> nat list \<Rightarrow> (int \<times> bool) option" where
  "find_page_of ptr s [] = Some (0, False)"
| "find_page_of ptr s (i # is) =
     Option.bind
       (scan (\<lambda>ph. ph < ptr \<and> ptr < u64 (ph + 65536)) (get_next (mem s)) (pagehead (cpupagelist s i)))
       (\<lambda>ph. if ph \<noteq> 0 then Some (ph, True) else find_page_of ptr s is)"

definition kfree :: "nat \<Rightarrow> nat \<Rightarrow> int \<Rightarrow> pmm_state \<Rightarrow> pmm_state cres" where
  "kfree ncpu cpuno ptr s =
     cassert (ptr \<noteq> 0)
       (cbind (lock_cpu cpuno s) (\<lambda>s.
        Option.bind (find_page_of ptr s [0..<ncpu]) (\<lambda>(ph, flag).
          if ph \<noteq> 0 then
            cassert flag
              (cbind (kfree_page ptr ph (mem s)) (\<lambda>m. cret (unlock_cpu cpuno (s\<lparr>mem := m\<rparr>))))
          else kfree_large ptr (unlock_cpu cpuno s))))"

subsection \<open>The invariant\<close>

text \<open>
  The abstract state: the free regions of the heap, and for every processor its pages in list order.
\<close>

definition page_region :: "page \<Rightarrow> region" where
  "page_region g = (fst g, page_bytes)"

definition all_pages :: "nat \<Rightarrow> (nat \<Rightarrow> page list) \<Rightarrow> page list" where
  "all_pages ncpu P = concat (map P [0..<ncpu])"

definition pages_ok :: "int \<Rightarrow> int \<Rightarrow> pmm_state \<Rightarrow> nat \<Rightarrow> page list \<Rightarrow> bool" where
  "pages_ok lo hi s i gs \<longleftrightarrow>
     chain (get_next (mem s)) (pagehead (cpupagelist s i)) (map fst gs) \<and>
     (\<forall>g \<in> set gs. page_ok (mem s) g \<and> lo \<le> fst g \<and> fst g + page_bytes \<le> hi)"

definition pmm_inv ::
  "nat \<Rightarrow> int \<Rightarrow> int \<Rightarrow> pmm_state \<Rightarrow> region list \<Rightarrow> (nat \<Rightarrow> page list) \<Rightarrow> bool" where
  "pmm_inv ncpu lo hi s xs P \<longleftrightarrow>
     free_ok lo hi xs \<and> hi - lo < 2147483648 \<and> node_list (mem s) (head s) xs \<and>
     (\<forall>i < ncpu. pages_ok lo hi s i (P i)) \<and>
     all_apart (map page_region (all_pages ncpu P) @ xs)"

text \<open>Free regions and pages start at multiples of the page size.\<close>

definition aligned :: "nat \<Rightarrow> region list \<Rightarrow> (nat \<Rightarrow> page list) \<Rightarrow> bool" where
  "aligned ncpu xs P \<longleftrightarrow>
     (\<forall>r \<in> set xs. page_bytes dvd fst r) \<and> (\<forall>g \<in> set (all_pages ncpu P). page_bytes dvd fst g)"

text \<open>The bytes of the heap that no client holds.\<close>

definition owned :: "nat \<Rightarrow> region list \<Rightarrow> (nat \<Rightarrow> page list) \<Rightarrow> int set" where
  "owned ncpu xs P = all_bytes xs \<union> (\<Union>g \<in> set (all_pages ncpu P). page_owned g)"

lemma all_pages_split:
  assumes "c < ncpu"
  obtains A B where "\<And>l. all_pages ncpu (P(c := l)) = A @ l @ B" "all_pages ncpu P = A @ P c @ B"
proof
  have up: "[0..<ncpu] = [0..<c] @ c # [Suc c..<ncpu]"
    using assms by (metis le_add1 plus_1_eq_Suc upt_add_eq_append upt_conv_Cons zero_le add_0 less_imp_le le_add_diff_inverse)
  show "all_pages ncpu (P(c := l)) = concat (map P [0..<c]) @ l @ concat (map P [Suc c..<ncpu])" for l
    by (simp add: all_pages_def up)
  show "all_pages ncpu P = concat (map P [0..<c]) @ P c @ concat (map P [Suc c..<ncpu])"
    by (simp add: all_pages_def up)
qed

lemma page_owned_within:
  assumes "page_ok m g"
  shows "page_owned g \<subseteq> bytes (page_region g)"
proof -
  obtain ph sz fs where g: "g = (ph, sz, fs)" by (cases g)
  show ?thesis
  proof (cases "sz = 0")
    case True
    then show ?thesis by (simp add: g page_owned_def page_region_def)
  next
    case False
    note p = page_okE [OF assms [unfolded g] False]
    note szb = size_class_bounds [OF p(4)]
    have "a \<ge> ph \<and> a + n \<le> ph + page_bytes" if "(a, n) \<in> set fs" for a n
      using run_ok_bounds(1,2) [OF p(4), of ph a n] p(5) that szb by (auto simp: runs_ok_def)
    then show ?thesis
      using False szb by (fastforce simp: g page_owned_def page_region_def all_bytes_def bytes_def)
  qed
qed

lemma page_ok_frame:
  assumes ok: "page_ok m g" and same: "\<And>x. x \<in> bytes (page_region g) \<Longrightarrow> m' x = m x"
  shows "page_ok m' g" "get_next m' (fst g) = get_next m (fst g)"
proof -
  obtain ph sz fs where g: "g = (ph, sz, fs)" by (cases g)
  have eq: "get_next m' q = get_next m q" "get_size m' q = get_size m q" "get_magic m' q = get_magic m q"
    "get_pagefreehead_index m' q = get_pagefreehead_index m q" if "ph \<le> q" "q + 16 \<le> ph + page_bytes" for q
    using that same by (intro node_local; auto simp: g page_region_def)+
  then show "get_next m' (fst g) = get_next m (fst g)" by (simp add: g)
  show "page_ok m' g"
  proof (cases "sz = 0")
    case True
    then show ?thesis using ok eq by (simp add: g page_ok_def)
  next
    case False
    note p = page_okE [OF ok [unfolded g] False]
    note fo = runs_ok_free_ok [OF p(4,1,2,5)]
    have in_page: "ph \<le> fst r \<and> fst r + 16 \<le> ph + page_bytes" if "r \<in> set fs" for r
      using free_ok_memD [OF fo, of "fst r" "snd r"] that by simp
    have "node_list m' (run_head fs) fs"
      using in_page same by (intro node_list_frame [OF p(6)]) (fastforce simp: g page_region_def)
    then show ?thesis
      unfolding g using eq in_page p(3,5,7,8) by (intro page_ok_rewire [OF ok [unfolded g] False]) auto
  qed
qed

text \<open>Locks do not matter to the invariant.\<close>

lemma pmm_inv_locks [simp]:
  "pmm_inv ncpu lo hi (set_plock i l s) xs P = pmm_inv ncpu lo hi s xs P"
  "pmm_inv ncpu lo hi (s\<lparr>heap_lock := l\<rparr>) xs P = pmm_inv ncpu lo hi s xs P"
  by (simp_all add: pmm_inv_def pages_ok_def)

lemma pmm_invD:
  assumes "pmm_inv ncpu lo hi s xs P"
  shows "free_ok lo hi xs" "hi - lo < 2147483648" "node_list (mem s) (head s) xs"
    "i < ncpu \<Longrightarrow> pages_ok lo hi s i (P i)" "all_apart (map page_region (all_pages ncpu P) @ xs)"
  using assms by (auto simp: pmm_inv_def)

lemma all_pages_mem: "g \<in> set (all_pages ncpu P) \<longleftrightarrow> (\<exists>i < ncpu. g \<in> set (P i))"
  by (auto simp: all_pages_def)

lemma pmm_inv_page:
  assumes inv: "pmm_inv ncpu lo hi s xs P" and g: "g \<in> set (all_pages ncpu P)"
  shows "page_ok (mem s) g" "lo \<le> fst g" "fst g + page_bytes \<le> hi" "\<forall>r \<in> set xs. apart (page_region g) r"
  using inv g by (auto simp: pmm_inv_def pages_ok_def all_pages_mem simp del: apart_simp)

text \<open>Two different pages do not overlap.\<close>

lemma all_apart_distinct:
  assumes "all_apart (map page_region gs)" "g \<in> set gs" "h \<in> set gs" "fst g \<noteq> fst h"
  shows "apart (page_region g) (page_region h)"
  using assms
proof (induction gs)
  case (Cons k gs)
  then show ?case using apart_sym by (fastforce simp del: apart_simp)
qed simp

text \<open>
  A change of memory inside the heap's free regions, or inside one page, leaves the rest of the
  allocator's data alone.
\<close>

lemma pages_ok_frame:
  assumes "pages_ok lo hi s i gs" "pagehead (cpupagelist s' i) = pagehead (cpupagelist s i)"
    and same: "\<And>g x. g \<in> set gs \<Longrightarrow> x \<in> bytes (page_region g) \<Longrightarrow> mem s' x = mem s x"
  shows "pages_ok lo hi s' i gs"
proof -
  have f: "page_ok (mem s') g" "get_next (mem s') (fst g) = get_next (mem s) (fst g)" if "g \<in> set gs" for g
    using page_ok_frame [of "mem s" g "mem s'"] assms(1) same that by (auto simp: pages_ok_def)
  have "chain (get_next (mem s')) (pagehead (cpupagelist s i)) (map fst gs) =
      chain (get_next (mem s)) (pagehead (cpupagelist s i)) (map fst gs)"
    by (rule chain_cong) (use f in auto)
  then show ?thesis using assms(1,2) f by (auto simp: pages_ok_def)
qed

lemma take_page_part:
  "take_page xs = (p, ys) \<Longrightarrow> r \<in> set ys \<Longrightarrow>
     \<exists>t \<in> set xs. fst t \<le> fst r \<and> fst r + snd r \<le> fst t + snd t"
proof (induction xs arbitrary: ys)
  case (Cons t xs)
  obtain a n where t: "t = (a, n)" by (cases t)
  show ?case
  proof (cases "n \<ge> page_bytes")
    case True
    with Cons.prems t show ?thesis by (fastforce split: if_splits)
  next
    case False
    obtain q zs where q: "take_page xs = (q, zs)" by fastforce
    with Cons.prems False t have "q = p" "ys = (a, n) # zs" by auto
    with Cons.IH [of zs] Cons.prems(2) q t show ?thesis by auto
  qed
qed simp

lemma take_page_region:
  "take_page xs = (p, ys) \<Longrightarrow> p \<noteq> 0 \<Longrightarrow> \<exists>t \<in> set xs. fst t \<le> p \<and> p + page_bytes \<le> fst t + snd t"
  by (induction xs arbitrary: ys rule: take_page.induct) (auto split: if_splits prod.splits)

lemma take_page_aligned:
  assumes "take_page xs = (p, ys)" "\<forall>r \<in> set xs. page_bytes dvd fst r"
  shows "page_bytes dvd p" "\<forall>r \<in> set ys. page_bytes dvd fst r"
proof -
  have "page_bytes dvd p \<and> (\<forall>r \<in> set ys. page_bytes dvd fst r)"
    using assms
  proof (induction xs arbitrary: ys)
    case (Cons t xs)
    obtain a n where t: "t = (a, n)" by (cases t)
    show ?case
    proof (cases "n \<ge> page_bytes")
      case True
      with Cons.prems t show ?thesis by (auto split: if_splits)
    next
      case False
      obtain q zs where q: "take_page xs = (q, zs)" by fastforce
      with Cons.prems False t have "q = p" "ys = (a, n) # zs" by auto
      with Cons.IH [of zs] Cons.prems(2) q t show ?thesis by auto
    qed
  qed simp
  then show "page_bytes dvd p" "\<forall>r \<in> set ys. page_bytes dvd fst r" by auto
qed

lemma aligned_page_update:
  assumes c: "c < ncpu" "P c = us @ g # zs" and g': "fst g' = fst g" and al: "aligned ncpu xs P"
  shows "aligned ncpu xs (P(c := us @ g' # zs))" "page_bytes dvd fst g"
proof -
  obtain A B where ab: "\<And>l. all_pages ncpu (P(c := l)) = A @ l @ B" "all_pages ncpu P = A @ P c @ B"
    using all_pages_split [OF c(1)] by metis
  show "aligned ncpu xs (P(c := us @ g' # zs))" "page_bytes dvd fst g"
    using al g' by (auto simp: aligned_def ab c(2))
qed

lemma aligned_page_add:
  assumes c: "c < ncpu" and al: "aligned ncpu xs P" and tp: "take_page xs = (fst g, ys)"
  shows "aligned ncpu ys (P(c := g # P c))" "page_bytes dvd fst g"
proof -
  obtain A B where ab: "\<And>l. all_pages ncpu (P(c := l)) = A @ l @ B" "all_pages ncpu P = A @ P c @ B"
    using all_pages_split [OF c(1)] by metis
  have xs: "\<forall>r \<in> set xs. page_bytes dvd fst r" using al by (simp add: aligned_def)
  show "aligned ncpu ys (P(c := g # P c))" "page_bytes dvd fst g"
    using al take_page_aligned [OF tp xs] by (auto simp: aligned_def ab)
qed

lemma pmm_inv_allockpage:
  assumes inv: "pmm_inv ncpu lo hi s xs P" and quiet: "heap_lock s = 0" and tp: "take_page xs = (p, ys)"
  shows "\<exists>s'. allockpage s = cret (s', p) \<and> heap_lock s' = 0 \<and> cpupagelist s' = cpupagelist s \<and>
    pmm_inv ncpu lo hi s' ys P \<and> (\<forall>x. x \<notin> all_bytes xs \<longrightarrow> mem s' x = mem s x) \<and>
    (p = 0 \<and> ys = xs \<or> lo \<le> p \<and> p + page_bytes \<le> hi \<and>
      all_bytes xs = bytes (p, page_bytes) \<union> all_bytes ys \<and> (\<forall>r \<in> set ys. apart r (p, page_bytes)) \<and>
      (\<forall>g \<in> set (all_pages ncpu P). apart (page_region g) (p, page_bytes)))"
proof -
  note i = pmm_invD [OF inv] and tf = take_page_free_ok [OF pmm_invD(1) [OF inv] tp]
  obtain s' where s': "allockpage s = cret (s', p)" "heap_lock s' = 0" "cpupagelist s' = cpupagelist s"
    "node_list (mem s') (head s') ys" "\<forall>x. x \<notin> all_bytes xs \<longrightarrow> mem s' x = mem s x"
    using allockpage_refines [OF quiet i(3,1) tp] by blast
  have out: "x \<notin> all_bytes xs" if "g \<in> set (all_pages ncpu P)" "x \<in> bytes (page_region g)" for g x
    using pmm_inv_page(4) [OF inv that(1)] that(2) apart_bytes
    by (fastforce simp: all_bytes_def simp del: apart_simp)
  have pages: "pages_ok lo hi s' i (P i)" if "i < ncpu" for i
  proof (rule pages_ok_frame [OF i(4) [OF that]])
    fix g x assume g: "g \<in> set (P i)" "x \<in> bytes (page_region g)"
    then have "g \<in> set (all_pages ncpu P)" using that by (auto simp: all_pages_mem)
    from out [OF this g(2)] s'(5) show "mem s' x = mem s x" by simp
  qed (simp add: s'(3))
  have sub: "\<exists>t \<in> set xs. fst t \<le> fst r \<and> fst r + snd r \<le> fst t + snd t" if "r \<in> set ys" for r
    using take_page_part [OF tp that] .
  have "apart (page_region g) r" if "g \<in> set (all_pages ncpu P)" "r \<in> set ys" for g r
    using sub [OF that(2)] pmm_inv_page(4) [OF inv that(1)] by (fastforce simp: apart_def)
  then have "pmm_inv ncpu lo hi s' ys P"
    using tf i(2,5) s'(4) pages by (auto simp: pmm_inv_def free_ok_def simp del: apart_simp)
  moreover have "apart (page_region g) (p, page_bytes)"
    if gm: "g \<in> set (all_pages ncpu P)" and p0: "p \<noteq> 0" for g
  proof -
    obtain t where "t \<in> set xs" "fst t \<le> p" "p + page_bytes \<le> fst t + snd t"
      using take_page_region [OF tp p0] by blast
    with pmm_inv_page(4) [OF inv gm] show ?thesis by (fastforce simp: apart_def)
  qed
  moreover have "0 < lo" using i(1) by (simp add: free_ok_def)
  ultimately show ?thesis using s' tf by fastforce
qed

lemma pmm_inv_page_update:
  assumes inv: "pmm_inv ncpu lo hi s xs P" and c: "c < ncpu" "P c = us @ g # zs"
    and g': "page_ok m' g'" "fst g' = fst g" "get_next m' (fst g) = get_next (mem s) (fst g)"
    and same: "\<forall>x. x \<notin> bytes (page_region g) \<longrightarrow> m' x = mem s x"
  shows "pmm_inv ncpu lo hi (s\<lparr>mem := m'\<rparr>) xs (P(c := us @ g' # zs))"
    and "owned ncpu xs (P(c := us @ g' # zs)) = owned ncpu xs P - page_owned g \<union> page_owned g'"
proof -
  obtain A B where ab: "\<And>l. all_pages ncpu (P(c := l)) = A @ l @ B" "all_pages ncpu P = A @ P c @ B"
    using all_pages_split [OF c(1)] by metis
  note i = pmm_invD [OF inv]
  let ?rest = "A @ us @ zs @ B"
  have gm: "g \<in> set (all_pages ncpu P)" using ab c(2) by simp
  have ap: "all_apart (map page_region (A @ us @ g # zs @ B) @ xs)" using i(5) ab c(2) by simp
  then have "\<forall>h \<in> set (A @ us). apart (page_region h) (page_region g)"
    "\<forall>h \<in> set (zs @ B). apart (page_region g) (page_region h)"
    by (auto simp del: apart_simp)
  then have sep: "apart (page_region h) (page_region g)" if "h \<in> set ?rest" for h
    using that apart_sym [of "page_region g"] by auto
  then have keep: "m' x = mem s x" if "h \<in> set ?rest" "x \<in> bytes (page_region h)" for h x
    using that same apart_bytes by blast
  have sepx: "\<forall>r \<in> set xs. apart (page_region g) r" by (rule pmm_inv_page(4) [OF inv gm])
  have nl: "node_list m' (head s) xs"
  proof (rule node_list_frame [OF i(3)])
    fix r x assume "r \<in> set xs" "x \<in> bytes (fst r, node_bytes)"
    moreover have "16 \<le> snd r" using i(1) \<open>r \<in> set xs\<close> by (simp add: free_ok_def)
    ultimately have "x \<notin> bytes (page_region g)" using sepx by (fastforce simp: apart_def bytes_def)
    then show "m' x = mem s x" using same by simp
  qed
  have rg: "page_region g' = page_region g" using g'(2) by (simp add: page_region_def)
  have pc: "pages_ok lo hi (s\<lparr>mem := m'\<rparr>) c (us @ g' # zs)"
  proof -
    have old: "pages_ok lo hi s c (us @ g # zs)" using i(4) [OF c(1)] c(2) by simp
    have f: "page_ok m' h" "get_next m' (fst h) = get_next (mem s) (fst h)" if "h \<in> set (us @ zs)" for h
      using page_ok_frame [of "mem s" h m'] old keep [of h] that by (auto simp: pages_ok_def)
    have "chain (get_next m') (pagehead (cpupagelist s c)) (map fst (us @ g # zs)) =
        chain (get_next (mem s)) (pagehead (cpupagelist s c)) (map fst (us @ g # zs))"
      by (rule chain_cong) (use f(2) g'(3) in force)
    then show ?thesis using old f(1) g' by (auto simp: pages_ok_def)
  qed
  have po: "pages_ok lo hi (s\<lparr>mem := m'\<rparr>) j (P j)" if "j < ncpu" "j \<noteq> c" for j
  proof (rule pages_ok_frame [OF i(4) [OF that(1)]])
    fix h x assume h: "h \<in> set (P j)" "x \<in> bytes (page_region h)"
    have "h \<in> set (A @ B)"
    proof -
      have "h \<in> set (all_pages ncpu (P(c := [])))" using h that by (auto simp: all_pages_mem)
      then show ?thesis using ab(1) [of "[]"] by simp
    qed
    then have "h \<in> set ?rest" by auto
    from keep [OF this h(2)] show "mem (s\<lparr>mem := m'\<rparr>) x = mem s x" by simp
  qed simp
  show "pmm_inv ncpu lo hi (s\<lparr>mem := m'\<rparr>) xs (P(c := us @ g' # zs))"
  proof -
    have "map page_region (all_pages ncpu (P(c := us @ g' # zs))) = map page_region (all_pages ncpu P)"
      by (simp add: ab c(2) rg)
    moreover have "\<forall>j < ncpu. pages_ok lo hi (s\<lparr>mem := m'\<rparr>) j ((P(c := us @ g' # zs)) j)"
      using pc po by simp
    ultimately show ?thesis using i(1,2,5) nl unfolding pmm_inv_def by simp
  qed
  note og = page_owned_within [OF pmm_inv_page(1) [OF inv gm]]
  have "page_owned h \<inter> page_owned g = {}" if "h \<in> set ?rest" for h
  proof -
    have "h \<in> set (all_pages ncpu P)" using that ab(2) c(2) by auto
    from page_owned_within [OF pmm_inv_page(1) [OF inv this]] og apart_bytes [OF sep [OF that]]
    show ?thesis by blast
  qed
  then have d1: "(\<Union>h \<in> set ?rest. page_owned h) \<inter> page_owned g = {}" by blast
  have d2: "all_bytes xs \<inter> page_owned g = {}"
    using sepx apart_bytes og unfolding all_bytes_def by blast
  let ?R = "all_bytes xs \<union> (\<Union>h \<in> set ?rest. page_owned h)"
  have "?R \<inter> page_owned g = {}" unfolding Int_Un_distrib2 d1 d2 by simp
  then have R: "?R - page_owned g = ?R" by (rule Diff_triv)
  have e: "owned ncpu xs P = ?R \<union> page_owned g" "owned ncpu xs (P(c := us @ g' # zs)) = ?R \<union> page_owned g'"
    unfolding owned_def ab c(2) by (simp_all only: set_append list.set UN_Un UN_insert Un_ac)
  show "owned ncpu xs (P(c := us @ g' # zs)) = owned ncpu xs P - page_owned g \<union> page_owned g'"
    unfolding e Un_Diff [of ?R] R by simp
qed

lemma pmm_inv_page_add:
  assumes inv: "pmm_inv ncpu lo hi s xs P" and c: "c < ncpu"
    and p: "lo \<le> fst g" "fst g + page_bytes \<le> hi" "\<forall>r \<in> set xs. apart r (page_region g)"
      "\<forall>h \<in> set (all_pages ncpu P). apart (page_region h) (page_region g)"
    and g: "page_ok m' g" "get_next m' (fst g) = pagehead (cpupagelist s c)"
    and same: "\<forall>x. x \<notin> bytes (page_region g) \<longrightarrow> m' x = mem s x"
  shows "pmm_inv ncpu lo hi (set_pagehead c (fst g) (s\<lparr>mem := m'\<rparr>)) xs (P(c := g # P c))"
    and "owned ncpu xs (P(c := g # P c)) = owned ncpu xs P \<union> page_owned g"
proof -
  obtain A B where ab: "\<And>l. all_pages ncpu (P(c := l)) = A @ l @ B" "all_pages ncpu P = A @ P c @ B"
    using all_pages_split [OF c] by metis
  note i = pmm_invD [OF inv]
  let ?s = "set_pagehead c (fst g) (s\<lparr>mem := m'\<rparr>)"
  have keep: "m' x = mem s x" if "h \<in> set (all_pages ncpu P)" "x \<in> bytes (page_region h)" for h x
    using that same p(4) apart_bytes by blast
  have nl: "node_list m' (head s) xs"
  proof (rule node_list_frame [OF i(3)])
    fix r x assume "r \<in> set xs" "x \<in> bytes (fst r, node_bytes)"
    moreover have "16 \<le> snd r" using i(1) \<open>r \<in> set xs\<close> by (simp add: free_ok_def)
    ultimately have "x \<notin> bytes (page_region g)" using p(3) by (fastforce simp: apart_def bytes_def)
    then show "m' x = mem s x" using same by simp
  qed
  have frame: "pages_ok lo hi (s\<lparr>mem := m'\<rparr>) j (P j)" if "j < ncpu" for j
  proof (rule pages_ok_frame [OF i(4) [OF that]])
    fix h x assume h: "h \<in> set (P j)" "x \<in> bytes (page_region h)"
    then have "h \<in> set (all_pages ncpu P)" using that by (auto simp: all_pages_mem)
    from keep [OF this h(2)] show "mem (s\<lparr>mem := m'\<rparr>) x = mem s x" by simp
  qed simp
  have fg: "fst g \<noteq> 0" using g(1) by (cases g) (auto simp: page_ok_def)
  have "\<forall>j < ncpu. pages_ok lo hi ?s j ((P(c := g # P c)) j)"
  proof (intro allI impI)
    fix j assume "j < ncpu"
    then show "pages_ok lo hi ?s j ((P(c := g # P c)) j)"
      using frame [of j] p(1,2) g fg by (auto simp: pages_ok_def)
  qed
  moreover have "all_apart (map page_region (A @ (g # P c) @ B) @ xs)"
  proof -
    have "\<forall>h \<in> set (A @ P c @ B). apart (page_region h) (page_region g)" using p(4) ab(2) by simp
    then have "\<forall>h \<in> set A. apart (page_region h) (page_region g)"
      "\<forall>h \<in> set (P c @ B). apart (page_region g) (page_region h)" "\<forall>r \<in> set xs. apart (page_region g) r"
      using apart_sym [of _ "page_region g"] p(3) by auto
    moreover have "all_apart (map page_region (A @ P c @ B) @ xs)" using i(5) ab(2) by simp
    ultimately show ?thesis by (auto simp del: apart_simp)
  qed
  ultimately show "pmm_inv ncpu lo hi ?s xs (P(c := g # P c))"
    using i(1,2) nl unfolding pmm_inv_def ab(1) by simp
  show "owned ncpu xs (P(c := g # P c)) = owned ncpu xs P \<union> page_owned g"
    unfolding owned_def ab(1) ab(2) by (simp only: set_append list.set UN_Un UN_insert Un_ac)
qed

lemma pages_ok_Nil: "pages_ok lo hi s c [] \<longleftrightarrow> pagehead (cpupagelist s c) = 0"
  by (simp add: pages_ok_def)

lemma quiet_simps [simp]:
  "quiet ncpu (s\<lparr>mem := m\<rparr>) = quiet ncpu s" "quiet ncpu (set_pagehead c p s) = quiet ncpu s"
  "quiet ncpu s \<Longrightarrow> quiet ncpu (set_plock c 0 s)"
  "quiet ncpu s \<Longrightarrow> c < ncpu \<Longrightarrow> lock_cpu c s = cret (set_plock c 1 s)"
  by (auto simp: quiet_def)

lemma set_plock_twice [simp]: "set_plock c l (set_plock c k s) = set_plock c l s"
  by (simp add: set_plock_def)

lemma pagelist_commute: "r\<lparr>plock := l, pagehead := p\<rparr> = r\<lparr>pagehead := p, plock := l\<rparr>"
  by (cases r) simp

lemma set_plock_commute [simp]:
  "(set_plock c l s)\<lparr>mem := m\<rparr> = set_plock c l (s\<lparr>mem := m\<rparr>)"
  "(set_pagehead c p s)\<lparr>mem := m\<rparr> = set_pagehead c p (s\<lparr>mem := m\<rparr>)"
  "set_pagehead c p (set_plock c l s) = set_plock c l (set_pagehead c p s)"
  by (simp_all add: set_plock_def set_pagehead_def pagelist_commute)

lemma first_page_ok:
  assumes inv: "pmm_inv ncpu lo hi s xs P" and q: "quiet ncpu s" and c: "c < ncpu"
    and sz: "size_class sz" and avail: "P c \<noteq> [] \<or> fst (take_page xs) \<noteq> 0"
  shows "\<exists>s' ys P'. first_page c sz s = cret s' \<and> pmm_inv ncpu lo hi s' ys P' \<and> quiet ncpu s' \<and>
    owned ncpu ys P' = owned ncpu xs P \<and> (\<forall>x. x \<notin> owned ncpu xs P \<longrightarrow> mem s' x = mem s x) \<and>
    (P c \<noteq> [] \<and> ys = xs \<and> P' = P \<or> (\<exists>ph fs. P' c = [(ph, sz, fs)] \<and> fs \<noteq> [])) \<and>
    (aligned ncpu xs P \<longrightarrow> aligned ncpu ys P') \<and> heap_pages xs - 1 \<le> heap_pages ys"
proof (cases "P c = []")
  case False
  then have "pagehead (cpupagelist s c) \<noteq> 0"
    using pmm_invD(4) [OF inv c] by (cases "P c") (auto simp: pages_ok_def)
  then show ?thesis
    using inv q False by (intro exI [of _ s] exI [of _ xs] exI [of _ P]) (simp add: first_page_def)
next
  case True
  obtain p ys where tp: "take_page xs = (p, ys)" by fastforce
  then have p0: "p \<noteq> 0" using avail True by simp
  have inv1: "pmm_inv ncpu lo hi (set_plock c 1 s) xs P" using inv by simp
  have hl: "heap_lock (set_plock c 1 s) = 0" using q by (simp add: quiet_def)
  obtain s1 where s1: "allockpage (set_plock c 1 s) = cret (s1, p)" "heap_lock s1 = 0"
      "cpupagelist s1 = cpupagelist (set_plock c 1 s)" "pmm_inv ncpu lo hi s1 ys P"
      "\<forall>x. x \<notin> all_bytes xs \<longrightarrow> mem s1 x = mem s x"
    and p: "lo \<le> p" "p + page_bytes \<le> hi" "all_bytes xs = bytes (p, page_bytes) \<union> all_bytes ys"
      "\<forall>r \<in> set ys. apart r (p, page_bytes)"
      "\<forall>g \<in> set (all_pages ncpu P). apart (page_region g) (p, page_bytes)"
    using pmm_inv_allockpage [OF inv1 hl tp] p0 by auto
  have ph0: "pagehead (cpupagelist s c) = 0"
    using pmm_invD(4) [OF inv c] True by (simp add: pages_ok_Nil)
  note szb = size_class_bounds [OF sz]
  have hi: "0 < lo" "hi \<le> 9223372036854775808" using pmm_invD(1) [OF inv] by (auto simp: free_ok_def)
  let ?f = "p + sz"
  let ?m = "set_size (set_next (set_magic (set_pagefreehead_index (set_size (set_next (mem s1) p 0) p sz) p 1)
    ?f 1234567) ?f 0) ?f (page_bytes - sz)"
  let ?g = "(p, sz, [(p + 1 * sz, page_bytes - 1 * sz)]) :: page"
  have ap: "apart (p, node_bytes) (?f, node_bytes)" "apart (?f, node_bytes) (p, node_bytes)"
    using szb by auto
  have u: "u64 ?f = ?f" using szb p hi by (simp add: u64_id)
  have run: "first_page c sz s = cret (set_plock c 0 (set_pagehead c p (s1\<lparr>mem := ?m\<rparr>)))"
    using ph0 q c s1(1) p0 u ap
    by (simp add: first_page_def Let_def node_apart_fields del: apart_simp)
  have pg: "page_ok ?m ?g"
    by (rule page_ok_tail [OF sz]) (use szb p hi ap in \<open>simp_all add: node_apart_fields s32_id u32_id del: apart_simp\<close>)
  have nx: "get_next ?m p = pagehead (cpupagelist s1 c)"
    using ap ph0 s1(3) by (simp add: node_apart_fields del: apart_simp)
  have fr: "\<forall>x. x \<notin> bytes (p, page_bytes) \<longrightarrow> ?m x = mem s1 x"
    using szb by (auto simp: node_set_frame)
  note add = pmm_inv_page_add [OF s1(4) c, of ?g ?m, unfolded page_region_def fst_conv, OF p(1,2,4) _ pg nx fr]
  have inv2: "pmm_inv ncpu lo hi (set_pagehead c p (s1\<lparr>mem := ?m\<rparr>)) ys (P(c := ?g # P c))"
    and own: "owned ncpu ys (P(c := ?g # P c)) = owned ncpu ys P \<union> page_owned ?g"
    using add p(5) by (auto simp: page_region_def)
  have "page_owned ?g = bytes (p, page_bytes)" using szb by (auto simp: page_owned_def)
  then have own': "owned ncpu ys (P(c := ?g # P c)) = owned ncpu xs P"
    unfolding own by (auto simp: owned_def p(3))
  have "quiet ncpu (set_plock c 0 s1)" using q s1(2,3) by (auto simp: quiet_def)
  then have "quiet ncpu (set_plock c 0 (set_pagehead c p (s1\<lparr>mem := ?m\<rparr>)))" by (auto simp: quiet_def)
  moreover have "?m x = mem s x" if "x \<notin> owned ncpu xs P" for x
    using that s1(5) fr p(3) by (simp add: owned_def)
  moreover have "\<exists>ph fs. (P(c := ?g # P c)) c = [(ph, sz, fs)] \<and> fs \<noteq> []" using True by simp
  moreover have "mem (set_plock c 0 (set_pagehead c p (s1\<lparr>mem := ?m\<rparr>))) = ?m" by simp
  moreover have "aligned ncpu xs P \<longrightarrow> aligned ncpu ys (P(c := ?g # P c))"
    using aligned_page_add(1) [OF c, of xs P ?g ys] tp by simp
  moreover have "heap_pages xs - 1 \<le> heap_pages ys" using heap_pages_take [OF tp] by simp
  ultimately show ?thesis unfolding run using inv2 own' pmm_inv_locks(1) by metis
qed

text \<open>A change of the heap's free list that stays clear of the pages.\<close>

lemma pmm_inv_heap_change:
  assumes inv: "pmm_inv ncpu lo hi s xs P" and ys: "free_ok lo hi ys" "node_list (mem s') (head s') ys"
    and cp: "cpupagelist s' = cpupagelist s"
    and B: "\<forall>g \<in> set (all_pages ncpu P). bytes (page_region g) \<inter> B = {}"
    and sub: "all_bytes ys \<subseteq> all_bytes xs \<union> B"
    and same: "\<forall>x. x \<notin> all_bytes xs \<union> B \<longrightarrow> mem s' x = mem s x"
  shows "pmm_inv ncpu lo hi s' ys P"
proof -
  note i = pmm_invD [OF inv]
  have out: "bytes (page_region g) \<inter> (all_bytes xs \<union> B) = {}" if "g \<in> set (all_pages ncpu P)" for g
    using pmm_inv_page(4) [OF inv that] B that apart_bytes unfolding all_bytes_def by blast
  have pages: "pages_ok lo hi s' i (P i)" if "i < ncpu" for i
  proof (rule pages_ok_frame [OF i(4) [OF that]])
    fix g x assume g: "g \<in> set (P i)" "x \<in> bytes (page_region g)"
    then have "g \<in> set (all_pages ncpu P)" using that by (auto simp: all_pages_mem)
    from out [OF this] g(2) have "x \<notin> all_bytes xs \<union> B" by blast
    with same show "mem s' x = mem s x" by blast
  qed (simp add: cp)
  have "apart (page_region g) r" if "g \<in> set (all_pages ncpu P)" "r \<in> set ys" for g r
  proof -
    have "0 < snd r" "0 < snd (page_region g)" using ys(1) that(2) by (auto simp: free_ok_def page_region_def)
    moreover have "bytes r \<subseteq> all_bytes ys" using that(2) by (auto simp: all_bytes_def)
    ultimately show ?thesis using apart_iff out [OF that(1)] sub by blast
  qed
  then show ?thesis
    using ys i(2,5) pages by (auto simp: pmm_inv_def free_ok_def simp del: apart_simp)
qed

lemma owned_heap_change: "owned ncpu ys P = all_bytes ys \<union> (owned ncpu xs P - all_bytes xs)"
  if "pmm_inv ncpu lo hi s xs P"
proof -
  have "page_owned g \<inter> all_bytes xs = {}" if "g \<in> set (all_pages ncpu P)" for g
    using pmm_inv_page(1,4) [OF \<open>pmm_inv ncpu lo hi s xs P\<close> that] page_owned_within apart_bytes
    unfolding all_bytes_def by blast
  then show ?thesis unfolding owned_def by blast
qed

subsection \<open>Initialisation\<close>

lemma all_pages_none [simp]: "all_pages ncpu (\<lambda>_. []) = []"
  by (simp add: all_pages_def)

lemma pmm_init_establishes:
  assumes "0 < start" "start + 16 \<le> endp" "endp \<le> 9223372036854775808" "endp - start < 2147483648"
    and "16 dvd endp - start"
  shows "\<exists>s'. pmm_init start endp ncpu s = cret s' \<and> quiet ncpu s' \<and>
    pmm_inv ncpu start endp s' [(start, endp - start)] (\<lambda>_. []) \<and>
    (\<forall>x. x \<notin> bytes (start, endp - start) \<longrightarrow> mem s' x = mem s x)"
  using assms
  by (auto simp: pmm_init_def Let_def lockinit_def quiet_def pmm_inv_def pages_ok_def
      free_ok_def s32_id node_set_frame)

text \<open>A concrete machine after \<open>pmm_init\<close>: two processors, a heap of \<open>n\<close> bytes at 1 MiB.\<close>

definition boot_state :: "int \<Rightarrow> pmm_state" where
  "boot_state n = \<lparr>mem = set_next (set_size (\<lambda>_. 0) 1048576 n) 1048576 0, head = 1048576,
     heap_lock = 0, cpupagelist = (\<lambda>_. \<lparr>pagehead = 0, plock = 0\<rparr>)\<rparr>"

lemma boot_state_ok:
  assumes "16 \<le> n" "n < 2147483648" "16 dvd n"
  shows "pmm_inv 2 1048576 (1048576 + n) (boot_state n) [(1048576, n)] (\<lambda>_. [])"
    "quiet 2 (boot_state n)"
  using assms by (simp_all add: boot_state_def pmm_inv_def pages_ok_def free_ok_def quiet_def s32_id)

lemma boot_state_owned:
  "aligned 2 [(1048576, n)] (\<lambda>_. [])" "owned 2 [(1048576, n)] (\<lambda>_. []) = bytes (1048576, n)"
  by (simp_all add: aligned_def owned_def)

end
