(* ===== verification/Pmm_Alloc.thy ===== *)
theory Pmm_Alloc
  imports Pmm
begin

text \<open>
  What \<open>kalloc\<close> of \<open>kernel/src/pmm.c\<close> promises: \<open>owns\<close> is the abstract state of the allocator, the set
  of bytes no client holds.  A small allocation takes its block out of that set, fills it with
  zeros and writes nothing outside the set; so does a large one, except that it does not clear the block.
\<close>

subsection \<open>Pages and the search for them\<close>

lemma page_scan:
  assumes ok: "pages_ok lo hi s c gs"
  shows "(\<forall>g \<in> set gs. \<not> Q (fst g)) \<Longrightarrow> scan Q (get_next (mem s)) (pagehead (cpupagelist s c)) = Some 0"
    and "gs = us @ g # zs \<Longrightarrow> (\<forall>h \<in> set us. \<not> Q (fst h)) \<Longrightarrow> Q (fst g) \<Longrightarrow>
      scan Q (get_next (mem s)) (pagehead (cpupagelist s c)) = Some (fst g)"
proof -
  have ch: "chain (get_next (mem s)) (pagehead (cpupagelist s c)) (map fst gs)"
    using ok by (simp add: pages_ok_def)
  show "scan Q (get_next (mem s)) (pagehead (cpupagelist s c)) = Some 0" if "\<forall>g \<in> set gs. \<not> Q (fst g)"
    using that by (intro scan_none [OF ch]) auto
  show "scan Q (get_next (mem s)) (pagehead (cpupagelist s c)) = Some (fst g)"
    if "gs = us @ g # zs" "\<forall>h \<in> set us. \<not> Q (fst h)" "Q (fst g)"
    using that ch
    by (intro scan_found [of _ _ "map fst us" "fst g" "map fst zs"]) auto
qed

text \<open>What the two searches of \<open>kalloc\<close> look for.\<close>

lemma page_conditions:
  assumes ok: "page_ok m (ph, sz', fs)" and sz: "size_class sz"
  shows "u64 (get_size m ph) = sz \<and> get_pagefreehead_index m ph > 0 \<longleftrightarrow> sz' = sz \<and> fs \<noteq> []"
    and "get_size m ph = 0 \<and> get_pagefreehead_index m ph > 0 \<longleftrightarrow> sz' = 0"
proof -
  note szb = size_class_bounds [OF sz]
  have "get_size m ph = sz'" using ok by (simp add: page_ok_def)
  moreover have "u64 sz' = sz'"
    using ok size_class_bounds [of sz'] by (auto simp: page_ok_def u64_id split: if_splits)
  moreover have "sz' \<noteq> 0 \<Longrightarrow> fs = [] \<Longrightarrow> get_pagefreehead_index m ph = 0"
    using page_okE(7) [OF ok] by (simp add: run_index_def)
  moreover have "sz' \<noteq> 0 \<Longrightarrow> fs \<noteq> [] \<Longrightarrow> 0 < get_pagefreehead_index m ph"
    using page_run_head(3) [OF ok] by simp
  moreover have "sz' = 0 \<Longrightarrow> get_pagefreehead_index m ph = 1" using ok by (simp add: page_ok_def)
  ultimately show "u64 (get_size m ph) = sz \<and> get_pagefreehead_index m ph > 0 \<longleftrightarrow> sz' = sz \<and> fs \<noteq> []"
    "get_size m ph = 0 \<and> get_pagefreehead_index m ph > 0 \<longleftrightarrow> sz' = 0"
    using szb by auto
qed

lemma first_such:
  assumes "\<exists>g \<in> set gs. Q g"
  obtains us g zs where "gs = us @ g # zs" "\<forall>h \<in> set us. \<not> Q h" "Q g"
  using split_list_first_prop [of gs Q] assms by blast

text \<open>A block is taken out of a page: what becomes of the page's free bytes.\<close>

lemma take_owned:
  assumes ok: "page_ok m (ph, sz, fs)" and nz: "sz \<noteq> 0" "fs \<noteq> []"
  shows "bytes (run_head fs, sz) \<subseteq> page_owned (ph, sz, fs)"
    and "page_owned (ph, sz, after_take sz fs) = page_owned (ph, sz, fs) - bytes (run_head fs, sz)"
    and "\<forall>r \<in> set (after_take sz fs). apart r (run_head fs, sz)"
    and "apart (ph, node_bytes) (run_head fs, sz)" "0 < run_head fs"
    and "bytes (run_head fs, sz) \<subseteq> bytes (ph, page_bytes)"
    and "page_bytes dvd ph \<Longrightarrow> sz dvd run_head fs"
proof -
  note p = page_okE [OF ok nz(1)] and szb = size_class_bounds [OF page_okE(4) [OF ok nz(1)]]
  obtain a n rest where fs: "fs = (a, n) # rest" using nz(2) by (cases fs) auto
  have a: "run_head fs = a" by (simp add: fs run_head_def)
  have r: "run_ok ph sz (a, n)" "\<forall>r \<in> set rest. apart (a, n) r"
    using p(5) by (auto simp: fs runs_ok_Cons simp del: apart_simp)
  note bd = run_ok_bounds(1-3) [OF p(4) r(1)]
  show "sz dvd run_head fs" if "page_bytes dvd ph"
  proof -
    have "sz dvd a - ph" "sz dvd ph" using r(1) dvd_trans [OF szb(4) that] by (auto simp: run_ok_def)
    then show ?thesis using dvd_add [of sz "a - ph" ph] by (simp add: a)
  qed
  show "apart (ph, node_bytes) (run_head fs, sz)" "0 < run_head fs"
    using bd szb p(1) by (auto simp: a)
  show "bytes (run_head fs, sz) \<subseteq> page_owned (ph, sz, fs)" "bytes (run_head fs, sz) \<subseteq> bytes (ph, page_bytes)"
    using bd szb nz unfolding a by (auto simp: page_owned_def fs)
  show ap: "\<forall>r \<in> set (after_take sz fs). apart r (run_head fs, sz)"
    using r(2) bd unfolding a by (auto simp: after_take_def fs apart_def split: if_splits)
  have rest: "all_bytes rest \<inter> bytes (a, n) = {}"
    using r(2) apart_bytes by (fastforce simp: all_bytes_def simp del: apart_simp)
  have "all_bytes (after_take sz fs) = all_bytes rest \<union> bytes (a + sz, n - sz)"
    by (auto simp: after_take_def fs)
  then show "page_owned (ph, sz, after_take sz fs) = page_owned (ph, sz, fs) - bytes (run_head fs, sz)"
    using rest bd szb nz unfolding a page_owned_def by (auto simp: fs)
qed

subsection \<open>Small blocks\<close>

text \<open>
  A block of \<open>sz\<close> bytes at \<open>p\<close> was taken out of the free bytes \<open>F\<close>, cleared, and nothing outside \<open>F\<close>
  was written; the heap can still give \<open>k\<close> pages, and where pages were aligned (\<open>al\<close>), they still are and so is the block.
\<close>

definition granted ::
  "nat \<Rightarrow> int \<Rightarrow> int \<Rightarrow> bool \<Rightarrow> nat \<Rightarrow> int \<Rightarrow> int \<Rightarrow> int set \<Rightarrow> mem \<Rightarrow> pmm_state \<Rightarrow> bool" where
  "granted ncpu lo hi al k p sz F m s' \<longleftrightarrow>
     0 < p \<and> bytes (p, sz) \<subseteq> F \<and>
     (\<exists>ys P'. pmm_inv ncpu lo hi s' ys P' \<and> owned ncpu ys P' = F - bytes (p, sz) \<and>
        k \<le> heap_pages ys \<and> (al \<longrightarrow> aligned ncpu ys P' \<and> sz dvd p)) \<and>
     (\<forall>x \<in> bytes (p, sz). mem s' x = 0) \<and> (\<forall>x. x \<notin> F \<longrightarrow> mem s' x = m x)"

lemma grantedI:
  assumes "0 < p" "bytes (p, sz) \<subseteq> F" "pmm_inv ncpu lo hi s' ys P'" "owned ncpu ys P' = F - bytes (p, sz)" "k \<le> heap_pages ys"
    and "al \<longrightarrow> aligned ncpu ys P' \<and> sz dvd p" "\<forall>x \<in> bytes (p, sz). mem s' x = 0" "\<forall>x. x \<notin> F \<longrightarrow> mem s' x = m x"
  shows "granted ncpu lo hi al k p sz F m s'"
  using assms unfolding granted_def by blast

lemma granted_weaken:
  assumes "granted ncpu lo hi al k p sz F m s'" "al' \<longrightarrow> al" "k' \<le> k" "\<forall>x. x \<notin> F \<longrightarrow> m x = m' x"
  shows "granted ncpu lo hi al' k' p sz F m' s'"
proof -
  obtain ys P' where "pmm_inv ncpu lo hi s' ys P'" "owned ncpu ys P' = F - bytes (p, sz)" "k \<le> heap_pages ys"
      "al \<longrightarrow> aligned ncpu ys P' \<and> sz dvd p"
    using assms(1) unfolding granted_def by blast
  then show ?thesis using assms unfolding granted_def by (intro grantedI [unfolded granted_def]) auto
qed

lemma granted_locks: "granted ncpu lo hi al k p sz F m (set_plock c l s') = granted ncpu lo hi al k p sz F m s'"
  unfolding granted_def by simp

lemma fast_path:
  assumes inv: "pmm_inv ncpu lo hi s xs P" and c: "c < ncpu" "P c = us @ (ph, sz, fs) # zs"
    and sz: "size_class sz" "fs \<noteq> []"
  shows "\<exists>m'. take_run ph sz (mem s) = cret (m', run_head fs) \<and>
    granted ncpu lo hi (aligned ncpu xs P) (heap_pages xs) (run_head fs) sz (owned ncpu xs P) (mem s)
      (s\<lparr>mem := fst (memset m' (run_head fs) 0 sz)\<rparr>)"
proof -
  let ?g = "(ph, sz, fs) :: page" and ?a = "run_head fs"
  note szb = size_class_bounds [OF sz(1)]
  then have nz: "sz \<noteq> 0" by simp
  have gm: "?g \<in> set (all_pages ncpu P)" using c by (auto simp: all_pages_mem)
  have ok: "page_ok (mem s) ?g" by (rule pmm_inv_page(1) [OF inv gm])
  obtain m' where m': "take_run ph sz (mem s) = cret (m', ?a)" "page_ok m' (ph, sz, after_take sz fs)"
    "get_next m' ph = get_next (mem s) ph" "\<forall>x. x \<notin> page_owned ?g \<longrightarrow> m' x = mem s x"
    using take_run_ok [OF ok nz sz(2)] by blast
  note tk = take_owned [OF ok nz sz(2)]
  let ?m = "fst (memset m' ?a 0 sz)" and ?g' = "(ph, sz, after_take sz fs) :: page"
  have ok': "page_ok ?m ?g'" using tk(3,4) by (intro page_ok_memset [OF m'(2) nz])
  have nx: "get_next ?m ph = get_next (mem s) ph"
    using m'(3) tk(4) node_local(1) [of ph ?m m'] by (auto simp: memset_eq)
  have fr: "?m x = mem s x" if "x \<notin> page_owned ?g" for x
    using that m'(4) tk(1) by (auto simp: memset_eq subset_iff)
  have "\<forall>x. x \<notin> bytes (page_region ?g) \<longrightarrow> ?m x = mem s x"
    using fr page_owned_within [OF ok] by blast
  note up = pmm_inv_page_update [OF inv c ok' _ _ this]
  have "page_owned ?g \<subseteq> owned ncpu xs P" using gm by (auto simp: owned_def)
  moreover have "owned ncpu xs (P(c := us @ ?g' # zs)) = owned ncpu xs P - bytes (?a, sz)"
    using up(2) nx tk(1,2) \<open>page_owned ?g \<subseteq> owned ncpu xs P\<close> by auto
  moreover have "\<forall>x \<in> bytes (?a, sz). ?m x = 0" by (auto simp: memset_eq)
  moreover have "aligned ncpu xs P \<longrightarrow> aligned ncpu xs (P(c := us @ ?g' # zs)) \<and> sz dvd ?a"
    using aligned_page_update [where P = P and g = ?g and g' = ?g', OF c] tk(7) by simp
  moreover have "pmm_inv ncpu lo hi (s\<lparr>mem := ?m\<rparr>) xs (P(c := us @ ?g' # zs))" using up(1) nx by simp
  moreover have "\<forall>x. x \<notin> owned ncpu xs P \<longrightarrow> ?m x = mem s x" using fr \<open>page_owned ?g \<subseteq> owned ncpu xs P\<close> by blast
  ultimately have "granted ncpu lo hi (aligned ncpu xs P) (heap_pages xs) ?a sz (owned ncpu xs P) (mem s) (s\<lparr>mem := ?m\<rparr>)"
    using tk(1,5) by (intro grantedI [where ys = xs and P' = "P(c := us @ ?g' # zs)"]) auto
  with m'(1) show ?thesis by blast
qed

lemma empty_path:
  assumes inv: "pmm_inv ncpu lo hi s xs P" and c: "c < ncpu" "P c = us @ (ph, 0, []) # zs"
    and sz: "size_class sz"
  shows "\<exists>m'. start_page ph sz (set_size (mem s) ph sz) = cret (m', ph + sz) \<and>
    granted ncpu lo hi (aligned ncpu xs P) (heap_pages xs) (ph + sz) sz (owned ncpu xs P) (mem s) (s\<lparr>mem := m'\<rparr>)"
proof -
  let ?g = "(ph, 0, []) :: page" and ?g' = "(ph, sz, [(ph + 2 * sz, page_bytes - 2 * sz)]) :: page"
  note szb = size_class_bounds [OF sz(1)]
  have gm: "?g \<in> set (all_pages ncpu P)" using c by (auto simp: all_pages_mem)
  have ok: "page_ok (mem s) ?g" by (rule pmm_inv_page(1) [OF inv gm])
  then have ph: "0 < ph" "ph + page_bytes \<le> 9223372036854775808"
    "get_pagefreehead_index (set_size (mem s) ph sz) ph = 1" "get_size (set_size (mem s) ph sz) ph = sz"
    using szb by (auto simp: page_ok_def s32_id)
  obtain m' where m': "start_page ph sz (set_size (mem s) ph sz) = cret (m', ph + sz)" "page_ok m' ?g'"
    "get_next m' ph = get_next (mem s) ph" "\<forall>x \<in> bytes (ph + sz, sz). m' x = 0"
    "\<forall>x. x \<notin> bytes (ph, page_bytes) \<longrightarrow> m' x = set_size (mem s) ph sz x"
    using start_page_ok [OF sz ph(1,2,4,3)] by auto
  have fr: "\<forall>x. x \<notin> bytes (page_region ?g) \<longrightarrow> m' x = mem s x"
    using m'(5) by (auto simp: page_region_def node_set_frame)
  note up = pmm_inv_page_update [OF inv c m'(2) _ _ fr]
  have og: "page_owned ?g = bytes (ph, page_bytes)" "page_owned ?g \<subseteq> owned ncpu xs P"
    using gm by (auto simp: page_owned_def owned_def)
  have "page_owned ?g' = page_owned ?g - bytes (ph + sz, sz)" using szb by (auto simp: page_owned_def)
  then have "owned ncpu xs (P(c := us @ ?g' # zs)) = owned ncpu xs P - bytes (ph + sz, sz)"
    using up(2) m'(3) og szb by auto
  moreover have "bytes (ph + sz, sz) \<subseteq> owned ncpu xs P" using og szb by fastforce
  moreover have "\<forall>x. x \<notin> owned ncpu xs P \<longrightarrow> m' x = mem s x" using fr og by (auto simp: page_region_def)
  moreover have "aligned ncpu xs P \<longrightarrow> aligned ncpu xs (P(c := us @ ?g' # zs)) \<and> sz dvd ph + sz"
    using aligned_page_update [where P = P and g = ?g and g' = ?g', OF c] dvd_trans [OF szb(4), of ph] by simp
  moreover have "pmm_inv ncpu lo hi (s\<lparr>mem := m'\<rparr>) xs (P(c := us @ ?g' # zs))" using up(1) m'(3) by simp
  ultimately have "granted ncpu lo hi (aligned ncpu xs P) (heap_pages xs) (ph + sz) sz (owned ncpu xs P) (mem s) (s\<lparr>mem := m'\<rparr>)"
    using m'(4) ph szb by (intro grantedI [where ys = xs and P' = "P(c := us @ ?g' # zs)"]) auto
  with m'(1) show ?thesis by blast
qed

lemma new_path:
  assumes inv: "pmm_inv ncpu lo hi s xs P" and hl: "heap_lock s = 0" and c: "c < ncpu"
    and sz: "size_class sz" and none: "\<forall>g \<in> set (P c). fst (snd g) \<noteq> 0"
    and tp: "take_page xs = (p, ys)"
  shows "\<exists>s'. fresh_page c sz s = cret (s', p) \<and> heap_lock s' = 0 \<and>
    (\<forall>i. plock (cpupagelist s' i) = plock (cpupagelist s i)) \<and>
    (if p = 0 then pmm_inv ncpu lo hi s' xs P \<and> (\<forall>x. x \<notin> all_bytes xs \<longrightarrow> mem s' x = mem s x)
     else \<exists>m'. start_page p sz (mem s') = cret (m', p + sz) \<and>
       granted ncpu lo hi (aligned ncpu xs P) (heap_pages xs - 1) (p + sz) sz (owned ncpu xs P) (mem s) (s'\<lparr>mem := m'\<rparr>))"
proof -
  note szb = size_class_bounds [OF sz(1)] and pc = pmm_invD(4) [OF inv c]
  have "\<not> (get_size (mem s) (fst g) = 0 \<and> get_pagefreehead_index (mem s) (fst g) > 0)"
    if "g \<in> set (P c)" for g
    using page_conditions(2) [of "mem s" "fst g" "fst (snd g)" "snd (snd g)"] pc none that sz
    by (auto simp: pages_ok_def)
  then have scan: "scan (\<lambda>p. get_size (mem s) p = 0 \<and> get_pagefreehead_index (mem s) p > 0)
      (get_next (mem s)) (pagehead (cpupagelist s c)) = Some 0"
    by (intro page_scan(1) [OF pc]) blast
  obtain s1 where s1: "allockpage s = cret (s1, p)" "heap_lock s1 = 0" "cpupagelist s1 = cpupagelist s"
      "pmm_inv ncpu lo hi s1 ys P" "\<forall>x. x \<notin> all_bytes xs \<longrightarrow> mem s1 x = mem s x"
    and pq: "p = 0 \<and> ys = xs \<or> lo \<le> p \<and> p + page_bytes \<le> hi \<and>
      all_bytes xs = bytes (p, page_bytes) \<union> all_bytes ys \<and> (\<forall>r \<in> set ys. apart r (p, page_bytes)) \<and>
      (\<forall>g \<in> set (all_pages ncpu P). apart (page_region g) (p, page_bytes))"
    using pmm_inv_allockpage [OF inv hl tp] by blast
  show ?thesis
  proof (cases "p = 0")
    case True
    then have "fresh_page c sz s = cret (s1, 0)" using scan s1(1) by (simp add: fresh_page_def)
    moreover have "ys = xs" using pq True pmm_invD(1) [OF inv] by (auto simp: free_ok_def)
    ultimately show ?thesis using True s1 by auto
  next
    case False
    then have p: "lo \<le> p" "p + page_bytes \<le> hi" "all_bytes xs = bytes (p, page_bytes) \<union> all_bytes ys"
      "\<forall>r \<in> set ys. apart r (p, page_bytes)"
      "\<forall>g \<in> set (all_pages ncpu P). apart (page_region g) (p, page_bytes)" using pq by auto
    have hi: "0 < lo" "hi \<le> 9223372036854775808" using pmm_invD(1) [OF inv] by (auto simp: free_ok_def)
    let ?h = "pagehead (cpupagelist s c)"
    let ?m1 = "set_pagefreehead_index (set_size (set_next (mem s1) p ?h) p sz) p 1"
    let ?s2 = "set_pagehead c p (s1\<lparr>mem := ?m1\<rparr>)"
    have run: "fresh_page c sz s = cret (?s2, p)"
      using scan s1(1,3) False by (simp add: fresh_page_def Let_def)
    have h: "u64 ?h = ?h"
    proof (cases "P c")
      case Nil
      then show ?thesis using pc by (simp add: pages_ok_def)
    next
      case (Cons g gs)
      then have "?h = fst g" "page_ok (mem s) g" using pc by (auto simp: pages_ok_def)
      then show ?thesis by (cases g) (auto simp: page_ok_def u64_id)
    qed
    have m1: "get_size ?m1 p = sz" "get_pagefreehead_index ?m1 p = 1" "0 < p"
      "p + page_bytes \<le> 9223372036854775808" "get_next ?m1 p = pagehead (cpupagelist s1 c)"
      using szb p hi h s1(3) by (auto simp: s32_id u32_id)
    let ?g = "(p, sz, [(p + 2 * sz, page_bytes - 2 * sz)]) :: page"
    obtain m' where m': "start_page p sz ?m1 = cret (m', p + sz)" "page_ok m' ?g"
      "get_next m' p = pagehead (cpupagelist s1 c)" "\<forall>x \<in> bytes (p + sz, sz). m' x = 0"
      "\<forall>x. x \<notin> bytes (p, page_bytes) \<longrightarrow> m' x = ?m1 x"
      using start_page_ok [OF sz m1(3,4,1,2)] m1(5) by auto
    have fr: "\<forall>x. x \<notin> bytes (p, page_bytes) \<longrightarrow> m' x = mem s1 x"
      using m'(5) by (auto simp: node_set_frame)
    note add = pmm_inv_page_add [OF s1(4) c, of ?g m', unfolded page_region_def fst_conv, OF p(1,2,4) _ m'(2,3) fr]
    have inv2: "pmm_inv ncpu lo hi (set_pagehead c p (s1\<lparr>mem := m'\<rparr>)) ys (P(c := ?g # P c))"
      and own: "owned ncpu ys (P(c := ?g # P c)) = owned ncpu ys P \<union> page_owned ?g"
      using add p(5) by (auto simp: page_region_def)
    have dis: "bytes (p, page_bytes) \<inter> owned ncpu ys P = {}"
    proof -
      have "bytes (p, page_bytes) \<inter> all_bytes ys = {}"
        using p(4) apart_bytes by (fastforce simp: all_bytes_def simp del: apart_simp)
      moreover have "bytes (p, page_bytes) \<inter> page_owned g = {}" if "g \<in> set (all_pages ncpu P)" for g
        using apart_bytes p(5) that page_owned_within [OF pmm_inv_page(1) [OF s1(4) that]] by blast
      ultimately show ?thesis unfolding owned_def by blast
    qed
    have F: "owned ncpu xs P = bytes (p, page_bytes) \<union> owned ncpu ys P" by (auto simp: owned_def p(3))
    have "page_owned ?g = bytes (p, page_bytes) - bytes (p + sz, sz)" using szb by (auto simp: page_owned_def)
    moreover have blk: "bytes (p + sz, sz) \<subseteq> bytes (p, page_bytes)" using szb by auto
    ultimately have "owned ncpu ys (P(c := ?g # P c)) = owned ncpu xs P - bytes (p + sz, sz)"
      unfolding own F using dis by blast
    moreover have "\<forall>x. x \<notin> owned ncpu xs P \<longrightarrow> m' x = mem s x"
      using fr s1(5) p(3) by (auto simp: owned_def)
    moreover have "aligned ncpu xs P \<longrightarrow> aligned ncpu ys (P(c := ?g # P c)) \<and> sz dvd p + sz"
      using aligned_page_add [OF c, of xs P ?g ys] tp dvd_trans [OF szb(4), of p] by simp
    ultimately have "granted ncpu lo hi (aligned ncpu xs P) (heap_pages xs - 1) (p + sz) sz (owned ncpu xs P) (mem s) (?s2\<lparr>mem := m'\<rparr>)"
      using inv2 m'(4) m1(3) szb blk F heap_pages_take [OF tp] by (intro grantedI [where ys = ys and P' = "P(c := ?g # P c)"]) auto
    then show ?thesis using run m'(1) s1(2,3) False by auto
  qed
qed

lemma kalloc_small_ok:
  assumes inv: "pmm_inv ncpu lo hi s xs P" and q: "quiet ncpu s" and c: "c < ncpu"
    and sz: "size_class sz" and avail: "P c \<noteq> [] \<or> fst (take_page xs) \<noteq> 0"
  shows "\<exists>s' p. kalloc_small ncpu c sz s = cret (s', p) \<and> quiet ncpu s' \<and>
    (granted ncpu lo hi (aligned ncpu xs P) (heap_pages xs - 1) p sz (owned ncpu xs P) (mem s) s' \<or>
     p = 0 \<and> fst (take_page xs) = 0 \<and> (\<forall>g \<in> set (P c). fst (snd g) = sz \<longrightarrow> snd (snd g) = []) \<and>
       pmm_inv ncpu lo hi s' xs P \<and> (\<forall>x. x \<notin> owned ncpu xs P \<longrightarrow> mem s' x = mem s x))"
proof -
  obtain s1 ys Q where s1: "first_page c sz s = cret s1" "pmm_inv ncpu lo hi s1 ys Q" "quiet ncpu s1"
      "owned ncpu ys Q = owned ncpu xs P" "\<forall>x. x \<notin> owned ncpu xs P \<longrightarrow> mem s1 x = mem s x"
      "aligned ncpu xs P \<longrightarrow> aligned ncpu ys Q" "heap_pages xs - 1 \<le> heap_pages ys"
    and Q: "P c \<noteq> [] \<and> ys = xs \<and> Q = P \<or> (\<exists>ph fs. Q c = [(ph, sz, fs)] \<and> fs \<noteq> [])"
    using first_page_ok [OF inv q c sz avail] by blast
  let ?s = "set_plock c 1 s1"
  have inv1: "pmm_inv ncpu lo hi ?s ys Q" using s1(2) by simp
  have hl: "heap_lock ?s = 0" using s1(3) by (simp add: quiet_def)
  note pc = pmm_invD(4) [OF inv1 c]
  have cond: "(u64 (get_size (mem ?s) (fst g)) = sz \<and> get_pagefreehead_index (mem ?s) (fst g) > 0) =
      (fst (snd g) = sz \<and> snd (snd g) \<noteq> [])"
    "(get_size (mem ?s) (fst g) = 0 \<and> get_pagefreehead_index (mem ?s) (fst g) > 0) = (fst (snd g) = 0)"
    if "g \<in> set (Q c)" for g
    using page_conditions [of "mem ?s" "fst g" "fst (snd g)" "snd (snd g)", OF _ sz] pc that
    by (auto simp: pages_ok_def)
  have gr: "granted ncpu lo hi (aligned ncpu xs P) (heap_pages xs - 1) p sz (owned ncpu xs P) (mem s) (set_plock c 0 s2)"
    if "granted ncpu lo hi (aligned ncpu ys Q) k p sz (owned ncpu ys Q) (mem ?s) s2" "heap_pages xs - 1 \<le> k" for p s2 k
    using granted_weaken [OF that(1), of "aligned ncpu xs P" "heap_pages xs - 1" "mem s"] that(2) s1(4-6)
    by (simp add: granted_locks)
  have quiet': "quiet ncpu (set_plock c 0 s2)"
    if "heap_lock s2 = 0" "\<forall>i. plock (cpupagelist s2 i) = plock (cpupagelist ?s i)" for s2
    using that s1(3) by (auto simp: quiet_def)
  let ?fit = "\<lambda>g. fst (snd g) = sz \<and> snd (snd g) \<noteq> []"
  have lk: "lock_cpu c s1 = cret ?s" using s1(3) c by simp
  note run = kalloc_small_def s1(1) lk less_imp_le [OF c]
  show ?thesis
  proof (cases "\<exists>g \<in> set (Q c). ?fit g")
    case True
    then obtain us g zs where g: "Q c = us @ g # zs" "\<forall>h \<in> set us. \<not> ?fit h" "?fit g"
      by (rule first_such)
    obtain ph fs where gg: "g = (ph, sz, fs)" "fs \<noteq> []" using g(3) by (cases g) auto
    have scan: "scan (\<lambda>p. u64 (get_size (mem ?s) p) = sz \<and> get_pagefreehead_index (mem ?s) p > 0)
        (get_next (mem ?s)) (pagehead (cpupagelist ?s c)) = Some (fst g)"
      using g cond(1) by (intro page_scan(2) [OF pc g(1)]) auto
    have "ph \<noteq> 0" using pc g(1) gg by (auto simp: pages_ok_def page_ok_def)
    obtain m' where m': "take_run ph sz (mem ?s) = cret (m', run_head fs)"
      "granted ncpu lo hi (aligned ncpu ys Q) (heap_pages ys) (run_head fs) sz (owned ncpu ys Q) (mem ?s)
        (?s\<lparr>mem := fst (memset m' (run_head fs) 0 sz)\<rparr>)"
      using fast_path [OF inv1 c _ sz gg(2)] g(1) gg(1) by blast
    have "kalloc_small ncpu c sz s =
        cret (set_plock c 0 (?s\<lparr>mem := fst (memset m' (run_head fs) 0 sz)\<rparr>), run_head fs)"
      using scan m'(1) \<open>ph \<noteq> 0\<close> gg(1) by (simp add: run)
    with gr [OF m'(2)] s1(7) quiet' [of "?s\<lparr>mem := fst (memset m' (run_head fs) 0 sz)\<rparr>"] hl show ?thesis by auto
  next
    case False
    then have QP: "P c \<noteq> []" "ys = xs" "Q = P" using Q by auto
    have scan: "scan (\<lambda>p. u64 (get_size (mem ?s) p) = sz \<and> get_pagefreehead_index (mem ?s) p > 0)
        (get_next (mem ?s)) (pagehead (cpupagelist ?s c)) = Some 0"
      using False cond(1) by (intro page_scan(1) [OF pc]) blast
    show ?thesis
    proof (cases "\<exists>g \<in> set (Q c). fst (snd g) = 0")
      case True
      then obtain us g zs where g: "Q c = us @ g # zs" "\<forall>h \<in> set us. \<not> fst (snd h) = 0" "fst (snd g) = 0"
        by (rule first_such)
      have gok: "page_ok (mem ?s) g" using pc g(1) by (simp add: pages_ok_def)
      then obtain ph where gg: "g = (ph, 0, [])" using g(3) by (cases g) (auto simp: page_ok_def)
      then have "ph \<noteq> 0" using gok by (auto simp: page_ok_def)
      have "scan (\<lambda>p. get_size (mem ?s) p = 0 \<and> get_pagefreehead_index (mem ?s) p > 0)
          (get_next (mem ?s)) (pagehead (cpupagelist ?s c)) = Some (fst g)"
        using g cond(2) by (intro page_scan(2) [OF pc g(1)]) auto
      then have fp: "fresh_page c sz ?s = cret (?s\<lparr>mem := set_size (mem ?s) ph sz\<rparr>, ph)"
        using gg \<open>ph \<noteq> 0\<close> by (simp add: fresh_page_def)
      obtain m' where m': "start_page ph sz (set_size (mem ?s) ph sz) = cret (m', ph + sz)"
        "granted ncpu lo hi (aligned ncpu ys Q) (heap_pages ys) (ph + sz) sz (owned ncpu ys Q) (mem ?s) (?s\<lparr>mem := m'\<rparr>)"
        using empty_path [OF inv1 c _ sz] g(1) gg by blast
      have "kalloc_small ncpu c sz s = cret (set_plock c 0 (?s\<lparr>mem := m'\<rparr>), ph + sz)"
        using scan fp m'(1) \<open>ph \<noteq> 0\<close> by (simp add: run)
      with gr [OF m'(2)] s1(7) quiet' [of "?s\<lparr>mem := m'\<rparr>"] hl show ?thesis by auto
    next
      case no: False
      obtain p zs where tp: "take_page ys = (p, zs)" by fastforce
      obtain s2 where s2: "fresh_page c sz ?s = cret (s2, p)" "heap_lock s2 = 0"
        "\<forall>i. plock (cpupagelist s2 i) = plock (cpupagelist ?s i)"
        and res: "if p = 0 then pmm_inv ncpu lo hi s2 ys Q \<and> (\<forall>x. x \<notin> all_bytes ys \<longrightarrow> mem s2 x = mem ?s x)
          else \<exists>m'. start_page p sz (mem s2) = cret (m', p + sz) \<and>
            granted ncpu lo hi (aligned ncpu ys Q) (heap_pages ys - 1) (p + sz) sz (owned ncpu ys Q) (mem ?s) (s2\<lparr>mem := m'\<rparr>)"
        using new_path [OF inv1 hl c sz _ tp] no by blast
      show ?thesis
      proof (cases "p = 0")
        case True
        then have "kalloc_small ncpu c sz s = cret (set_plock c 0 s2, 0)"
          using scan s2(1) by (simp add: run)
        moreover have "quiet ncpu (set_plock c 0 s2)" using quiet' [of s2] s2(2,3) by simp
        moreover have "\<forall>x. x \<notin> owned ncpu xs P \<longrightarrow> mem (set_plock c 0 s2) x = mem s x"
          using res True s1(5) QP by (simp add: owned_def)
        ultimately show ?thesis using res True tp QP False by auto
      next
        case p0: False
        then obtain m' where m': "start_page p sz (mem s2) = cret (m', p + sz)"
          "granted ncpu lo hi (aligned ncpu ys Q) (heap_pages ys - 1) (p + sz) sz (owned ncpu ys Q) (mem ?s) (s2\<lparr>mem := m'\<rparr>)"
          using res by auto
        have "kalloc_small ncpu c sz s = cret (set_plock c 0 (s2\<lparr>mem := m'\<rparr>), p + sz)"
          using scan s2(1) m'(1) p0 by (simp add: run)
        with gr [OF m'(2)] QP(2) quiet' [of "s2\<lparr>mem := m'\<rparr>"] s2(2,3) show ?thesis by auto
      qed
    qed
  qed
qed

subsection \<open>Rounding the size\<close>

lemma round_up_pow:
  assumes "sz \<le> 32 * 2 ^ (j + n)" "32 * 2 ^ (j + n) < (18446744073709551616 :: int)"
  shows "\<exists>k. round_up (32 * 2 ^ j) sz = Some (32 * 2 ^ k) \<and> sz \<le> 32 * 2 ^ k \<and>
    (k = j \<or> j \<le> k \<and> 32 * 2 ^ k < 2 * sz)"
  using assms
proof (induction n arbitrary: j)
  case 0
  then show ?case by (subst round_up.simps) auto
next
  case (Suc n)
  show ?case
  proof (cases "32 * 2 ^ j < sz")
    case False
    then show ?thesis by (subst round_up.simps) auto
  next
    case True
    have "(2 :: int) ^ Suc j \<le> 2 ^ (j + Suc n)" by (intro power_increasing) auto
    then have "32 * 2 ^ Suc j < (18446744073709551616 :: int)" using Suc.prems(2) by linarith
    then have u: "u64 (32 * 2 ^ j * 2) = 32 * 2 ^ Suc j" by (simp add: u64_id)
    have "\<exists>k. round_up (32 * 2 ^ Suc j) sz = Some (32 * 2 ^ k) \<and> sz \<le> 32 * 2 ^ k \<and>
        (k = Suc j \<or> Suc j \<le> k \<and> 32 * 2 ^ k < 2 * sz)"
      by (rule Suc.IH) (use Suc.prems in \<open>simp_all only: add_Suc add_Suc_right\<close>)
    then obtain k where k: "round_up (32 * 2 ^ Suc j) sz = Some (32 * 2 ^ k)" "sz \<le> 32 * 2 ^ k"
      "k = Suc j \<or> Suc j \<le> k \<and> 32 * 2 ^ k < 2 * sz" by blast
    have "round_up (32 * 2 ^ j) sz = round_up (32 * 2 ^ Suc j) sz"
      using True u by (subst round_up.simps) simp
    then show ?thesis using k True by auto
  qed
qed

lemma round_up_from_32:
  assumes "32 < sz" "sz \<le> 16777216"
  obtains k where "round_up 32 sz = Some (32 * 2 ^ k)" "sz \<le> 32 * 2 ^ k" "32 * 2 ^ k < 2 * sz"
proof -
  have "\<exists>k. round_up (32 * 2 ^ 0) sz = Some (32 * 2 ^ k) \<and> sz \<le> 32 * 2 ^ k \<and>
      (k = 0 \<or> 0 \<le> k \<and> 32 * 2 ^ k < 2 * sz)"
    using assms by (intro round_up_pow [of sz 0 19]) auto
  with assms that show ?thesis by auto
qed

lemma size_class_pow: "k \<le> 9 \<Longrightarrow> size_class (32 * 2 ^ k)"
proof -
  assume "k \<le> 9"
  then have "k \<in> {0, 1, 2, 3, 4, 5, 6, 7, 8, 9}" by auto
  then show ?thesis by (auto simp: size_class_def)
qed

lemma kalloc_small_eq:
  assumes "0 \<le> sz" "sz \<le> 16384"
  obtains n where "kalloc ncpu c sz s = kalloc_small ncpu c n s" "size_class n" "sz \<le> n"
    "n = 32 \<or> n < 2 * sz"
proof (cases "sz \<le> 32")
  case True
  then show ?thesis by (intro that [of 32]) (auto simp: kalloc_def size_class_def)
next
  case False
  then obtain k where k: "round_up 32 sz = Some (32 * 2 ^ k)" "sz \<le> 32 * 2 ^ k" "32 * 2 ^ k < 2 * sz"
    using round_up_from_32 [of sz] assms by auto
  have "(2 :: int) ^ k < 2 ^ 10" using k(3) assms by simp
  then have "k < 10" by (rule power_less_imp_less_exp [rotated]) simp
  with k False assms show ?thesis
    by (intro that [of "32 * 2 ^ k"]) (auto simp: kalloc_def intro: size_class_pow)
qed

text \<open>C10. The size loop of \<open>kalloc\<close> ends for every size it is run on, at the least power of two that
  is at least 32 and holds the request.\<close>

theorem round_up_correct:
  assumes "32 < sz" "sz \<le> 16777216"
  shows "\<exists>k. round_up 32 sz = Some (32 * 2 ^ k) \<and> sz \<le> 32 * 2 ^ k \<and> 32 * 2 ^ k < 2 * sz"
  using round_up_from_32 [OF assms] by blast

theorem round_up_correct_witness:
  "\<exists>k. round_up 32 1000 = Some (32 * 2 ^ k) \<and> (1000 :: int) \<le> 32 * 2 ^ k \<and> (32 :: int) * 2 ^ k < 2 * 1000"
  using round_up_correct [of 1000] by simp

text \<open>C2. A request of at most 16 KiB on a processor that has a page, or while the heap has one to give,
  returns.  Either the result is a block of at least the size asked for (less than twice of it
  above 32 bytes) that was free and is now cleared; it is aligned to its own size provided that every free region and
  every page starts at a multiple of 64 KiB, which then stays so (it is so after \<open>pmm_init\<close> on an aligned heap, and freeing a
  small block keeps it; freeing a large block may not); nothing outside free memory was written and exactly the block left the
  free bytes.  Or the result is \<^verbatim>\<open>NULL\<close>, no free region could hold a page, every page of that
  block size was full, and the free bytes are what they were.  No lock stays held.\<close>

theorem kalloc_small_correct:
  assumes "pmm_inv ncpu lo hi s xs P" "quiet ncpu s" "c < ncpu" "0 \<le> sz" "sz \<le> 16384"
    and "P c \<noteq> [] \<or> fst (take_page xs) \<noteq> 0"
  shows "\<exists>n s' p. kalloc ncpu c sz s = cret (s', p) \<and> quiet ncpu s' \<and>
    sz \<le> n \<and> (n = 32 \<or> n < 2 * sz) \<and>
    (granted ncpu lo hi (aligned ncpu xs P) (heap_pages xs - 1) p n (owned ncpu xs P) (mem s) s' \<or>
     p = 0 \<and> fst (take_page xs) = 0 \<and> (\<forall>g \<in> set (P c). fst (snd g) = n \<longrightarrow> snd (snd g) = []) \<and>
       pmm_inv ncpu lo hi s' xs P \<and> (\<forall>x. x \<notin> owned ncpu xs P \<longrightarrow> mem s' x = mem s x))"
proof -
  obtain n where n: "kalloc ncpu c sz s = kalloc_small ncpu c n s" "size_class n" "sz \<le> n"
    "n = 32 \<or> n < 2 * sz"
    using kalloc_small_eq [OF assms(4,5)] by blast
  from kalloc_small_ok [OF assms(1-3) n(2) assms(6)] n show ?thesis by metis
qed

theorem kalloc_small_correct_witness:
  "\<exists>n s' p. kalloc 2 0 100 (boot_state 1048576) = cret (s', p) \<and> quiet 2 s' \<and> 100 \<le> n \<and> n < 200 \<and>
    granted 2 1048576 2097152 True 15 p n (bytes (1048576, 1048576)) (mem (boot_state 1048576)) s'"
  using kalloc_small_correct [OF boot_state_ok(1,2), of 1048576 0 100] by (auto simp: boot_state_owned)

lemma kalloc_first_fails:
  assumes inv: "pmm_inv ncpu lo hi s xs P" and q: "quiet ncpu s" and c: "c < ncpu" "P c = []"
    and sz: "0 \<le> sz" "sz \<le> 16384" and none: "\<forall>r \<in> set xs. snd r < page_bytes"
  shows "kalloc ncpu c sz s = cfail Assert_Fail"
proof -
  obtain n where n: "kalloc ncpu c sz s = kalloc_small ncpu c n s" "size_class n"
    using kalloc_small_eq [OF sz] by blast
  have tp: "take_page xs = (0, xs)" using none by (intro take_page_none) auto
  have ph0: "pagehead (cpupagelist s c) = 0"
    using pmm_invD(4) [OF inv c(1)] c(2) by (simp add: pages_ok_Nil)
  have inv1: "pmm_inv ncpu lo hi (set_plock c 1 s) xs P" and hl: "heap_lock (set_plock c 1 s) = 0"
    using inv q by (simp_all add: quiet_def)
  obtain s1 where "allockpage (set_plock c 1 s) = cret (s1, 0)"
    using pmm_inv_allockpage [OF inv1 hl tp] by blast
  then have "first_page c n s = cfail Assert_Fail"
    using ph0 q c by (simp add: first_page_def Let_def)
  then show ?thesis using n c by (simp add: kalloc_small_def)
qed


text \<open>C11. The first small request of a processor fails its assertion when no free region can hold a page,
  where every later one would return \<^verbatim>\<open>NULL\<close>.\<close>

theorem kalloc_first_out_of_memory:
  assumes "pmm_inv ncpu lo hi s xs P" and "quiet ncpu s" and "c < ncpu" "P c = []"
    and "0 \<le> sz" "sz \<le> 16384" and "\<forall>r \<in> set xs. snd r < page_bytes"
  shows "kalloc ncpu c sz s = cfail Assert_Fail"
  by (rule kalloc_first_fails [OF assms])

theorem kalloc_first_out_of_memory_witness:
  "kalloc 2 0 100 (boot_state 32768) = cfail Assert_Fail"
  by (rule kalloc_first_out_of_memory [OF boot_state_ok(1,2)]) simp_all

text \<open>A request of more than 16 MiB returns \<^verbatim>\<open>NULL\<close> and changes nothing.\<close>

theorem kalloc_too_large: "16777216 < sz \<Longrightarrow> kalloc ncpu c sz s = cret (s, 0)"
  by (simp add: kalloc_def)

theorem kalloc_too_large_witness:
  "kalloc 2 0 16777217 (boot_state 1048576) = cret (boot_state 1048576, 0)"
  by (rule kalloc_too_large) simp

subsection \<open>Large blocks\<close>

lemma kallocHuge_inv:
  assumes inv: "pmm_inv ncpu lo hi s xs P" and q: "quiet ncpu s" and rm: "roomy n xs"
    and n: "0 < n" "n < 2147483648" "16 dvd n" and th: "take_huge n xs = (p, ys)"
  shows "\<exists>s'. kallocHugeMemory n s = cret (s', p) \<and> quiet ncpu s' \<and> pmm_inv ncpu lo hi s' ys P \<and>
    (\<forall>x. x \<notin> owned ncpu xs P \<longrightarrow> mem s' x = mem s x) \<and>
    (p = 0 \<and> ys = xs \<and> (\<forall>r \<in> set xs. snd r < n) \<or>
     0 < p \<and> bytes (p - 16, 16 + n) \<subseteq> owned ncpu xs P \<and>
       owned ncpu ys P = owned ncpu xs P - bytes (p - 16, 16 + n) \<and>
       get_size (mem s') (p - 16) = n \<and> get_magic (mem s') (p - 16) = 7654321)"
proof -
  note i = pmm_invD [OF inv]
  have hl: "heap_lock s = 0" using q by (simp add: quiet_def)
  obtain s' where s': "kallocHugeMemory n s = cret (s', p)" "heap_lock s' = 0"
    "cpupagelist s' = cpupagelist s" "node_list (mem s') (head s') ys"
    "p \<noteq> 0 \<longrightarrow> get_size (mem s') (p - 16) = n \<and> get_magic (mem s') (p - 16) = 7654321"
    "\<forall>x. x \<notin> all_bytes xs \<longrightarrow> mem s' x = mem s x"
    using kallocHugeMemory_refines [OF hl i(3,1) rm n th] by blast
  note th' = take_huge_free_ok [OF i(1) rm n(1,3) th]
  have sub: "all_bytes ys \<subseteq> all_bytes xs" using th' by auto
  have inv': "pmm_inv ncpu lo hi s' ys P"
    using pmm_inv_heap_change [OF inv _ s'(4,3), of "{}"] th' sub s'(6) by simp
  have q': "quiet ncpu s'" using q s'(2,3) by (simp add: quiet_def)
  have fr: "\<forall>x. x \<notin> owned ncpu xs P \<longrightarrow> mem s' x = mem s x" using s'(6) by (simp add: owned_def)
  show ?thesis
  proof (cases "p = 0")
    case True
    moreover have "0 < lo" using i(1) by (simp add: free_ok_def)
    ultimately have "ys = xs" "\<forall>r \<in> set xs. snd r < n" using th' by auto
    then show ?thesis using s'(1) inv' q' fr True by auto
  next
    case False
    then have p: "lo + 16 \<le> p" "all_bytes xs = bytes (p - 16, n + 16) \<union> all_bytes ys"
      "\<forall>r \<in> set ys. apart r (p - 16, n + 16)" using th' by auto
    have "0 < p" using p(1) i(1) by (simp add: free_ok_def)
    have "all_bytes ys \<inter> bytes (p - 16, n + 16) = {}"
      using p(3) apart_bytes unfolding all_bytes_def by blast
    then have "owned ncpu ys P = owned ncpu xs P - bytes (p - 16, n + 16)"
      using owned_heap_change [OF inv, of ys] p(2) pmm_inv_page(4) [OF inv] unfolding owned_def by blast
    moreover have "bytes (p - 16, n + 16) \<subseteq> owned ncpu xs P" unfolding owned_def p(2) by blast
    ultimately show ?thesis
      using s'(1,5) inv' q' fr False \<open>0 < p\<close> by (auto simp: add.commute)
  qed
qed

text \<open>The region a large block is cut from.\<close>

lemma take_huge_highest:
  assumes ok: "free_ok lo hi xs" and th: "take_huge n xs = (p, ys)" and p: "0 < p"
  shows "\<exists>us a l zs. xs = us @ (a, l) # zs \<and> n \<le> l \<and> (\<forall>(b, k) \<in> set xs. n \<le> k \<longrightarrow> b \<le> a) \<and>
    p = a + l - n \<and> ys = us @ (a, l - n - 16) # zs"
proof (cases rule: take_huge_cases [OF ok, of n])
  case 1
  then show ?thesis using th p by simp
next
  case (2 us a l zs)
  have "\<forall>(b, k) \<in> set xs. n \<le> k \<longrightarrow> b \<le> a"
    by (rule high_fit_cases [OF ok, of n]) (use 2(2) in fastforce)+
  with 2 th show ?thesis by (intro exI [of _ us] exI [of _ a] exI [of _ l] exI [of _ zs]) auto
qed

text \<open>C3. A request between 16 KiB and 16 MiB, rounded up to \<open>n\<close>, when no free region that can hold the
  block is too small for its header and a remaining node.  It returns \<^verbatim>\<open>NULL\<close> exactly when no free
  region has \<open>n\<close> bytes, and then the free list is what it was; otherwise the block is the top of the highest region that has
  \<open>n\<close> bytes, the region loses the block and the 16-byte header below it, no other region changes, and exactly these bytes,
  which were free, left the free bytes.  Nothing outside free memory was written and no lock stays held.\<close>

theorem kalloc_large_correct:
  assumes inv: "pmm_inv ncpu lo hi s xs P" and q: "quiet ncpu s" and sz: "16384 < sz" "sz \<le> 16777216"
    and n: "round_up 32 sz = Some n" and rm: "roomy n xs"
  shows "\<exists>s' p ys. kalloc ncpu c sz s = cret (s', p) \<and> sz \<le> n \<and> n < 2 * sz \<and> quiet ncpu s' \<and>
    pmm_inv ncpu lo hi s' ys P \<and> (\<forall>x. x \<notin> owned ncpu xs P \<longrightarrow> mem s' x = mem s x) \<and>
    (p = 0 \<longleftrightarrow> (\<forall>r \<in> set xs. snd r < n)) \<and>
    (if p = 0 then ys = xs
     else 0 < p \<and> bytes (p - 16, 16 + n) \<subseteq> owned ncpu xs P \<and>
       owned ncpu ys P = owned ncpu xs P - bytes (p - 16, 16 + n) \<and>
       get_size (mem s') (p - 16) = n \<and> get_magic (mem s') (p - 16) = 7654321 \<and>
       (\<exists>us a l zs. xs = us @ (a, l) # zs \<and> n \<le> l \<and> (\<forall>(b, k) \<in> set xs. n \<le> k \<longrightarrow> b \<le> a) \<and>
          p = a + l - n \<and> ys = us @ (a, l - n - 16) # zs))"
proof -
  obtain k where k: "round_up 32 sz = Some (32 * 2 ^ k)" "sz \<le> 32 * 2 ^ k" "32 * 2 ^ k < 2 * sz"
    using round_up_from_32 [of sz] sz by auto
  then have nk: "n = 32 * 2 ^ k" using n by simp
  obtain p ys where th: "take_huge n xs = (p, ys)" by fastforce
  have "16 dvd n" unfolding nk by simp
  then obtain s' where s': "kallocHugeMemory n s = cret (s', p)" "quiet ncpu s'" "pmm_inv ncpu lo hi s' ys P"
    "\<forall>x. x \<notin> owned ncpu xs P \<longrightarrow> mem s' x = mem s x"
    "p = 0 \<and> ys = xs \<and> (\<forall>r \<in> set xs. snd r < n) \<or>
     0 < p \<and> bytes (p - 16, 16 + n) \<subseteq> owned ncpu xs P \<and>
       owned ncpu ys P = owned ncpu xs P - bytes (p - 16, 16 + n) \<and>
       get_size (mem s') (p - 16) = n \<and> get_magic (mem s') (p - 16) = 7654321"
    using kallocHuge_inv [OF inv q rm _ _ _ th] k sz nk by auto
  have "kalloc ncpu c sz s = kallocHugeMemory n s" using n sz by (simp add: kalloc_def)
  moreover have "p = 0 \<longleftrightarrow> (\<forall>r \<in> set xs. snd r < n)"
    by (rule take_huge_cases [OF pmm_invD(1) [OF inv], of n]) (use th s'(5) in auto)
  moreover note take_huge_highest [OF pmm_invD(1) [OF inv] th]
  ultimately show ?thesis
    using s' k(2,3) nk by (intro exI [of _ s'] exI [of _ p] exI [of _ ys]) (cases "p = 0"; simp)
qed

theorem kalloc_large_correct_witness:
  "\<exists>s' p ys. kalloc 2 0 100000 (boot_state 1048576) = cret (s', p) \<and> quiet 2 s' \<and>
    pmm_inv 2 1048576 2097152 s' ys (\<lambda>_. []) \<and> p \<noteq> 0 \<and>
    owned 2 ys (\<lambda>_. []) = bytes (1048576, 1048576) - bytes (p - 16, 16 + 131072)"
proof -
  have "round_up 32 100000 = Some 131072" by (simp add: round_up.simps u64_id)
  from kalloc_large_correct [OF boot_state_ok(1,2) _ _ this, of 1048576 0]
  show ?thesis by (auto simp: roomy_def boot_state_owned split: if_splits)
qed

text \<open>C12. A large request that fits the highest fitting free region exactly is given the whole region, when none of the
  16 bytes below the region is free: the header is written to these bytes, which the allocator does not own, and the region, which is the
  block handed out, stays in the free list, in its place and with the size -16, so that its list node lies in the block.\<close>

theorem kallocHugeMemory_exact_fit:
  assumes hl: "heap_lock s = 0" and nl: "node_list (mem s) (head s) xs" and ok: "free_ok lo hi xs"
    and a: "high_fit sz xs = a" "(a, sz) \<in> set xs" "16 \<le> a" and below: "\<forall>r \<in> set xs. apart r (a - 16, 16)"
  shows "\<exists>s' us zs. kallocHugeMemory sz s = cret (s', a) \<and> bytes (a - 16, 16) \<inter> all_bytes xs = {} \<and>
    get_size (mem s') (a - 16) = sz \<and> get_magic (mem s') (a - 16) = 7654321 \<and>
    xs = us @ (a, sz) # zs \<and> node_list (mem s') (head s') (us @ (a, - 16) # zs) \<and> bytes (a, 16) \<subseteq> bytes (a, sz)"
proof -
  note f = free_ok_memD [OF ok a(2)]
  have sz: "get_size (mem s) a = sz" by (rule node_list_sizes [OF nl a(2)])
  have w: "walk (highnode_step (mem s) sz) (get_next (mem s)) (head s) 0 = Some a"
    using high_fit_walk [OF nl ok, of sz] a(1) by simp
  have u: "u64 a = a" "u64 (a + sz - sz) = a" using f by (auto simp: u64_id)
  let ?m = "set_magic (set_size (set_size (mem s) a (- 16)) (a - 16) sz) (a - 16) 7654321"
  have "u64 (a - 16) = a - 16" using f a(3) by (simp add: u64_id)
  then have run: "kallocHugeMemory sz s = cret (s\<lparr>heap_lock := 0, mem := ?m\<rparr>, a)"
    using hl w u f sz by (simp add: kallocHugeMemory_def Let_def)
  obtain us zs where xs: "xs = us @ (a, sz) # zs" using a(2) by (meson split_list)
  have "clear_of a us" "clear_of a zs" using free_ok_clear_of [of lo hi us a sz zs a] ok f by (auto simp: xs)
  then have "node_list (set_size (mem s) a (- 16)) (head s) (us @ (a, - 16) # zs)"
    using nl by (intro node_list_resize [where k = sz]) (auto simp: xs)
  moreover have "apart (fst r, 16) (a - 16, 16)" if "r \<in> set xs" for r
    using below free_ok_memD [OF ok, of "fst r" "snd r"] that by (fastforce simp: apart_def)
  then have "clear_of (a - 16) (us @ (a, - 16) # zs)" by (auto simp: clear_of_def xs)
  ultimately have "node_list ?m (head s) (us @ (a, - 16) # zs)" by simp
  moreover have "bytes (a - 16, 16) \<inter> bytes r = {}" if "r \<in> set xs" for r
    using below that apart_bytes [of r "(a - 16, 16)"] by blast
  then have "bytes (a - 16, 16) \<inter> all_bytes xs = {}" by (auto simp: all_bytes_def)
  moreover have "bytes (a, 16) \<subseteq> bytes (a, sz)" using f by auto
  ultimately show ?thesis
    using f by (intro exI [of _ "s\<lparr>heap_lock := 0, mem := ?m\<rparr>"] exI [of _ us] exI [of _ zs]) (simp add: run xs s32_id)
qed

theorem kallocHugeMemory_exact_fit_witness:
  "\<exists>s'. kallocHugeMemory 32768 (boot_state 32768) = cret (s', 1048576) \<and>
    node_list (mem s') (head s') [(1048576, - 16)] \<and> get_size (mem s') (1048576 - 16) = 32768"
  using kallocHugeMemory_exact_fit [OF _ pmm_invD(3,1) [OF boot_state_ok(1)], of 32768 32768 1048576]
  by (auto simp: boot_state_def high_fit_def Cons_eq_append_conv)

subsection \<open>Clients\<close>

text \<open>The allocator's data lie in the bytes it owns, so clients may write everywhere else.\<close>

lemma page_ok_local:
  assumes ok: "page_ok m g" and same: "\<forall>x \<in> page_owned g. m' x = m x"
  shows "page_ok m' g" "get_next m' (fst g) = get_next m (fst g)"
proof -
  obtain ph sz fs where g: "g = (ph, sz, fs)" by (cases g)
  have hdr: "bytes (ph, node_bytes) \<subseteq> page_owned g"
    using ok size_class_bounds(1) [of sz] by (auto simp: g page_owned_def page_ok_def split: if_splits)
  have eq: "get_next m' q = get_next m q" "get_size m' q = get_size m q" "get_magic m' q = get_magic m q"
    "get_pagefreehead_index m' q = get_pagefreehead_index m q"
    if "bytes (q, node_bytes) \<subseteq> page_owned g" for q
    using that same by (intro node_local; blast)+
  show "get_next m' (fst g) = get_next m (fst g)" using eq(1) [OF hdr] by (simp add: g)
  show "page_ok m' g"
  proof (cases "sz = 0")
    case True
    then show ?thesis using ok eq [OF hdr] by (simp add: g page_ok_def)
  next
    case False
    note p = page_okE [OF ok [unfolded g] False]
    note fo = runs_ok_free_ok [OF p(4,1,2,5)]
    have in_page: "bytes (fst r, node_bytes) \<subseteq> page_owned g" if "r \<in> set fs" for r
      using free_ok_node_bytes [OF fo, of "fst r" "snd r"] that False by (auto simp: g page_owned_def)
    have "node_list m' (run_head fs) fs"
      using in_page same by (intro node_list_frame [OF p(6)]) blast
    then show ?thesis
      unfolding g using eq [OF hdr] eq(3) [OF in_page] p(3,5,7,8)
      by (intro page_ok_rewire [OF ok [unfolded g] False]) auto
  qed
qed

lemma pmm_inv_client:
  assumes inv: "pmm_inv ncpu lo hi s xs P" and same: "\<forall>x \<in> owned ncpu xs P. m' x = mem s x"
  shows "pmm_inv ncpu lo hi (s\<lparr>mem := m'\<rparr>) xs P"
proof -
  note i = pmm_invD [OF inv]
  have g: "\<forall>x \<in> page_owned g. m' x = mem s x" if "j < ncpu" "g \<in> set (P j)" for j g
  proof -
    have "g \<in> set (all_pages ncpu P)" using that by (auto simp: all_pages_mem)
    then show ?thesis using same unfolding owned_def by blast
  qed
  have "pages_ok lo hi (s\<lparr>mem := m'\<rparr>) j (P j)" if j: "j < ncpu" for j
  proof -
    have f: "page_ok m' h" "get_next m' (fst h) = get_next (mem s) (fst h)" if "h \<in> set (P j)" for h
      using page_ok_local [of "mem s" h m'] i(4) [OF j] g [OF j that] that by (auto simp: pages_ok_def)
    have "chain (get_next m') (pagehead (cpupagelist s j)) (map fst (P j)) =
        chain (get_next (mem s)) (pagehead (cpupagelist s j)) (map fst (P j))"
      by (rule chain_cong) (use f(2) in force)
    then show ?thesis using i(4) [OF j] f(1) by (auto simp: pages_ok_def)
  qed
  moreover have "node_list m' (head s) xs"
    using free_ok_node_bytes [OF i(1)] same
    by (intro node_list_frame [OF i(3)]) (force simp: owned_def)
  ultimately show ?thesis using i(1,2,5) by (simp add: pmm_inv_def)
qed

end
