(* ===== verification/Pmm_Free.thy ===== *)
theory Pmm_Free
  imports Pmm_Alloc
begin

text \<open>
  What \<open>kfree\<close> of \<open>kernel/src/pmm.c\<close> promises for a small block of a page that is not full and for a
  large block, and what it does where it goes wrong: on a page that is full it takes the page
  header for a free node.
\<close>

subsection \<open>Finding the page\<close>

definition holds_addr :: "int \<Rightarrow> int \<Rightarrow> bool" where
  "holds_addr ptr ph \<longleftrightarrow> ph < ptr \<and> ptr < u64 (ph + 65536)"

lemma holds_addr_iff:
  assumes "page_ok m g"
  shows "holds_addr ptr (fst g) \<longleftrightarrow> fst g < ptr \<and> ptr < fst g + page_bytes"
  using assms by (cases g) (auto simp: holds_addr_def page_ok_def u64_id)

lemma find_page_of_none:
  assumes "\<forall>i \<in> set is. pages_ok lo hi s i (P i)"
    and "\<forall>i \<in> set is. \<forall>g \<in> set (P i). \<not> holds_addr ptr (fst g)"
  shows "find_page_of ptr s is = Some (0, False)"
  using assms
proof (induction "is")
  case (Cons i "is")
  have "scan (holds_addr ptr) (get_next (mem s)) (pagehead (cpupagelist s i)) = Some 0"
    using Cons.prems by (intro page_scan(1) [where gs = "P i"]) auto
  then show ?case using Cons by (simp add: holds_addr_def [abs_def])
qed simp

lemma find_page_of_found:
  assumes "\<forall>i \<in> set is. pages_ok lo hi s i (P i)"
    and "\<forall>i \<in> set is. \<forall>g \<in> set (P i). holds_addr ptr (fst g) \<longrightarrow> fst g = ph"
    and "j \<in> set is" "h \<in> set (P j)" "fst h = ph" "holds_addr ptr ph" "ph \<noteq> 0"
  shows "find_page_of ptr s is = Some (ph, True)"
  using assms
proof (induction "is")
  case (Cons i "is")
  have pi: "pages_ok lo hi s i (P i)" using Cons.prems(1) by simp
  show ?case
  proof (cases "\<exists>g \<in> set (P i). holds_addr ptr (fst g)")
    case True
    then obtain us g zs where g: "P i = us @ g # zs" "\<forall>h \<in> set us. \<not> holds_addr ptr (fst h)"
      "holds_addr ptr (fst g)" by (rule first_such)
    have "g \<in> set (P i)" using g(1) by simp
    then have "fst g = ph" using Cons.prems(2) g(3) by (meson list.set_intros(1))
    moreover have "scan (holds_addr ptr) (get_next (mem s)) (pagehead (cpupagelist s i)) = Some (fst g)"
      by (rule page_scan(2) [OF pi g])
    ultimately show ?thesis using Cons.prems(7) by (simp add: holds_addr_def [abs_def])
  next
    case False
    then have "j \<noteq> i" using Cons.prems(4-6) by blast
    then have "j \<in> set is" using Cons.prems(3) by simp
    have 1: "\<forall>i \<in> set is. pages_ok lo hi s i (P i)" using Cons.prems(1) by simp
    have 2: "\<forall>i \<in> set is. \<forall>g \<in> set (P i). holds_addr ptr (fst g) \<longrightarrow> fst g = ph"
      using Cons.prems(2) by (meson list.set_intros(2))
    have "find_page_of ptr s is = Some (ph, True)"
      by (rule Cons.IH [OF 1 2 \<open>j \<in> set is\<close> Cons.prems(4-7)])
    moreover have "scan (holds_addr ptr) (get_next (mem s)) (pagehead (cpupagelist s i)) = Some 0"
      using False by (intro page_scan(1) [OF pi]) auto
    ultimately show ?thesis by (simp add: holds_addr_def [abs_def])
  qed
qed simp

lemma page_of_block:
  assumes inv: "pmm_inv ncpu lo hi s xs P" and i: "i < ncpu" "g \<in> set (P i)"
    and ptr: "fst g < ptr" "ptr < fst g + page_bytes"
  shows "find_page_of ptr (set_plock c l s) [0..<ncpu] = Some (fst g, True)"
proof (rule find_page_of_found [where j = i and h = g and P = P and lo = lo and hi = hi])
  have gm: "g \<in> set (all_pages ncpu P)" using i by (auto simp: all_pages_mem)
  note ok = pmm_inv_page(1) [OF inv gm]
  show "holds_addr ptr (fst g)" using holds_addr_iff [OF ok] ptr by simp
  show "fst g \<noteq> 0" using ok by (cases g) (auto simp: page_ok_def)
  show "\<forall>j \<in> set [0..<ncpu]. pages_ok lo hi (set_plock c l s) j (P j)"
    using pmm_invD(4) [OF inv] by (simp add: pages_ok_def)
  have "fst h = fst g" if "j \<in> set [0..<ncpu]" "h \<in> set (P j)" "holds_addr ptr (fst h)" for j h
  proof (rule ccontr)
    assume ne: "fst h \<noteq> fst g"
    have hm: "h \<in> set (all_pages ncpu P)" using that by (auto simp: all_pages_mem)
    have "all_apart (map page_region (all_pages ncpu P))" using pmm_invD(5) [OF inv] by simp
    from all_apart_distinct [OF this hm gm ne] holds_addr_iff [OF pmm_inv_page(1) [OF inv hm], of ptr]
      that(3) ptr show False by (auto simp: apart_def page_region_def)
  qed
  then show "\<forall>j \<in> set [0..<ncpu]. \<forall>h \<in> set (P j). holds_addr ptr (fst h) \<longrightarrow> fst h = fst g" by blast
qed (use i in auto)

subsection \<open>Small blocks\<close>

text \<open>C4. Freeing a small block of a page that is not full, from whatever processor, returns with no lock
  held, keeps the invariant, and writes nothing outside free memory and the block.  No byte
  becomes free that was not free or in the block, and all of them are free afterwards unless
  the block joined two runs of which the upper one was the head of the page's list.\<close>

theorem kfree_small_correct:
  assumes inv: "pmm_inv ncpu lo hi s xs P" and q: "quiet ncpu s" and c: "c < ncpu"
    and i: "i < ncpu" "(ph, sz, fs) \<in> set (P i)" and nz: "sz \<noteq> 0" "fs \<noteq> []"
    and ptr: "run_ok ph sz (ptr, sz)" "\<forall>r \<in> set fs. apart r (ptr, sz)"
  shows "\<exists>s' P'. kfree ncpu c ptr s = cret s' \<and> quiet ncpu s' \<and> pmm_inv ncpu lo hi s' xs P' \<and>
    owned ncpu xs P' \<subseteq> owned ncpu xs P \<union> bytes (ptr, sz) \<and>
    (\<not> lossy ptr sz fs \<longrightarrow> owned ncpu xs P' = owned ncpu xs P \<union> bytes (ptr, sz)) \<and>
    (aligned ncpu xs P \<longrightarrow> aligned ncpu xs P') \<and>
    (\<forall>x. x \<notin> owned ncpu xs P \<union> bytes (ptr, sz) \<longrightarrow> mem s' x = mem s x)"
proof -
  let ?g = "(ph, sz, fs) :: page" and ?g' = "settle ph sz (release ptr sz fs)"
  obtain us zs where sp: "P i = us @ ?g # zs" using i(2) by (meson split_list)
  have gm: "?g \<in> set (all_pages ncpu P)" using i by (auto simp: all_pages_mem)
  note ok = pmm_inv_page(1) [OF inv gm]
  note p = page_okE [OF ok nz(1)] and szb = size_class_bounds [OF page_okE(4) [OF ok nz(1)]]
  note bd = run_ok_bounds [OF p(4) ptr(1)]
  obtain m' where m': "kfree_page ptr ph (mem s) = cret m'" "page_ok m' ?g'"
    "get_next m' ph = get_next (mem s) ph"
    "\<forall>x. x \<notin> page_owned ?g \<union> bytes (ptr, sz) \<longrightarrow> m' x = mem s x"
    using kfree_page_ok [OF ok nz ptr] by blast
  have f: "find_page_of ptr (set_plock c 1 s) [0..<ncpu] = Some (ph, True)"
    using page_of_block [OF inv i, of ptr c 1] bd szb by simp
  have run: "kfree ncpu c ptr s = cret (set_plock c 0 (s\<lparr>mem := m'\<rparr>))"
    using q c f m'(1) p(1) bd szb by (simp add: kfree_def)
  have fst': "fst ?g' = fst ?g" by (simp add: settle_def)
  have blk: "bytes (ptr, sz) \<subseteq> bytes (page_region ?g)" using bd szb by (auto simp: page_region_def)
  have "\<forall>x. x \<notin> bytes (page_region ?g) \<longrightarrow> m' x = mem s x"
    using m'(4) page_owned_within [OF ok] blk by blast
  note up = pmm_inv_page_update [OF inv i(1) sp m'(2) fst' _ this]
  have og: "page_owned ?g \<subseteq> owned ncpu xs P" using gm by (auto simp: owned_def)
  have own: "owned ncpu xs (P(i := us @ ?g' # zs)) = owned ncpu xs P - page_owned ?g \<union> page_owned ?g'"
    using up(2) m'(3) by simp
  note ro = release_owned [OF ok nz ptr]
  have "pmm_inv ncpu lo hi (set_plock c 0 (s\<lparr>mem := m'\<rparr>)) xs (P(i := us @ ?g' # zs))"
    using up(1) m'(3) by simp
  moreover have "quiet ncpu (set_plock c 0 (s\<lparr>mem := m'\<rparr>))" using q by simp
  moreover have "owned ncpu xs (P(i := us @ ?g' # zs)) \<subseteq> owned ncpu xs P \<union> bytes (ptr, sz)"
    unfolding own using ro(1) og by blast
  moreover have "\<not> lossy ptr sz fs \<longrightarrow>
      owned ncpu xs (P(i := us @ ?g' # zs)) = owned ncpu xs P \<union> bytes (ptr, sz)"
    unfolding own using ro(2) og by blast
  moreover have "aligned ncpu xs P \<longrightarrow> aligned ncpu xs (P(i := us @ ?g' # zs))"
    using aligned_page_update(1) [where P = P and g = ?g and g' = ?g', OF i(1) sp fst'] by simp
  moreover have "\<forall>x. x \<notin> owned ncpu xs P \<union> bytes (ptr, sz) \<longrightarrow> m' x = mem s x"
    using m'(4) og by blast
  ultimately show ?thesis unfolding run by (intro exI conjI) (auto simp del: pmm_inv_locks)
qed

text \<open>A heap of one page of 16 KiB blocks, the first of which is in use.\<close>

definition demo_page :: "nat \<Rightarrow> page list" where
  "demo_page = (\<lambda>i. if i = 0 then [(1048576, 16384, [(1081344, 32768)])] else [])"

definition demo_state :: pmm_state where
  "demo_state = \<lparr>mem = set_size (set_next (set_magic (set_pagefreehead_index (set_size (set_next (\<lambda>_. 0)
       1048576 0) 1048576 16384) 1048576 2) 1081344 1234567) 1081344 0) 1081344 32768,
     head = 0, heap_lock = 0,
     cpupagelist = (\<lambda>i. \<lparr>pagehead = (if i = 0 then 1048576 else 0), plock = 0\<rparr>)\<rparr>"

lemma demo_state_ok: "pmm_inv 2 1048576 1114112 demo_state [] demo_page" "quiet 2 demo_state"
proof -
  have "page_ok (mem demo_state) (1048576, 16384, [(1048576 + 2 * 16384, page_bytes - 2 * 16384)])"
    by (rule page_ok_tail)
      (simp_all add: size_class_def demo_state_def node_apart_fields s32_id u32_id)
  moreover have "all_pages 2 demo_page = [(1048576, 16384, [(1081344, 32768)])]"
    by (simp add: all_pages_def demo_page_def upt_rec)
  moreover have "pagehead (cpupagelist demo_state i) = (if i = 0 then 1048576 else 0)"
    "get_next (mem demo_state) 1048576 = 0" "head demo_state = 0" for i
    by (simp_all add: demo_state_def node_apart_fields)
  ultimately show "pmm_inv 2 1048576 1114112 demo_state [] demo_page"
    by (simp add: pmm_inv_def pages_ok_def demo_page_def free_ok_def page_region_def)
  show "quiet 2 demo_state" by (simp add: quiet_def demo_state_def)
qed

theorem kfree_small_correct_witness:
  "\<exists>s' P'. kfree 2 1 1064960 demo_state = cret s' \<and> quiet 2 s' \<and> pmm_inv 2 1048576 1114112 s' [] P' \<and>
    owned 2 [] P' = owned 2 [] demo_page \<union> bytes (1064960, 16384)"
proof -
  have "\<not> lossy 1064960 16384 [(1081344, 32768)]" by (simp add: lossy_def touching_below_def)
  with kfree_small_correct [OF demo_state_ok, of 1 0 1048576 16384 "[(1081344, 32768)]" 1064960]
  show ?thesis by (fastforce simp: demo_page_def run_ok_def)
qed

subsection \<open>Large blocks\<close>

lemma kfree_large_inv:
  assumes inv: "pmm_inv ncpu lo hi s xs P" and q: "quiet ncpu s" and c: "c < ncpu"
    and hdr: "get_magic (mem s) (ptr - 16) = 7654321" "get_size (mem s) (ptr - 16) = sz"
    and blk: "lo \<le> ptr - 16" "16 \<le> sz" "16 dvd sz" "ptr + sz \<le> hi"
    and free: "\<forall>r \<in> set xs. apart r (ptr - 16, 16 + sz)"
      "\<forall>g \<in> set (all_pages ncpu P). apart (page_region g) (ptr - 16, 16 + sz)"
  shows "\<exists>s'. kfree ncpu c ptr s = cret s' \<and> quiet ncpu s' \<and>
    pmm_inv ncpu lo hi s' (give_back (ptr - 16) sz xs) P \<and>
    owned ncpu (give_back (ptr - 16) sz xs) P =
      owned ncpu xs P \<union> bytes (ptr - 16, 16 + sz) - leaked (ptr - 16) sz xs \<and>
    (\<forall>x. x \<notin> owned ncpu xs P \<union> bytes (ptr - 16, 16 + sz) \<longrightarrow> mem s' x = mem s x)"
proof -
  let ?h = "ptr - 16" and ?ys = "give_back (ptr - 16) sz xs" and ?s = "set_plock c 0 s"
  note i = pmm_invD [OF inv]
  have h: "0 < sz" "?h + 16 + sz \<le> hi" using blk by auto
  note gb = give_back_free_ok [OF i(1,2) blk(1-3) h(2) free(1)]
  have "heap_lock ?s = 0" using q by (simp add: quiet_def)
  then obtain s' where s': "kfree_large ptr ?s = cret s'" "heap_lock s' = 0" "cpupagelist s' = cpupagelist ?s"
    "node_list (mem s') (head s') ?ys"
    "\<forall>x. x \<notin> all_bytes xs \<union> bytes (?h, 16 + sz) \<longrightarrow> mem s' x = mem s x"
    using kfree_large_refines [of ?s xs lo hi ?h sz] i(1-3) hdr blk(1) h free(1) by auto
  have find: "find_page_of ptr (set_plock c 1 s) [0..<ncpu] = Some (0, False)"
  proof (rule find_page_of_none)
    show "\<forall>j \<in> set [0..<ncpu]. pages_ok lo hi (set_plock c 1 s) j (P j)"
      using i(4) by (simp add: pages_ok_def)
    have "\<not> holds_addr ptr (fst g)" if "j < ncpu" "g \<in> set (P j)" for j g
    proof -
      have gm: "g \<in> set (all_pages ncpu P)" using that by (auto simp: all_pages_mem)
      with free(2) holds_addr_iff [OF pmm_inv_page(1) [OF inv gm], of ptr] blk(2)
      show ?thesis by (force simp: apart_def page_region_def)
    qed
    then show "\<forall>j \<in> set [0..<ncpu]. \<forall>g \<in> set (P j). \<not> holds_addr ptr (fst g)" by simp
  qed
  have "0 < lo" using i(1) by (simp add: free_ok_def)
  then have run: "kfree ncpu c ptr s = cret s'"
    using q c find s'(1) blk(1) by (simp add: kfree_def)
  have B: "\<forall>g \<in> set (all_pages ncpu P). bytes (page_region g) \<inter> bytes (?h, 16 + sz) = {}"
    using free(2) apart_bytes by blast
  have "pmm_inv ncpu lo hi ?s xs P" using inv by simp
  from pmm_inv_heap_change [OF this _ s'(4,3) B] gb s'(5) have inv': "pmm_inv ncpu lo hi s' ?ys P" by auto
  have q': "quiet ncpu s'" using q s'(2,3) by (auto simp: quiet_def)
  have "page_owned g \<inter> leaked ?h sz xs = {}" if gm: "g \<in> set (all_pages ncpu P)" for g
  proof -
    have "leaked ?h sz xs \<subseteq> all_bytes xs \<union> bytes (?h, 16 + sz)"
      using leaked_within [OF i(1) blk(2)] by auto
    moreover have "page_owned g \<subseteq> bytes (page_region g)" by (rule page_owned_within [OF pmm_inv_page(1) [OF inv gm]])
    moreover have "bytes (page_region g) \<inter> all_bytes xs = {}"
      using pmm_inv_page(4) [OF inv gm] apart_bytes unfolding all_bytes_def by blast
    ultimately show ?thesis using B gm by blast
  qed
  then have "owned ncpu ?ys P = owned ncpu xs P \<union> bytes (?h, 16 + sz) - leaked ?h sz xs"
    using gb unfolding owned_def by blast
  moreover have "\<forall>x. x \<notin> owned ncpu xs P \<union> bytes (?h, 16 + sz) \<longrightarrow> mem s' x = mem s x"
    using s'(5) unfolding owned_def by blast
  ultimately show ?thesis using run inv' q' by blast
qed

text \<open>C5. Freeing a large block, from whatever processor, returns with no lock held and keeps the
  invariant; the free regions become \<open>give_back\<close>, which are the old ones and the block with its
  header, joined where they touch, less the 16 bytes that are lost when no free region ends at the
  header.  Nothing outside free memory and the block is written.\<close>

theorem kfree_large_correct:
  assumes "pmm_inv ncpu lo hi s xs P" "quiet ncpu s" "c < ncpu"
    and "get_magic (mem s) (ptr - 16) = 7654321" "get_size (mem s) (ptr - 16) = sz"
    and "lo \<le> ptr - 16" "16 \<le> sz" "16 dvd sz" "ptr + sz \<le> hi"
    and "\<forall>r \<in> set xs. apart r (ptr - 16, 16 + sz)"
      "\<forall>g \<in> set (all_pages ncpu P). apart (page_region g) (ptr - 16, 16 + sz)"
  shows "\<exists>s'. kfree ncpu c ptr s = cret s' \<and> quiet ncpu s' \<and>
    pmm_inv ncpu lo hi s' (give_back (ptr - 16) sz xs) P \<and>
    owned ncpu (give_back (ptr - 16) sz xs) P =
      owned ncpu xs P \<union> bytes (ptr - 16, 16 + sz) - leaked (ptr - 16) sz xs \<and>
    (\<forall>x. x \<notin> owned ncpu xs P \<union> bytes (ptr - 16, 16 + sz) \<longrightarrow> mem s' x = mem s x)"
  by (rule kfree_large_inv [OF assms])

text \<open>A heap whose only memory is one large block, in use.\<close>

definition demo_large :: pmm_state where
  "demo_large = \<lparr>mem = set_magic (set_size (\<lambda>_. 0) 1048576 32768) 1048576 7654321,
     head = 0, heap_lock = 0, cpupagelist = (\<lambda>i. \<lparr>pagehead = 0, plock = 0\<rparr>)\<rparr>"

theorem kfree_large_correct_witness:
  "\<exists>s'. kfree 2 0 1048592 demo_large = cret s' \<and> pmm_inv 2 1048576 1081360 s' [(1048576, 32768)] (\<lambda>_. []) \<and>
    owned 2 [(1048576, 32768)] (\<lambda>_. []) = bytes (1048576, 32784) - bytes (1081344, 16)"
proof -
  have inv: "pmm_inv 2 1048576 1081360 demo_large [] (\<lambda>_. [])" "quiet 2 demo_large"
    by (simp_all add: demo_large_def pmm_inv_def pages_ok_def free_ok_def quiet_def)
  have "give_back 1048576 32768 [] = [(1048576, 32768)]" "leaked 1048576 32768 [] = bytes (1081344, 16)"
    by (simp_all add: give_back_def leaked_def touching_below_def touching_above_def)
  moreover have "get_magic (mem demo_large) 1048576 = 7654321" "get_size (mem demo_large) 1048576 = 32768"
    by (simp_all add: demo_large_def s32_id)
  ultimately show ?thesis
    using kfree_large_correct [OF inv, of 0 1048592 32768] by (auto simp: owned_def)
qed

text \<open>C6. A large block that is freed right after it was allocated leaves the free list as it was, when a free
  region can hold it, none that can is too small for the header and a remaining node beside the block (an exact fit, say), and the
  free regions do not touch each other.\<close>

theorem kfree_kalloc_large:
  assumes inv: "pmm_inv ncpu lo hi s xs P" and q: "quiet ncpu s" and c: "c < ncpu" "d < ncpu"
    and sz: "16384 < sz" "sz \<le> 16777216" and n: "round_up 32 sz = Some n" and rm: "roomy n xs"
    and fit: "\<exists>r \<in> set xs. n \<le> snd r" and coal: "\<forall>r \<in> set xs. \<forall>t \<in> set xs. fst r \<noteq> fst t + snd t"
  shows "\<exists>s1 p s2. kalloc ncpu c sz s = cret (s1, p) \<and> p \<noteq> 0 \<and> kfree ncpu d p s1 = cret s2 \<and>
    quiet ncpu s2 \<and> pmm_inv ncpu lo hi s2 xs P"
proof -
  note i = pmm_invD [OF inv]
  obtain k where k: "round_up 32 sz = Some (32 * 2 ^ k)" "sz \<le> 32 * 2 ^ k" "32 * 2 ^ k < 2 * sz"
    using round_up_from_32 [of sz] sz by auto
  then have nk: "0 < n" "n < 2147483648" "16 dvd n" "16 \<le> n" using n sz by auto
  obtain p ys where th: "take_huge n xs = (p, ys)" by fastforce
  obtain s1 where s1: "kallocHugeMemory n s = cret (s1, p)" "quiet ncpu s1" "pmm_inv ncpu lo hi s1 ys P"
    and p: "p = 0 \<and> ys = xs \<and> (\<forall>r \<in> set xs. snd r < n) \<or>
     0 < p \<and> bytes (p - 16, 16 + n) \<subseteq> owned ncpu xs P \<and>
       owned ncpu ys P = owned ncpu xs P - bytes (p - 16, 16 + n) \<and>
       get_size (mem s1) (p - 16) = n \<and> get_magic (mem s1) (p - 16) = 7654321"
    using kallocHuge_inv [OF inv q rm nk(1-3) th] by blast
  have p0: "p \<noteq> 0" "get_size (mem s1) (p - 16) = n" "get_magic (mem s1) (p - 16) = 7654321"
    using p fit by (auto simp: not_less)
  have tk: "lo + 16 \<le> p" "p + n \<le> hi" "all_bytes xs = bytes (p - 16, n + 16) \<union> all_bytes ys"
    "\<forall>r \<in> set ys. apart r (p - 16, n + 16)"
    using take_huge_free_ok [OF i(1) rm nk(1,3) th] p0(1) by auto
  have "apart (page_region g) (p - 16, 16 + n)" if gm: "g \<in> set (all_pages ncpu P)" for g
  proof -
    have "bytes (page_region g) \<inter> all_bytes xs = {}"
      using pmm_inv_page(4) [OF inv gm] apart_bytes unfolding all_bytes_def by blast
    then have "bytes (page_region g) \<inter> bytes (p - 16, 16 + n) = {}" using tk(3) by (auto simp: add.commute)
    then show ?thesis using nk(1) by (subst apart_iff) (simp_all add: page_region_def)
  qed
  with tk nk have "\<exists>s2. kfree ncpu d p s1 = cret s2 \<and> quiet ncpu s2 \<and>
      pmm_inv ncpu lo hi s2 (give_back (p - 16) n ys) P"
    using kfree_large_inv [OF s1(3,2) c(2) p0(3,2)] by (simp add: add.commute) blast
  moreover have "\<forall>r \<in> set xs. fst r \<noteq> p + n"
  proof (cases rule: take_huge_cases [OF i(1), of n])
    case 1
    with th p0 show ?thesis by simp
  next
    case (2 us a l zs)
    then have "p + n = a + l" "(a, l) \<in> set xs" using th by auto
    with coal show ?thesis by fastforce
  qed
  then have "give_back (p - 16) n ys = xs"
    by (rule give_back_take_huge [OF i(1) rm nk(1) th p0(1)])
  moreover have "kalloc ncpu c sz s = cret (s1, p)" using n sz s1(1) by (simp add: kalloc_def)
  ultimately show ?thesis using p0 by auto
qed

theorem kfree_kalloc_large_witness:
  "\<exists>s1 p s2. kalloc 2 0 100000 (boot_state 1048576) = cret (s1, p) \<and> p \<noteq> 0 \<and> kfree 2 1 p s1 = cret s2 \<and>
    quiet 2 s2 \<and> pmm_inv 2 1048576 2097152 s2 [(1048576, 1048576)] (\<lambda>_. [])"
proof -
  have "round_up 32 100000 = Some 131072" by (simp add: round_up.simps u64_id)
  from kfree_kalloc_large [OF boot_state_ok(1,2) _ _ _ _ this, of 1048576 0 1]
  show ?thesis by (simp add: roomy_def)
qed

subsection \<open>Where \<open>kfree\<close> goes wrong\<close>

text \<open>In a full page the search for the neighbours of the first block starts at the page's own header and goes on over the
  headers of the pages behind it.\<close>

lemma neighbours_far:
  assumes "\<forall>q \<in> set qs. q + page_bytes \<le> ph \<or> ph + page_bytes \<le> q" "0 < ph" "ph < ptr" "ptr < ph + page_bytes"
    and "a = 0 \<or> ph + page_bytes \<le> a"
  shows "\<exists>a'. fold (neighbour_step ptr) qs (ph, a) = (ph, a') \<and> (a' = 0 \<or> ph + page_bytes \<le> a')"
  using assms(1,5)
proof (induction qs arbitrary: a)
  case (Cons q qs)
  then have "\<exists>b. neighbour_step ptr q (ph, a) = (ph, b) \<and> (b = 0 \<or> ph + page_bytes \<le> b)"
    using assms(2-4) by (auto simp: neighbour_step_def)
  with Cons show ?case by auto
qed simp

lemma kfree_page_full:
  assumes ok: "page_ok m (ph, sz, [])" and nz: "sz \<noteq> 0" "sz < 16384"
    and ch: "chain (get_next m) ph (ph # qs)" and far: "\<forall>q \<in> set qs. q + page_bytes \<le> ph \<or> ph + page_bytes \<le> q"
  shows "\<exists>m'. kfree_page (ph + sz) ph m = cret m' \<and> get_size m' ph = 2 * sz \<and> get_pagefreehead_index m' ph = 0"
proof -
  note p = page_okE [OF ok nz(1)] and szb = size_class_bounds [OF page_okE(4) [OF ok nz(1)]]
  define m1 where "m1 = fst (memset m (ph + sz) 0 sz)"
  have idx: "get_pagefreehead_index m ph = 0" using p(7) by (simp add: run_index_def)
  have m1: "get_size m1 ph = sz" "get_pagefreehead_index m1 ph = 0" "get_next m1 ph = get_next m ph"
    using node_local [of ph m1 m] szb p(3) idx by (auto simp: m1_def memset_eq)
  have "get_next m1 q = get_next m q" if "q \<in> set (ph # qs)" for q
    using that far m1(3) node_local(1) [of q m1 m] szb nz by (fastforce simp: m1_def memset_eq)
  then have ch1: "chain (get_next m1) ph (ph # qs)" using ch chain_cong [of "ph # qs" "get_next m1" "get_next m" ph] by blast
  have u: "u64 ph = ph" "u64 (ph + sz) = ph + sz" "u64 sz = sz" "s32 (2 * sz) = 2 * sz" "u64 (3 * sz + ph) = 3 * sz + ph"
    using p(1,2) szb nz by (auto simp: u64_id s32_id)
  obtain a where a: "fold (neighbour_step (ph + sz)) qs (ph, 0) = (ph, a)" "a = 0 \<or> ph + page_bytes \<le> a"
    using neighbours_far [OF far p(1), of "ph + sz" 0] szb nz by auto
  have "fold (neighbour_step (ph + sz)) (ph # qs) (0, 0) = (ph, a)" using a(1) p(1) szb by (simp add: neighbour_step_def)
  then have w: "walk (neighbour_step (ph + sz)) (get_next m1) ph (0, 0) = Some (ph, a)"
    using walk_chain [OF ch1, of "neighbour_step (ph + sz)" "(0, 0)"] by simp
  have "3 * sz + ph \<noteq> a" using a(2) p(1) szb nz by auto
  then have "page_merge (ph + sz) ph ph a m1 = cret (set_size m1 ph (2 * sz))"
    using m1 u p(1) nz szb by (simp add: page_merge_def Let_def)
  moreover have "page_run_head m1 ph = ph" using m1 u by (simp add: page_run_head_def)
  ultimately have "kfree_page (ph + sz) ph m = cret (set_size m1 ph (2 * sz))"
    using w u p(3) by (simp add: kfree_page_def m1_def [symmetric])
  then show ?thesis using u m1 by simp
qed

text \<open>C13. Freeing the first block of a full page, wherever the page stands and whichever processor frees (blocks of
  less than 16 KiB), takes the page header for the free run below the block:
  the block size recorded in the header is doubled, the page still counts as full, so the block does not become free, and
  the allocator's invariant does not hold of the result with any page of the old block size at that place.\<close>

theorem kfree_full_page_corrupts:
  assumes inv: "pmm_inv ncpu lo hi s xs P" and q: "quiet ncpu s" and c: "c < ncpu"
    and i: "i < ncpu" "(ph, sz, []) \<in> set (P i)" and nz: "sz \<noteq> 0" "sz < 16384"
  shows "\<exists>s'. kfree ncpu c (ph + sz) s = cret s' \<and> get_size (mem s') ph = 2 * sz \<and>
    get_pagefreehead_index (mem s') ph = 0 \<and> (\<forall>fs. \<not> page_ok (mem s') (ph, sz, fs))"
proof -
  let ?g = "(ph, sz, []) :: page"
  obtain us zs where sp: "P i = us @ ?g # zs" using i(2) by (meson split_list)
  have gm: "?g \<in> set (all_pages ncpu P)" using i by (auto simp: all_pages_mem)
  note ok = pmm_inv_page(1) [OF inv gm]
  note p = page_okE [OF ok nz(1)] and szb = size_class_bounds [OF page_okE(4) [OF ok nz(1)]]
  have all: "chain (get_next (mem s)) (pagehead (cpupagelist s i)) (map fst us @ ph # map fst zs)"
    using pmm_invD(4) [OF inv i(1)] sp by (simp add: pages_ok_def)
  then have ch: "chain (get_next (mem s)) ph (ph # map fst zs)" by (auto simp: chain_split)
  have "fst h + page_bytes \<le> ph \<or> ph + page_bytes \<le> fst h" if h: "h \<in> set zs" for h
  proof -
    have "fst h \<noteq> ph" using chain_distinct [OF all] h by force
    moreover have "h \<in> set (all_pages ncpu P)" using h i(1) sp by (auto simp: all_pages_mem)
    moreover have "all_apart (map page_region (all_pages ncpu P))" using pmm_invD(5) [OF inv] by simp
    ultimately show ?thesis using all_apart_distinct [of "all_pages ncpu P" h ?g] gm by (auto simp: apart_def page_region_def)
  qed
  then obtain m' where m': "kfree_page (ph + sz) ph (mem s) = cret m'" "get_size m' ph = 2 * sz" "get_pagefreehead_index m' ph = 0"
    using kfree_page_full [OF ok nz ch] by auto
  have f: "find_page_of (ph + sz) (set_plock c 1 s) [0..<ncpu] = Some (ph, True)"
    using page_of_block [OF inv i, of "ph + sz" c 1] szb nz by simp
  have "kfree ncpu c (ph + sz) s = cret (set_plock c 0 (s\<lparr>mem := m'\<rparr>))"
    using q c f m'(1) p(1) szb by (simp add: kfree_def)
  moreover have "\<not> page_ok m' (ph, sz, fs)" for fs using m'(2) nz(1) by (simp add: page_ok_def)
  ultimately show ?thesis using m'(2,3) by simp
qed

text \<open>A page of 8 KiB blocks that is full.\<close>

definition full_page :: "nat \<Rightarrow> page list" where
  "full_page = (\<lambda>i. if i = 0 then [(1048576, 8192, [])] else [])"

definition full_state :: pmm_state where
  "full_state = \<lparr>mem = set_size (\<lambda>_. 0) 1048576 8192, head = 0, heap_lock = 0,
     cpupagelist = (\<lambda>i. \<lparr>pagehead = (if i = 0 then 1048576 else 0), plock = 0\<rparr>)\<rparr>"

lemma full_state_ok: "pmm_inv 2 1048576 1114112 full_state [] full_page" "quiet 2 full_state"
proof -
  have z: "get_next (\<lambda>_. 0) p = 0" "get_pagefreehead_index (\<lambda>_. 0) p = 0" for p
    by (simp_all add: node_defs load64_def load32_def)
  have "page_ok (mem full_state) (1048576, 8192, [])"
    using z by (simp add: full_state_def page_ok_def size_class_def runs_ok_def run_index_def run_head_def s32_id)
  moreover have "all_pages 2 full_page = [(1048576, 8192, [])]"
    by (simp add: all_pages_def full_page_def upt_rec)
  moreover have "pagehead (cpupagelist full_state i) = (if i = 0 then 1048576 else 0)"
    "get_next (mem full_state) 1048576 = 0" "head full_state = 0" for i
    using z by (simp_all add: full_state_def)
  ultimately show "pmm_inv 2 1048576 1114112 full_state [] full_page"
    by (simp add: pmm_inv_def pages_ok_def full_page_def free_ok_def page_region_def)
  show "quiet 2 full_state" by (simp add: quiet_def full_state_def)
qed

theorem kfree_full_page_corrupts_witness:
  "\<exists>s'. kfree 2 1 (1048576 + 8192) full_state = cret s' \<and> get_size (mem s') 1048576 = 2 * 8192 \<and>
    get_pagefreehead_index (mem s') 1048576 = 0"
  using kfree_full_page_corrupts [OF full_state_ok, of 1 0 1048576 8192] by (auto simp: full_page_def)

text \<open>When the freed block touches a run on both sides and the upper run is the head of the page's
  list, the runs that stand between it and the lower one in the list are lost.\<close>

theorem kfree_drops_runs:
  assumes ok: "page_ok m (ph, sz, (ptr + sz, k) # us @ (b, n) # zs)" and nz: "sz \<noteq> 0" and b: "b + n = ptr"
    and ptr: "run_ok ph sz (ptr, sz)" "\<forall>r \<in> set ((ptr + sz, k) # us @ (b, n) # zs). apart r (ptr, sz)"
  shows "\<exists>m'. kfree_page ptr ph m = cret m' \<and> page_ok m' (settle ph sz ((b, n + sz + k) # zs))"
proof -
  let ?fs = "(ptr + sz, k) # us @ (b, n) # zs"
  note p = page_okE [OF ok nz]
  note fo = runs_ok_free_ok [OF p(4,1,2,5)]
  have d: "distinct (map fst ?fs)" by (rule free_ok_distinct [OF fo])
  have "fst r + snd r \<noteq> ptr" if "r \<in> set ((ptr + sz, k) # us)" for r
  proof
    assume r: "fst r + snd r = ptr"
    have "r \<noteq> (b, n)" using that d by force
    moreover have "r \<in> set ?fs" "(b, n) \<in> set ?fs" using that by auto
    ultimately have "apart r (b, n)" using free_ok_apart [OF fo] by blast
    moreover have "0 < snd r" "0 < n"
      using free_ok_memD(4) [OF fo, of "fst r" "snd r"] free_ok_memD(4) [OF fo, of b n] that by auto
    ultimately show False using r b by (auto simp: apart_def)
  qed
  then have below: "touching_below ?fs ptr = Some (b, n)"
    using find_skip [of "(ptr + sz, k) # us" "\<lambda>r. fst r + snd r = ptr" "(b, n) # zs"] b
    by (simp add: touching_below_def)
  have above: "touching_above ?fs (ptr + sz) = Some (ptr + sz, k)" by (simp add: touching_above_def)
  have ne: "ptr + sz \<noteq> b" "b \<notin> fst ` set us" "ptr + sz \<notin> fst ` set us" "ptr + sz \<notin> fst ` set zs"
    using d by auto
  have rs: "resize b v ?fs = (ptr + sz, k) # us @ (b, v) # zs" for v
    using resize_split [of "(ptr + sz, k) # us" b n zs v] d by simp
  have "without (ptr + sz) ((ptr + sz, k) # us @ (b, v) # zs) = us @ (b, v) # zs" for v
    using ne filter_split [of "[]" "ptr + sz" k "us @ (b, v) # zs"] d by (simp add: without_def)
  then have join: "join ptr sz sz ?fs = us @ (b, n + sz + k) # zs"
    by (simp add: join_def below above rs)
  have "dropWhile (\<lambda>r. fst r \<noteq> b) (us @ (b, n + sz + k) # zs) = (b, n + sz + k) # zs"
    using ne(2) by (subst dropWhile_append2) force+
  then have "release ptr sz ?fs = (b, n + sz + k) # zs"
    by (simp add: release_def below lossy_def join)
  with kfree_page_ok [OF ok nz _ ptr] show ?thesis by auto
qed

text \<open>A page of 8 KiB blocks whose free list is block 4, block 6, block 2.\<close>

definition put_node :: "int \<Rightarrow> int \<Rightarrow> int \<Rightarrow> mem \<Rightarrow> mem" where
  "put_node p v q m = set_magic (set_size (set_next m p q) p v) p 1234567"

definition demo_runs :: mem where
  "demo_runs = put_node 1064960 8192 0 (put_node 1097728 8192 1064960 (put_node 1081344 8192 1097728
     (set_pagefreehead_index (set_size (\<lambda>_. 0) 1048576 8192) 1048576 4)))"

theorem kfree_drops_runs_witness:
  "\<exists>m'. kfree_page 1073152 1048576 demo_runs = cret m' \<and>
    page_ok m' (1048576, 8192, [(1064960, 24576)])"
proof -
  have "page_ok demo_runs (1048576, 8192, (1073152 + 8192, 8192) # [(1097728, 8192)] @ [(1064960, 8192)])"
    by (simp add: page_ok_def size_class_def runs_ok_def run_ok_def run_head_def run_index_def demo_runs_def
        put_node_def node_apart_fields s32_id u32_id u64_id)
  from kfree_drops_runs [OF this] show ?thesis by (simp add: run_ok_def settle_def)
qed

end
