(* ===== verification/Pmm_Client.thy ===== *)
theory Pmm_Client
  imports Pmm_Free
begin

text \<open>
  The allocator seen by its clients.  The locale \<open>allocator\<close> is the contract: an abstract set of free
  bytes, an allocation function, and memory that clients read and write.  Programs of
  clients are lists of requests and writes; what they see is described by \<open>view\<close>, a
  private memory that is zero when allocated and holds what was written last.
  The contract is interpreted on \<open>kalloc\<close> of \<open>kernel/src/pmm.c\<close>.
\<close>

subsection \<open>Programs of clients\<close>

datatype 'r client_op = Alloc 'r | Write int "8 word"

type_synonym 's client = "'s \<times> region list \<times> (int \<Rightarrow> 8 word option)"

text \<open>Writes go to blocks the clients hold; others are left out.\<close>

definition in_blocks :: "int \<Rightarrow> region list \<Rightarrow> bool" where
  "in_blocks x bs = list_ex (\<lambda>b. fst b \<le> x \<and> x < fst b + snd b) bs"

fun client_run :: "('r \<Rightarrow> 's \<Rightarrow> ('s \<times> int) cres) \<Rightarrow> ('r \<Rightarrow> int) \<Rightarrow> (int \<Rightarrow> 8 word \<Rightarrow> 's \<Rightarrow> 's) \<Rightarrow>
    'r client_op list \<Rightarrow> 's client \<Rightarrow> 's client cres" where
  "client_run alloc want poke [] st = cret st"
| "client_run alloc want poke (Alloc r # ops) (s, bs, view) =
     cbind (alloc r s) (\<lambda>(s', p).
       client_run alloc want poke ops
         (if p = 0 then (s', bs, view)
          else (s', (p, want r) # bs, \<lambda>x. if p \<le> x \<and> x < p + want r then Some 0 else view x)))"
| "client_run alloc want poke (Write x v # ops) (s, bs, view) =
     client_run alloc want poke ops
       (if in_blocks x bs then (poke x v s, bs, view(x \<mapsto> v)) else (s, bs, view))"

definition disjoint_blocks :: "region list \<Rightarrow> bool" where
  "disjoint_blocks bs = sorted_wrt (\<lambda>r t. bytes r \<inter> bytes t = {}) bs"

lemma in_blocks_iff: "in_blocks x bs \<longleftrightarrow> x \<in> all_bytes bs"
  by (induction bs) (auto simp: in_blocks_def bytes_def)

lemma disjoint_blocks_Cons [simp]:
  "disjoint_blocks (b # bs) \<longleftrightarrow> bytes b \<inter> all_bytes bs = {} \<and> disjoint_blocks bs"
  by (auto simp: disjoint_blocks_def all_bytes_def)

subsection \<open>The contract\<close>

locale allocator =
  fixes owns :: "'s \<Rightarrow> int set \<Rightarrow> bool"
    and alloc :: "'r \<Rightarrow> 's \<Rightarrow> ('s \<times> int) cres"
    and want :: "'r \<Rightarrow> int"
    and good :: "'r \<Rightarrow> bool"
    and peek :: "'s \<Rightarrow> int \<Rightarrow> 8 word"
    and poke :: "int \<Rightarrow> 8 word \<Rightarrow> 's \<Rightarrow> 's"
  assumes alloc_block: "owns s F \<Longrightarrow> good r \<Longrightarrow> alloc r s = cret (s', p) \<Longrightarrow> p \<noteq> 0 \<Longrightarrow>
      \<exists>F'. owns s' F' \<and> F' \<subseteq> F \<and> bytes (p, want r) \<subseteq> F - F' \<and> (\<forall>x \<in> bytes (p, want r). peek s' x = 0)"
    and alloc_null: "owns s F \<Longrightarrow> good r \<Longrightarrow> alloc r s = cret (s', p) \<Longrightarrow> p = 0 \<Longrightarrow> owns s' F"
    and alloc_frame: "owns s F \<Longrightarrow> good r \<Longrightarrow> alloc r s = cret (s', p) \<Longrightarrow> x \<notin> F \<Longrightarrow> peek s' x = peek s x"
    and poke_owns: "owns s F \<Longrightarrow> x \<notin> F \<Longrightarrow> owns (poke x v s) F"
    and peek_poke: "peek (poke x v s) y = (if y = x then v else peek s y)"
begin

text \<open>Blocks are disjoint from each other and from free memory, and hold what their clients put there.\<close>

definition clean :: "'s client \<Rightarrow> bool" where
  "clean st \<longleftrightarrow> (case st of (s, bs, view) \<Rightarrow>
     (\<exists>F. owns s F \<and> F \<inter> all_bytes bs = {}) \<and> disjoint_blocks bs \<and> dom view = all_bytes bs \<and>
     (\<forall>x v. view x = Some v \<longrightarrow> peek s x = v))"

lemma clean_alloc:
  assumes cl: "clean (s, bs, view)" and r: "good r" and a: "alloc r s = cret (s', p)" and p: "p \<noteq> 0"
  shows "clean (s', (p, want r) # bs, \<lambda>x. if p \<le> x \<and> x < p + want r then Some 0 else view x)"
proof -
  obtain F where F: "owns s F" "F \<inter> all_bytes bs = {}" using cl by (auto simp: clean_def)
  obtain F' where F': "owns s' F'" "F' \<subseteq> F" "bytes (p, want r) \<subseteq> F - F'"
    "\<forall>x \<in> bytes (p, want r). peek s' x = 0"
    using alloc_block [OF F(1) r a p] by blast
  have keep: "peek s' x = peek s x" if "x \<in> all_bytes bs" for x
    using alloc_frame [OF F(1) r a, of x] F(2) that by blast
  have "F' \<inter> all_bytes ((p, want r) # bs) = {}" using F(2) F'(2,3) by (simp only: all_bytes_simps) blast
  moreover have "bytes (p, want r) \<inter> all_bytes bs = {}" using F(2) F'(3) by blast
  moreover have "dom (\<lambda>x. if p \<le> x \<and> x < p + want r then Some 0 else view x) = bytes (p, want r) \<union> dom view"
    by (auto simp: dom_def)
  moreover have "peek s' x = v" if "(if p \<le> x \<and> x < p + want r then Some 0 else view x) = Some v" for x v
    using that F'(4) cl keep [of x] by (auto simp: clean_def split: if_splits)
  ultimately show ?thesis using cl F'(1) unfolding clean_def by auto
qed

lemma clean_null:
  assumes "clean (s, bs, view)" "good r" "alloc r s = cret (s', p)" "p = 0"
  shows "clean (s', bs, view)"
proof -
  obtain F where F: "owns s F" "F \<inter> all_bytes bs = {}" using assms(1) by (auto simp: clean_def)
  have "peek s' x = v" if "view x = Some v" for x v
  proof -
    have "x \<in> all_bytes bs" "peek s x = v" using assms(1) that by (auto simp: clean_def)
    then show ?thesis using alloc_frame [OF F(1) assms(2,3), of x] F(2) by blast
  qed
  then show ?thesis using assms(1) F(2) alloc_null [OF F(1) assms(2-4)] by (auto simp: clean_def)
qed

lemma clean_write:
  assumes "clean (s, bs, view)" "in_blocks x bs"
  shows "clean (poke x v s, bs, view(x \<mapsto> v))"
proof -
  obtain F where F: "owns s F" "F \<inter> all_bytes bs = {}" using assms(1) by (auto simp: clean_def)
  then have "owns (poke x v s) F" using poke_owns [of s F x v] assms(2) by (auto simp: in_blocks_iff)
  then show ?thesis
    using assms F(2) by (auto simp: clean_def in_blocks_iff peek_poke insert_absorb)
qed

lemma client_run_clean:
  assumes "clean st" "\<forall>r. Alloc r \<in> set ops \<longrightarrow> good r" "client_run alloc want poke ops st = cret st'"
  shows "clean st'"
  using assms
proof (induction ops arbitrary: st)
  case (Cons op ops)
  obtain s bs view where st: "st = (s, bs, view)" by (cases st)
  have good: "\<forall>r. Alloc r \<in> set ops \<longrightarrow> good r" using Cons.prems(2) by simp
  show ?case
  proof (cases op)
    case (Alloc r)
    then have r: "good r" using Cons.prems(2) by simp
    obtain s' p where a: "alloc r s = cret (s', p)"
      and run: "client_run alloc want poke ops (if p = 0 then (s', bs, view)
        else (s', (p, want r) # bs, \<lambda>x. if p \<le> x \<and> x < p + want r then Some 0 else view x)) = cret st'"
      using Cons.prems(3) Alloc st by (auto simp: cbind_ret_iff)
    show ?thesis
    proof (cases "p = 0")
      case True
      with run have "client_run alloc want poke ops (s', bs, view) = cret st'" by simp
      with Cons.IH [OF clean_null [OF Cons.prems(1) [unfolded st] r a True] good] show ?thesis .
    next
      case False
      with run have "client_run alloc want poke ops (s', (p, want r) # bs,
          \<lambda>x. if p \<le> x \<and> x < p + want r then Some 0 else view x) = cret st'" by simp
      with Cons.IH [OF clean_alloc [OF Cons.prems(1) [unfolded st] r a False] good] show ?thesis .
    qed
  next
    case (Write x v)
    then have run: "client_run alloc want poke ops
        (if in_blocks x bs then (poke x v s, bs, view(x \<mapsto> v)) else (s, bs, view)) = cret st'"
      using Cons.prems(3) st by simp
    show ?thesis
    proof (cases "in_blocks x bs")
      case True
      with run have "client_run alloc want poke ops (poke x v s, bs, view(x \<mapsto> v)) = cret st'" by simp
      with Cons.IH [OF clean_write [OF Cons.prems(1) [unfolded st] True] good] show ?thesis .
    next
      case False
      with run have "client_run alloc want poke ops (s, bs, view) = cret st'" by simp
      with Cons.IH [OF Cons.prems(1) [unfolded st] good] show ?thesis .
    qed
  qed
qed simp

end

subsection \<open>\<open>kalloc\<close> keeps the contract\<close>

definition owns :: "nat \<Rightarrow> int \<Rightarrow> int \<Rightarrow> pmm_state \<Rightarrow> int set \<Rightarrow> bool" where
  "owns ncpu lo hi s F \<longleftrightarrow>
     quiet ncpu s \<and> (\<exists>xs P. pmm_inv ncpu lo hi s xs P \<and> owned ncpu xs P = F)"

text \<open>Requests are pairs of a processor and a size.\<close>

definition small_request :: "nat \<Rightarrow> nat \<times> int \<Rightarrow> bool" where
  "small_request ncpu r \<longleftrightarrow> fst r < ncpu \<and> 0 \<le> snd r \<and> snd r \<le> 16384"

definition poke :: "int \<Rightarrow> 8 word \<Rightarrow> pmm_state \<Rightarrow> pmm_state" where
  "poke x v s = s\<lparr>mem := (mem s)(x := v)\<rparr>"

lemma kalloc_returns:
  assumes inv: "pmm_inv ncpu lo hi s xs P" and q: "quiet ncpu s" and r: "c < ncpu" "0 \<le> n" "n \<le> 16384"
    and run: "kalloc ncpu c n s = cret (s', p)"
  obtains k where "n \<le> k" "quiet ncpu s'"
      "granted ncpu lo hi (aligned ncpu xs P) (heap_pages xs - 1) p k (owned ncpu xs P) (mem s) s'"
  | "p = 0" "fst (take_page xs) = 0" "quiet ncpu s'" "pmm_inv ncpu lo hi s' xs P" "\<forall>x. x \<notin> owned ncpu xs P \<longrightarrow> mem s' x = mem s x"
proof -
  have avail: "P c \<noteq> [] \<or> fst (take_page xs) \<noteq> 0"
  proof (rule ccontr)
    assume "\<not> ?thesis"
    then have no: "P c = []" "fst (take_page xs) = 0" by auto
    have "\<forall>t \<in> set xs. snd t < page_bytes" by (rule take_page_null [OF pmm_invD(1) [OF inv] no(2)])
    with kalloc_first_fails [OF inv q r(1) no(1) r(2,3)] run show False by simp
  qed
  obtain k where k: "kalloc ncpu c n s = kalloc_small ncpu c k s" "size_class k" "n \<le> k"
    using kalloc_small_eq [OF r(2,3)] by blast
  from kalloc_small_ok [OF inv q r(1) k(2) avail] run k(1,3) show ?thesis by (auto intro: that)
qed

interpretation pmm: allocator "owns ncpu lo hi" "\<lambda>r. kalloc ncpu (fst r) (snd r)" snd
  "small_request ncpu" mem poke for ncpu lo hi
proof
  fix s F r s' p
  assume "owns ncpu lo hi s F" and r: "small_request ncpu r" and run: "kalloc ncpu (fst r) (snd r) s = cret (s', p)"
  then obtain xs P where q: "quiet ncpu s" and inv: "pmm_inv ncpu lo hi s xs P" and F: "owned ncpu xs P = F"
    by (auto simp: owns_def)
  have rr: "fst r < ncpu" "0 \<le> snd r" "snd r \<le> 16384" using r by (auto simp: small_request_def)
  note cases = kalloc_returns [OF inv q rr run]
  show "\<exists>F'. owns ncpu lo hi s' F' \<and> F' \<subseteq> F \<and> bytes (p, snd r) \<subseteq> F - F' \<and> (\<forall>x \<in> bytes (p, snd r). mem s' x = 0)"
    if "p \<noteq> 0"
  proof (rule cases)
    fix k assume k: "snd r \<le> k" "quiet ncpu s'"
      "granted ncpu lo hi (aligned ncpu xs P) (heap_pages xs - 1) p k (owned ncpu xs P) (mem s) s'"
    then have "owns ncpu lo hi s' (F - bytes (p, k))" by (auto simp: owns_def granted_def F)
    moreover have "bytes (p, snd r) \<subseteq> bytes (p, k)" using k(1) by auto
    ultimately show ?thesis using k(3) unfolding granted_def F by (intro exI [of _ "F - bytes (p, k)"]) blast
  qed (use that in simp)
  show "owns ncpu lo hi s' F" if "p = 0"
    by (rule cases) (use that F in \<open>auto simp: granted_def owns_def\<close>)
  show "mem s' x = mem s x" if "x \<notin> F" for x
    by (rule cases) (use that F in \<open>auto simp: granted_def\<close>)
next
  fix s F x v
  assume "owns ncpu lo hi s F" "x \<notin> F"
  then show "owns ncpu lo hi (poke x v s) F"
    using pmm_inv_client [of ncpu lo hi s _ _ "(mem s)(x := v)"] by (fastforce simp: owns_def poke_def)
qed (simp add: poke_def)

text \<open>C1. Whatever clients on any processors do with small blocks, in any order: after every program of
  requests and writes to held blocks that returns, the blocks handed out do not overlap,
  every byte of them is zero or what its holder wrote there last, and the allocator is in order: its invariant holds, no
  lock is held, and it owns no byte of any block it handed out.\<close>

theorem kalloc_clients_isolated:
  assumes "pmm_inv ncpu lo hi s xs P" "quiet ncpu s" "\<forall>r. Alloc r \<in> set ops \<longrightarrow> small_request ncpu r"
    and "client_run (\<lambda>r. kalloc ncpu (fst r) (snd r)) snd poke ops (s, [], Map.empty) = cret (s', bs, view)"
  shows "disjoint_blocks bs \<and> dom view = all_bytes bs \<and> (\<forall>x v. view x = Some v \<longrightarrow> mem s' x = v) \<and>
    quiet ncpu s' \<and> (\<exists>ys P'. pmm_inv ncpu lo hi s' ys P' \<and> owned ncpu ys P' \<inter> all_bytes bs = {})"
proof -
  have "pmm.clean ncpu lo hi (s, [], Map.empty)"
    using assms(1,2) by (auto simp: pmm.clean_def owns_def disjoint_blocks_def)
  from pmm.client_run_clean [OF this assms(3,4)] show ?thesis by (auto simp: pmm.clean_def owns_def)
qed

lemma kalloc_total:
  assumes "pmm_inv ncpu lo hi s xs P" "quiet ncpu s" "c < ncpu" "0 \<le> n" "n \<le> 16384"
    and "P c \<noteq> [] \<or> fst (take_page xs) \<noteq> 0"
  shows "\<exists>s' p. kalloc ncpu c n s = cret (s', p)"
proof -
  obtain k where k: "kalloc ncpu c n s = kalloc_small ncpu c k s" "size_class k"
    using kalloc_small_eq [OF assms(4,5)] by blast
  from kalloc_small_ok [OF assms(1-3) k(2) assms(6)] k(1) show ?thesis by auto
qed

theorem kalloc_clients_isolated_witness:
  "\<exists>s' bs view. client_run (\<lambda>r. kalloc 2 (fst r) (snd r)) snd poke [Alloc (0, 100), Write 1048704 7]
      (boot_state 1048576, [], Map.empty) = cret (s', bs, view) \<and>
    disjoint_blocks bs \<and> dom view = all_bytes bs \<and> (\<forall>x v. view x = Some v \<longrightarrow> mem s' x = v) \<and>
    (\<exists>ys P'. pmm_inv 2 1048576 2097152 s' ys P')"
proof -
  let ?run = "client_run (\<lambda>r. kalloc 2 (fst r) (snd r)) snd poke [Alloc (0, 100), Write 1048704 7]
    (boot_state 1048576, [], Map.empty)"
  have "\<exists>s1 p. kalloc 2 0 100 (boot_state 1048576) = cret (s1, p)"
    by (rule kalloc_total [OF boot_state_ok(1,2)]) simp_all
  then obtain s' bs view where run: "?run = cret (s', bs, view)" by force
  have "\<forall>r. Alloc r \<in> set [Alloc (0, 100), Write 1048704 7] \<longrightarrow> small_request 2 r"
    by (simp add: small_request_def)
  from kalloc_clients_isolated [OF boot_state_ok(1,2) this run] run show ?thesis by auto
qed

text \<open>A client that writes any bytes it holds, that is, any bytes the allocator does not own, does not
  disturb the allocator.\<close>

theorem client_writes_safe:
  assumes "pmm_inv ncpu lo hi s xs P" "\<forall>x \<in> owned ncpu xs P. m' x = mem s x"
  shows "pmm_inv ncpu lo hi (s\<lparr>mem := m'\<rparr>) xs P"
  by (rule pmm_inv_client [OF assms])

theorem client_writes_safe_witness:
  "pmm_inv 2 1048576 1114112 (demo_state\<lparr>mem := (mem demo_state)(1064960 := 7)\<rparr>) [] demo_page"
proof (rule client_writes_safe [OF demo_state_ok(1)])
  have "1064960 \<notin> owned 2 [] demo_page"
    by (auto simp: owned_def all_pages_def demo_page_def page_owned_def upt_rec split: if_splits)
  then show "\<forall>x \<in> owned 2 [] demo_page. ((mem demo_state)(1064960 := 7)) x = mem demo_state x" by auto
qed

text \<open>C9. \<open>pmm_init\<close> on a heap of less than 2 GiB whose size is a multiple of 16 sets up the allocator: the
  whole heap is one free region, no processor has a page, no lock is held, and nothing outside
  the heap is written.\<close>

theorem pmm_init_correct:
  assumes "0 < start" "start + 16 \<le> endp" "endp \<le> 9223372036854775808" "endp - start < 2147483648"
    and "16 dvd endp - start"
  shows "\<exists>s'. pmm_init start endp ncpu s = cret s' \<and> quiet ncpu s' \<and>
    pmm_inv ncpu start endp s' [(start, endp - start)] (\<lambda>_. []) \<and>
    (\<forall>x. x \<notin> bytes (start, endp - start) \<longrightarrow> mem s' x = mem s x)"
  by (rule pmm_init_establishes [OF assms])

theorem pmm_init_correct_witness:
  "\<exists>s'. pmm_init 1048576 2097152 2 demo_large = cret s' \<and> quiet 2 s' \<and>
    pmm_inv 2 1048576 2097152 s' [(1048576, 1048576)] (\<lambda>_. [])"
  using pmm_init_correct [of 1048576 2097152 2 demo_large] by auto

text \<open>On a heap of 2 GiB or more \<open>pmm_init\<close> loses the upper bits of its size: a heap of exactly 4 GiB is
  recorded as empty.\<close>

theorem pmm_init_truncates:
  assumes "0 < start"
  shows "\<exists>s'. pmm_init start (start + 4294967296) ncpu s = cret s' \<and>
    node_list (mem s') (head s') [(start, 0)]"
  using assms by (auto simp: pmm_init_def Let_def s32_def)

theorem pmm_init_truncates_witness:
  "\<exists>s'. pmm_init 1048576 (1048576 + 4294967296) 2 demo_large = cret s' \<and>
    node_list (mem s') (head s') [(1048576, 0)]"
  by (rule pmm_init_truncates) simp

end
