(* ===== verification/Am_Vme.thy ===== *)
theory Am_Vme
  imports C_Memory
begin

unbundle bit_operations_syntax

text \<open>
  \<open>abstract-machine/am/src/x86/qemu/vme.c\<close> for \<^verbatim>\<open>x86_64\<close>: four-level page tables in physical memory.
  The global variables \<^verbatim>\<open>kpt\<close>, \<^verbatim>\<open>pgalloc\<close> and \<^verbatim>\<open>pgfree\<close> and the control registers are one record
  with the physical memory.  The page allocator is whatever function \<open>vme_init\<close> was given: it works on
  the memory and on a state of its own.  An \<^verbatim>\<open>AddrSpace\<close> is an object in memory at an address \<open>as\<close>.
\<close>

type_synonym 'a pgstate = "mem \<times> 'a"

record 'a vme =
  phys :: mem
  pgst :: 'a
  kpt :: int
  pgalloc :: "int \<Rightarrow> 'a pgstate \<Rightarrow> ('a pgstate \<times> int) cres"
  pgfree :: "int \<Rightarrow> 'a pgstate \<Rightarrow> ('a pgstate) cres"
  cr0 :: int
  cr3 :: int

subsection \<open>Configuration\<close>

record ptinfo =
  pmask :: int
  pshift :: nat
  pbits :: nat

definition pgsize :: int where
  "pgsize = 4096"

definition ptlevels :: nat where
  "ptlevels = 4"

definition pgtables :: "ptinfo list" where
  "pgtables =
     [\<lparr>pmask = 0, pshift = 0, pbits = 0\<rparr>,
      \<lparr>pmask = 0xff8000000000, pshift = 39, pbits = 9\<rparr>,
      \<lparr>pmask = 0x007fc0000000, pshift = 30, pbits = 9\<rparr>,
      \<lparr>pmask = 0x00003fe00000, pshift = 21, pbits = 9\<rparr>,
      \<lparr>pmask = 0x0000001ff000, pshift = 12, pbits = 9\<rparr>]"

text \<open>Start, end, and whether the area belongs to the kernel.\<close>

definition vm_areas :: "(int \<times> int \<times> bool) list" where
  "vm_areas = [(0x100000000000, 0x108000000000, False), (0x000000000000, 0x008000000000, True)]"

definition uvm_area :: "int \<times> int" where
  "uvm_area = (case vm_areas ! 0 of (st, ed, k) \<Rightarrow> (st, ed))"

text \<open>The flags of \<open>x86.h\<close> and the protection bits of \<open>am.h\<close>.\<close>

abbreviation (input) PTE_P :: int where "PTE_P \<equiv> 1"
abbreviation (input) PTE_W :: int where "PTE_W \<equiv> 2"
abbreviation (input) PTE_U :: int where "PTE_U \<equiv> 4"
abbreviation (input) MMAP_NONE :: int where "MMAP_NONE \<equiv> 0"
abbreviation (input) MMAP_WRITE :: int where "MMAP_WRITE \<equiv> 2"
abbreviation (input) CR0_PG :: int where "CR0_PG \<equiv> 0x80000000"
abbreviation (input) PML4_ADDR :: int where "PML4_ADDR \<equiv> 0x1000"

text \<open>The fields of an \<^verbatim>\<open>AddrSpace\<close>: \<^verbatim>\<open>int pgsize; Area area; void *ptr;\<close>\<close>

definition as_ptr :: "int \<Rightarrow> int" where
  "as_ptr as = as + 24"

definition set_addrspace :: "mem \<Rightarrow> int \<Rightarrow> int \<Rightarrow> mem" where
  "set_addrspace m as ptr =
     (let m = store32 m as pgsize;
          m = store64 m (as + 8) (fst uvm_area);
          m = store64 m (as + 16) (snd uvm_area)
      in store64 m (as_ptr as) ptr)"

subsection \<open>Walking and changing tables\<close>

definition zero_page :: "mem \<Rightarrow> int \<Rightarrow> mem" where
  "zero_page m base = fold (\<lambda>i m. store64 m (base + 8 * int i) 0) [0..<nat (pgsize div 8)] m"

definition pgallocz :: "'a vme \<Rightarrow> ('a vme \<times> int) cres" where
  "pgallocz v =
     cbind (pgalloc v pgsize (phys v, pgst v)) (\<lambda>((m, a), base).
       if base = 0 then cfail Panic
       else cret (v\<lparr>phys := zero_page m base, pgst := a\<rparr>, base))"

definition indexof :: "int \<Rightarrow> ptinfo \<Rightarrow> int" where
  "indexof addr info = s32 (drop_bit (pshift info) (addr AND pmask info))"

definition baseof :: "int \<Rightarrow> int" where
  "baseof addr = u64 (addr AND NOT (pgsize - 1))"

text \<open>The loop over the levels, on the rest of \<^verbatim>\<open>mmu.pgtables\<close>; behind its end is \<^verbatim>\<open>bug()\<close>.\<close>

fun ptwalk_loop :: "ptinfo list \<Rightarrow> int \<Rightarrow> int \<Rightarrow> int \<Rightarrow> 'a vme \<Rightarrow> ('a vme \<times> int) cres" where
  "ptwalk_loop [] addr flags cur v = cfail Panic"
| "ptwalk_loop [info] addr flags cur v = cret (v, cur + 8 * indexof addr info)"
| "ptwalk_loop (info # infos) addr flags cur v =
     (let slot = cur + 8 * indexof addr info in
      if load64 (phys v) slot AND PTE_P = 0 then
        cbind (pgallocz v) (\<lambda>(v, next_page).
          ptwalk_loop infos addr flags next_page
            (v\<lparr>phys := store64 (phys v) slot (next_page OR PTE_P OR flags)\<rparr>))
      else ptwalk_loop infos addr flags (baseof (load64 (phys v) slot)) v)"

definition ptwalk :: "'a vme \<Rightarrow> int \<Rightarrow> int \<Rightarrow> int \<Rightarrow> ('a vme \<times> int) cres" where
  "ptwalk v as addr flags = ptwalk_loop pgtables addr flags (as_ptr as) v"

text \<open>\<open>teardown level pt\<close> on the tables from \<open>level\<close> on; past the last level it does nothing.\<close>

fun for_each :: "('i \<Rightarrow> 's \<Rightarrow> 's cres) \<Rightarrow> 'i list \<Rightarrow> 's \<Rightarrow> 's cres" where
  "for_each f [] s = cret s"
| "for_each f (i # is) s = cbind (f i s) (\<lambda>s. for_each f is s)"

primrec teardown :: "ptinfo list \<Rightarrow> nat \<Rightarrow> int \<Rightarrow> 'a vme \<Rightarrow> 'a vme cres" where
  "teardown [] level pt v = cret v"
| "teardown (info # infos) level pt v =
     cbind
       (for_each (\<lambda>index v. let e = load64 (phys v) (pt + 8 * int index) in
           if e AND PTE_P \<noteq> 0 \<and> e AND PTE_U \<noteq> 0 then teardown infos (Suc level) (baseof e) v
           else cret v)
         [0..<2 ^ pbits info] v)
       (\<lambda>v. if level \<ge> 1 then
              cbind (pgfree v pt (phys v, pgst v)) (\<lambda>(m, a). cret (v\<lparr>phys := m, pgst := a\<rparr>))
            else cret v)"

subsection \<open>The interface of \<open>am.h\<close>\<close>

definition vme_init ::
  "int \<Rightarrow> (int \<Rightarrow> 'a pgstate \<Rightarrow> ('a pgstate \<times> int) cres) \<Rightarrow> (int \<Rightarrow> 'a pgstate \<Rightarrow> ('a pgstate) cres) \<Rightarrow>
     'a vme \<Rightarrow> ('a vme \<times> bool) cres" where
  "vme_init cpu pa pf v =
     (if cpu \<noteq> 0 then cfail Panic
      else
        let v = v\<lparr>pgalloc := pa\<rparr>;
            v = v\<lparr>pgfree := pf\<rparr>;
            v = v\<lparr>kpt := PML4_ADDR\<rparr>;
            v = v\<lparr>cr3 := kpt v\<rparr>;
            v = v\<lparr>cr0 := cr0 v OR CR0_PG\<rparr>
        in cret (v, True))"

text \<open>The loop of \<open>protect\<close> over the kernel's areas copies the top-level entries that cover them.\<close>

partial_function (option) copy_area :: "int \<Rightarrow> int \<Rightarrow> int \<Rightarrow> int \<Rightarrow> mem \<Rightarrow> mem option" where
  "copy_area u_pt k_pt cur ed m =
     (if cur \<noteq> ed then
        let index = indexof cur (pgtables ! 1) in
        copy_area u_pt k_pt (u64 (cur + push_bit (pshift (pgtables ! 1)) 1)) ed
          (store64 m (u_pt + 8 * index) (load64 m (k_pt + 8 * index)))
      else Some m)"

fun copy_kernel :: "int \<Rightarrow> int \<Rightarrow> (int \<times> int \<times> bool) list \<Rightarrow> mem \<Rightarrow> mem option" where
  "copy_kernel u_pt k_pt [] m = Some m"
| "copy_kernel u_pt k_pt ((st, ed, is_kernel) # vmas) m =
     (if is_kernel then Option.bind (copy_area u_pt k_pt st ed m) (\<lambda>m. copy_kernel u_pt k_pt vmas m)
      else copy_kernel u_pt k_pt vmas m)"

definition protect :: "'a vme \<Rightarrow> int \<Rightarrow> 'a vme cres" where
  "protect v as =
     cbind (pgallocz v) (\<lambda>(v, u_pt).
       Option.bind (copy_kernel u_pt (kpt v) vm_areas (phys v)) (\<lambda>m.
         cret (v\<lparr>phys := set_addrspace m as (u_pt OR PTE_P OR PTE_U)\<rparr>)))"

definition unprotect :: "'a vme \<Rightarrow> int \<Rightarrow> 'a vme cres" where
  "unprotect v as = teardown pgtables 0 (as_ptr as) v"

definition map_page :: "'a vme \<Rightarrow> int \<Rightarrow> int \<Rightarrow> int \<Rightarrow> int \<Rightarrow> 'a vme cres" where
  "map_page v as va pa prot =
     (if \<not> (fst uvm_area \<le> va \<and> va < snd uvm_area) then cfail Panic
      else if va \<noteq> u64 (va AND NOT (pgsize - 1)) \<or> pa \<noteq> u64 (pa AND NOT (pgsize - 1)) then cfail Panic
      else
        cbind (ptwalk v as va (PTE_W OR PTE_U)) (\<lambda>(v, ptentry).
        cbind
          (if prot = MMAP_NONE then
             if load64 (phys v) ptentry AND PTE_P = 0 then cfail Panic
             else cret (v\<lparr>phys := store64 (phys v) ptentry 0\<rparr>)
           else if load64 (phys v) ptentry AND PTE_P \<noteq> 0 then cfail Panic
           else
             let pte = pa OR PTE_P OR PTE_U OR (if prot AND MMAP_WRITE \<noteq> 0 then PTE_W else 0)
             in cret (v\<lparr>phys := store64 (phys v) ptentry pte\<rparr>))
          (\<lambda>v. cbind (ptwalk v as va (PTE_W OR PTE_U)) (\<lambda>(v, _). cret v))))"

end
