(* ===== verification/Am_Vme_Map.thy ===== *)
theory Am_Vme_Map
  imports Am_Vme
begin

unbundle bit_operations_syntax

text \<open>
  What \<open>map\<close>, \<open>protect\<close> and the page walk of \<open>vme.c\<close> do to an address space.  The specification is the
  translation the processor makes: \<open>translate\<close> follows the tables from the root.  The invariant
  \<open>space_ok\<close> says that the tables of the user area form a tree of separate pages which the page
  allocator does not own; the contract of the allocator is the locale \<open>page_source\<close>.
\<close>

subsection \<open>Indices, bases and flags\<close>

lemma drop_and_mask: "drop_bit s (a AND push_bit s (mask n)) = take_bit n (drop_bit s a)" for a :: int
  by (rule bit_eqI) (auto simp: bit_simps)

lemma indexof_eq: "info \<in> set pgtables \<Longrightarrow> indexof va info = va div 2 ^ pshift info mod 2 ^ pbits info"
proof -
  assume "info \<in> set pgtables"
  then have m: "pmask info = push_bit (pshift info) (mask (pbits info))" and b: "pbits info \<le> 9"
    by (auto simp: pgtables_def push_bit_eq_mult mask_eq_exp_minus_1)
  have "(2 :: int) ^ pbits info \<le> 2 ^ 9" using b by (intro power_increasing) auto
  then have "(2 :: int) ^ pbits info \<le> 512" by simp
  moreover have "0 \<le> va div 2 ^ pshift info mod 2 ^ pbits info"
    "va div 2 ^ pshift info mod 2 ^ pbits info < 2 ^ pbits info" by simp_all
  ultimately have "s32 (va div 2 ^ pshift info mod 2 ^ pbits info) = va div 2 ^ pshift info mod 2 ^ pbits info"
    by (intro s32_id) linarith+
  moreover have "indexof va info = s32 (va div 2 ^ pshift info mod 2 ^ pbits info)"
    unfolding indexof_def m drop_and_mask by (simp add: take_bit_eq_mod drop_bit_eq_div)
  ultimately show ?thesis by simp
qed

lemma and_not_low: "e AND - 4096 = e - e mod 4096" for e :: int
  using and_not_mask [of e 12] by (simp add: take_bit_eq_mod mask_eq_exp_minus_1)

lemma baseof_eq: "0 \<le> e \<Longrightarrow> e < 18446744073709551616 \<Longrightarrow> baseof e = e - e mod 4096"
proof -
  assume "0 \<le> e" "e < 18446744073709551616"
  moreover have "0 \<le> e mod 4096" "e mod 4096 \<le> e" using \<open>0 \<le> e\<close> by (simp_all add: zmod_le_nonneg_dividend)
  ultimately show ?thesis by (simp add: baseof_def pgsize_def and_not_low u64_id)
qed

lemma or_flags:
  fixes p f :: int
  assumes "4096 dvd p" "0 \<le> f" "f < 4096"
  shows "p OR f = p + f"
proof -
  have p: "p AND mask 12 = 0" using assms(1) by (simp add: take_bit_eq_mask [symmetric] take_bit_eq_mod)
  have "f AND mask 12 = f" using assms(2,3) by (simp add: take_bit_eq_mask [symmetric] take_bit_int_eq_self)
  then have "p AND f = (p AND mask 12) AND f" by (metis and.assoc and.commute)
  with p show ?thesis by (simp add: disjunctive_add_eq_or)
qed

abbreviation present :: "int \<Rightarrow> bool" where
  "present e \<equiv> odd e"

lemma and_present [simp]: "e AND 1 = 0 \<longleftrightarrow> \<not> present e" for e :: int
  by (simp add: and_one_eq even_iff_mod_2_eq_zero)

lemma even_flags_bound: "flags < 4096 \<Longrightarrow> even flags \<Longrightarrow> 1 + flags < 4096" for flags :: int
  by presburger

lemma aligned_slots:
  fixes b c i j :: int
  assumes "4096 dvd b" "4096 dvd c" "0 \<le> i" "i < 512" "0 \<le> j" "j < 512" "(b, i) \<noteq> (c, j)"
  shows "apart (b + 8 * i, 8) (c + 8 * j, 8)"
proof -
  obtain b' c' where "b = 4096 * b'" "c = 4096 * c'" using assms(1,2) by (auto elim!: dvdE)
  moreover have "b' = c' \<or> b' + 1 \<le> c' \<or> c' + 1 \<le> b'" by linarith
  ultimately show ?thesis using assms(3-7) by auto
qed

subsection \<open>Translation\<close>

definition ent :: "mem \<Rightarrow> int \<Rightarrow> int \<Rightarrow> int" where
  "ent m b i = load64 m (b + 8 * i)"

text \<open>The table that a list of indices leads to, from the table at \<open>b\<close>.\<close>

fun table_at :: "mem \<Rightarrow> int \<Rightarrow> int list \<Rightarrow> int option" where
  "table_at m b [] = Some b"
| "table_at m b (i # is) = (if present (ent m b i) then table_at m (baseof (ent m b i)) is else None)"

definition va_path :: "int \<Rightarrow> int list" where
  "va_path va = [va div 2 ^ 39 mod 512, va div 2 ^ 30 mod 512, va div 2 ^ 21 mod 512]"

definition translate :: "mem \<Rightarrow> int \<Rightarrow> int \<Rightarrow> int option" where
  "translate m root va = (case table_at m root (va_path va) of
     None \<Rightarrow> None
   | Some t \<Rightarrow> let e = ent m t (va div 4096 mod 512) in if present e then Some e else None)"

text \<open>The paths of the user area, whose addresses all have top-level index 32.\<close>

definition user_path :: "int list \<Rightarrow> bool" where
  "user_path is \<longleftrightarrow> length is \<le> 3 \<and> (\<forall>i \<in> set is. 0 \<le> i \<and> i < 512) \<and> (is \<noteq> [] \<longrightarrow> hd is = 32)"

lemma table_at_snoc:
  "table_at m b (is @ [i]) =
     Option.bind (table_at m b is) (\<lambda>t. if present (ent m t i) then Some (baseof (ent m t i)) else None)"
  by (induction "is" arbitrary: b) auto

lemma user_path_Nil [simp]: "user_path []"
  by (simp add: user_path_def)

lemma user_path_butlast: "user_path (is @ [i]) \<Longrightarrow> user_path is \<and> 0 \<le> i \<and> i < 512"
  by (cases "is") (auto simp: user_path_def)

lemma user_path_take: "user_path is \<Longrightarrow> user_path (take k is)"
  by (cases k; cases "is") (auto simp: user_path_def dest: in_set_takeD)

lemma user_va: "fst uvm_area \<le> va \<Longrightarrow> va < snd uvm_area \<Longrightarrow> va div 2 ^ 39 mod 512 = 32"
proof -
  assume "fst uvm_area \<le> va" "va < snd uvm_area"
  then have "va div 549755813888 = 32" by (simp add: uvm_area_def vm_areas_def)
  then show ?thesis by simp
qed

definition space_ok :: "mem \<Rightarrow> int \<Rightarrow> int set \<Rightarrow> bool" where
  "space_ok m root F \<longleftrightarrow>
     (\<forall>is b. user_path is \<longrightarrow> table_at m root is = Some b \<longrightarrow>
        4096 dvd b \<and> 0 < b \<and> b + 4096 \<le> 18446744073709551616 \<and> bytes (b, 4096) \<inter> F = {}) \<and>
     (\<forall>is js b. user_path is \<longrightarrow> user_path js \<longrightarrow> table_at m root is = Some b \<longrightarrow> table_at m root js = Some b \<longrightarrow>
        is = js)"

text \<open>The bytes of all tables of the user area.\<close>

definition table_bytes :: "mem \<Rightarrow> int \<Rightarrow> int set" where
  "table_bytes m root = (\<Union>is \<in> Collect user_path. case table_at m root is of None \<Rightarrow> {} | Some b \<Rightarrow> bytes (b, 4096))"

lemma space_okD:
  assumes "space_ok m root F" "user_path is" "table_at m root is = Some b"
  shows "4096 dvd b" "0 < b" "b + 4096 \<le> 18446744073709551616" "bytes (b, 4096) \<inter> F = {}"
  using assms unfolding space_ok_def by blast+

lemma space_ok_inj:
  "space_ok m root F \<Longrightarrow> user_path is \<Longrightarrow> user_path js \<Longrightarrow> table_at m root is = Some b \<Longrightarrow>
     table_at m root js = Some b \<Longrightarrow> is = js"
  unfolding space_ok_def by blast

lemma table_bytesI: "user_path is \<Longrightarrow> table_at m root is = Some b \<Longrightarrow> bytes (b, 4096) \<subseteq> table_bytes m root"
  by (force simp: table_bytes_def)

lemma table_bytes_free: "space_ok m root F \<Longrightarrow> table_bytes m root \<inter> F = {}"
  using space_okD(4) [of m root F]
  by (auto simp: table_bytes_def simp del: bytes_iff split: option.splits) blast

text \<open>Only what happens in the tables matters.\<close>

lemma ent_cong: "\<forall>x \<in> bytes (b, 4096). m' x = m x \<Longrightarrow> 0 \<le> i \<Longrightarrow> i < 512 \<Longrightarrow> ent m' b i = ent m b i"
  unfolding ent_def by (intro load64_cong) auto

lemma table_at_cong:
  assumes "\<forall>x \<in> table_bytes m root. m' x = m x" "user_path is"
  shows "table_at m' root is = table_at m root is"
  using assms(2)
proof (induction "is" rule: rev_induct)
  case (snoc i "is")
  then have u: "user_path is" "0 \<le> i" "i < 512" using user_path_butlast by blast+
  have "ent m' t i = ent m t i" if "table_at m root is = Some t" for t
    using assms(1) u table_bytesI [OF u(1) that] by (intro ent_cong) auto
  with snoc.IH [OF u(1)] show ?case by (cases "table_at m root is") (simp_all add: table_at_snoc)
qed simp

lemma space_ok_cong:
  assumes "space_ok m root F" "\<forall>x \<in> table_bytes m root. m' x = m x" "F' \<subseteq> F"
  shows "space_ok m' root F'" "table_bytes m' root = table_bytes m root"
proof -
  note t = table_at_cong [OF assms(2)]
  show "space_ok m' root F'"
    using assms(1,3) unfolding space_ok_def by (simp add: t) blast
  show "table_bytes m' root = table_bytes m root"
    unfolding table_bytes_def by (intro SUP_cong) (simp_all add: t)
qed

lemma va_path_user:
  assumes "fst uvm_area \<le> va" "va < snd uvm_area"
  shows "user_path (va_path va)" "user_path (take k (va_path va))"
proof -
  show u: "user_path (va_path va)" using user_va [OF assms] by (simp add: user_path_def va_path_def)
  then show "user_path (take k (va_path va))" by (rule user_path_take)
qed

lemma translate_cong:
  assumes "\<forall>x \<in> table_bytes m root. m' x = m x" "fst uvm_area \<le> va" "va < snd uvm_area"
  shows "translate m' root va = translate m root va"
proof -
  note u = va_path_user(1) [OF assms(2,3)]
  have "ent m' t (va div 4096 mod 512) = ent m t (va div 4096 mod 512)" if "table_at m root (va_path va) = Some t" for t
    using assms(1) table_bytesI [OF u that] by (intro ent_cong) auto
  then show ?thesis by (simp add: translate_def table_at_cong [OF assms(1) u] split: option.split)
qed

subsection \<open>Writing one entry\<close>

lemma slot_in_table: "0 \<le> i \<Longrightarrow> i < 512 \<Longrightarrow> bytes (b + 8 * i, 8) \<subseteq> bytes (b, 4096)"
  by (auto simp: subset_iff)

lemma ent_store:
  assumes "4096 dvd b" "4096 dvd c" "0 \<le> i" "i < 512" "0 \<le> j" "j < 512"
  shows "ent (store64 m (b + 8 * i) e) c j = (if c = b \<and> j = i then u64 e else ent m c j)"
proof (cases "c = b \<and> j = i")
  case False
  then have "apart (c + 8 * j, 8) (b + 8 * i, 8)"
    using assms by (intro aligned_slots) auto
  then show ?thesis using False unfolding ent_def by (simp only: mem_simps) auto
qed (simp add: ent_def mem_simps)

text \<open>Writing the entry \<open>i\<close> of the table at \<open>is\<close> changes only the paths through that entry.\<close>

lemma table_at_store:
  assumes ok: "space_ok m root F" and p: "user_path (is @ [i])" "table_at m root is = Some b"
    and q: "user_path js" "take (Suc (length is)) js \<noteq> is @ [i]"
  shows "table_at (store64 m (b + 8 * i) e) root js = table_at m root js"
  using q
proof (induction js rule: rev_induct)
  case (snoc j js)
  have u: "user_path js" "0 \<le> j" "j < 512" and v: "user_path is" "0 \<le> i" "i < 512"
    using user_path_butlast [OF snoc.prems(1)] user_path_butlast [OF p(1)] by auto
  have "take (Suc (length is)) js \<noteq> is @ [i]"
    using snoc.prems(2) by (auto simp: take_Cons' split: if_splits)
  then have IH: "table_at (store64 m (b + 8 * i) e) root js = table_at m root js"
    by (rule snoc.IH [OF u(1)])
  have "ent (store64 m (b + 8 * i) e) c j = ent m c j" if c: "table_at m root js = Some c" for c
  proof -
    have "\<not> (c = b \<and> j = i)"
      using space_ok_inj [OF ok u(1) v(1)] c p(2) snoc.prems(2) by auto
    then show ?thesis
      using space_okD(1) [OF ok u(1) c] space_okD(1) [OF ok v(1) p(2)] u v by (subst ent_store) auto
  qed
  with IH show ?case by (cases "table_at m root js") (simp_all add: table_at_snoc)
qed simp

lemma table_at_append: "table_at m b (ps @ qs) = Option.bind (table_at m b ps) (\<lambda>t. table_at m t qs)"
  by (induction ps arbitrary: b) auto

lemma take_append_iff:
  "take (length ps) js = ps \<longleftrightarrow> (\<exists>qs. js = ps @ qs)"
  by (metis append_eq_conv_conj append_take_drop_id)

text \<open>
  A new empty table at \<open>np\<close> is hung into the entry \<open>i\<close>, not present so far, of the table at the path \<open>is\<close>:
  \<open>m'\<close> is the memory after the allocation, \<open>hang m' b i np f\<close> the memory after the write.
\<close>

definition hang :: "mem \<Rightarrow> int \<Rightarrow> int \<Rightarrow> int \<Rightarrow> int \<Rightarrow> mem" where
  "hang m b i np f = store64 m (b + 8 * i) (np + f)"

definition hung ::
  "mem \<Rightarrow> mem \<Rightarrow> int \<Rightarrow> int list \<Rightarrow> int \<Rightarrow> int \<Rightarrow> int \<Rightarrow> int \<Rightarrow> int set \<Rightarrow> int set \<Rightarrow> bool" where
  "hung m m' root is i b np f F F' \<longleftrightarrow>
     space_ok m root F \<and> user_path (is @ [i]) \<and> table_at m root is = Some b \<and> \<not> present (ent m b i) \<and>
     4096 dvd np \<and> 0 < np \<and> np + 4096 \<le> 18446744073709551616 \<and> bytes (np, 4096) \<subseteq> F - F' \<and> F' \<subseteq> F \<and>
     (\<forall>x. x \<notin> F \<longrightarrow> m' x = m x) \<and> (\<forall>j. 0 \<le> j \<longrightarrow> j < 512 \<longrightarrow> ent m' np j = 0) \<and>
     0 \<le> f \<and> f < 4096 \<and> odd f"

lemma hungD:
  assumes "hung m m' root is i b np f F F'"
  shows "space_ok m root F" "user_path (is @ [i])" "table_at m root is = Some b" "\<not> present (ent m b i)"
    "4096 dvd np" "0 < np" "np + 4096 \<le> 18446744073709551616" "bytes (np, 4096) \<subseteq> F - F'" "F' \<subseteq> F"
    "\<forall>x. x \<notin> F \<longrightarrow> m' x = m x" "\<forall>j. 0 \<le> j \<longrightarrow> j < 512 \<longrightarrow> ent m' np j = 0" "0 \<le> f" "f < 4096" "odd f"
    "user_path is" "0 \<le> i" "i < 512"
  using assms user_path_butlast [of "is" i] by (auto simp: hung_def)

lemma hung_before:
  assumes h: "hung m m' root is i b np f F F'"
  shows "space_ok m' root F'" "user_path js \<Longrightarrow> table_at m' root js = table_at m root js"
    "user_path js \<Longrightarrow> table_at m root js = Some c \<Longrightarrow> c \<noteq> np" "table_at m root ((is @ [i]) @ qs) = None"
proof -
  have eq: "\<forall>x \<in> table_bytes m root. m' x = m x" using table_bytes_free [OF hungD(1) [OF h]] hungD(10) [OF h] by auto
  show "space_ok m' root F'" by (rule space_ok_cong(1) [OF hungD(1) [OF h] eq hungD(9) [OF h]])
  show "table_at m' root js = table_at m root js" if "user_path js" by (rule table_at_cong [OF eq that])
  show "c \<noteq> np" if "user_path js" "table_at m root js = Some c"
  proof
    assume "c = np"
    moreover have "np \<in> bytes (np, 4096)" by simp
    ultimately show False using space_okD(4) [OF hungD(1) [OF h] that] hungD(8) [OF h] by blast
  qed
  show "table_at m root ((is @ [i]) @ qs) = None" using hungD(3,4) [OF h] unfolding table_at_append by simp
qed

lemma hung_slots:
  assumes h: "hung m m' root is i b np f F F'"
  shows "ent (hang m' b i np f) b i = np + f" "0 \<le> j \<Longrightarrow> j < 512 \<Longrightarrow> ent (hang m' b i np f) np j = 0"
    "baseof (np + f) = np"
proof -
  note d = hungD [OF h]
  note b = space_okD [OF d(1,15,3)]
  have "np + f < 18446744073709551616" using d by linarith
  then show "ent (hang m' b i np f) b i = np + f"
    using b d by (simp add: hang_def ent_store u64_id)
  show "ent (hang m' b i np f) np j = 0" if "0 \<le> j" "j < 512"
    using b d that hung_before(3) [OF h d(15,3)] by (simp add: hang_def ent_store)
  have "np mod 4096 = 0" using d(5) by simp
  then have "(np + f) mod 4096 = f" using d(12,13) by (metis add_0 mod_add_left_eq mod_pos_pos_trivial)
  then show "baseof (np + f) = np" using d by (subst baseof_eq) auto
qed

lemma hang_tables:
  assumes h: "hung m m' root is i b np f F F'" and js: "user_path js"
  shows "table_at (hang m' b i np f) root js = (if js = is @ [i] then Some np else table_at m root js)"
proof -
  note d = hungD [OF h] and before = hung_before [OF h]
  have b': "table_at m' root is = Some b" using before(2) [OF d(15)] d(3) by simp
  show ?thesis
  proof (cases "\<exists>qs. js = (is @ [i]) @ qs")
    case False
    then have t: "take (Suc (length is)) js \<noteq> is @ [i]" using take_append_iff [of "is @ [i]" js] by simp
    show ?thesis
      using False table_at_store [OF before(1) d(2) b' js t] before(2) [OF js] unfolding hang_def by auto
  next
    case True
    then obtain qs where qs: "js = (is @ [i]) @ qs" by blast
    have "take (Suc (length is)) is \<noteq> is @ [i]" by simp
    then have "table_at (hang m' b i np f) root is = Some b"
      using table_at_store [OF before(1) d(2) b' d(15)] b' unfolding hang_def by simp
    then have np: "table_at (hang m' b i np f) root (is @ [i]) = Some np"
      using hung_slots(1,3) [OF h] d(5,14) by (auto simp: table_at_snoc)
    show ?thesis
    proof (cases qs)
      case (Cons j qs')
      have "0 \<le> j" "j < 512" using js unfolding qs Cons by (auto simp: user_path_def)
      then show ?thesis
        using before(4) np hung_slots(2) [OF h] unfolding qs table_at_append [of "hang m' b i np f" _ "is @ [i]"] Cons
        by simp
    qed (use np qs in simp)
  qed
qed

lemma hang_ok:
  assumes h: "hung m m' root is i b np f F F'"
  shows "space_ok (hang m' b i np f) root F'"
  unfolding space_ok_def
proof (intro conjI allI impI)
  note d = hungD [OF h]
  fix js c
  assume js: "user_path js" and "table_at (hang m' b i np f) root js = Some c"
  then have "c = np \<or> table_at m root js = Some c" by (auto simp: hang_tables [OF h] split: if_splits)
  then show "4096 dvd c" "0 < c" "c + 4096 \<le> 18446744073709551616" "bytes (c, 4096) \<inter> F' = {}"
    using d(5-9) space_okD [OF d(1) js] by blast+
next
  fix js ks c
  assume "user_path js" "user_path ks" "table_at (hang m' b i np f) root js = Some c" "table_at (hang m' b i np f) root ks = Some c"
  then show "js = ks"
    using hung_before(3) [OF h] space_ok_inj [OF hungD(1) [OF h]] by (auto simp: hang_tables [OF h] split: if_splits)
qed

lemma hang_table_bytes:
  assumes h: "hung m m' root is i b np f F F'"
  shows "table_bytes (hang m' b i np f) root = table_bytes m root \<union> bytes (np, 4096)"
proof
  let ?m = "hang m' b i np f"
  show "table_bytes ?m root \<subseteq> table_bytes m root \<union> bytes (np, 4096)"
    unfolding table_bytes_def
    by (auto simp: hang_tables [OF h] simp del: bytes_iff split: option.splits if_splits)
  have "bytes (np, 4096) \<subseteq> table_bytes ?m root"
    using hungD(2) [OF h] by (intro table_bytesI) (auto simp: hang_tables [OF h])
  moreover have "bytes (c, 4096) \<subseteq> table_bytes ?m root" if "user_path js" "table_at m root js = Some c" for js c
    using that hung_before(4) [OF h, of "[]"] by (intro table_bytesI [of js]) (auto simp: hang_tables [OF h])
  then have "table_bytes m root \<subseteq> table_bytes ?m root"
    unfolding table_bytes_def [of m] by (intro UN_least) (simp split: option.split)
  ultimately show "table_bytes m root \<union> bytes (np, 4096) \<subseteq> table_bytes ?m root" by blast
qed

lemma hang_translate:
  assumes h: "hung m m' root is i b np f F F'" and va: "fst uvm_area \<le> va" "va < snd uvm_area"
  shows "translate (hang m' b i np f) root va = translate m root va"
proof -
  note d = hungD [OF h] and u = va_path_user(1) [OF va]
  let ?j = "va div 4096 mod 512"
  show ?thesis
  proof (cases "va_path va = is @ [i]")
    case True
    then show ?thesis
      using hung_before(4) [OF h, of "[]"] hung_slots(2) [OF h, of ?j] hang_tables [OF h u] by (simp add: translate_def)
  next
    case False
    have "ent (hang m' b i np f) t ?j = ent m t ?j" if t: "table_at m root (va_path va) = Some t" for t
    proof -
      have "t \<noteq> b"
      proof
        assume "t = b"
        then have "va_path va = is" using space_ok_inj [OF d(1) u d(15)] t d(3) by simp
        moreover have "length (va_path va) = 3" by (simp add: va_path_def)
        ultimately show False using d(2) by (simp add: user_path_def)
      qed
      moreover have "ent m' t ?j = ent m t ?j"
        using space_okD(4) [OF d(1) u t] d(10) by (intro ent_cong) auto
      ultimately show ?thesis
        using space_okD(1) [OF d(1) u t] space_okD(1) [OF d(1,15,3)] d(16,17) by (simp add: hang_def ent_store)
    qed
    with False show ?thesis by (simp add: translate_def hang_tables [OF h u] split: option.split)
  qed
qed

subsection \<open>Writing a leaf entry\<close>

lemma table_at_leaf:
  assumes ok: "space_ok m root F" and p: "user_path is" "length is = 3" "table_at m root is = Some b" "0 \<le> i" "i < 512"
    and q: "user_path js"
  shows "table_at (store64 m (b + 8 * i) e) root js = table_at m root js"
  using q
proof (induction js rule: rev_induct)
  case (snoc j js)
  have u: "user_path js" "0 \<le> j" "j < 512" using user_path_butlast [OF snoc.prems(1)] by auto
  have "ent (store64 m (b + 8 * i) e) c j = ent m c j" if c: "table_at m root js = Some c" for c
  proof -
    have "js \<noteq> is" using p(2) snoc.prems by (auto simp: user_path_def)
    then have "c \<noteq> b" using space_ok_inj [OF ok u(1) p(1)] c p(3) by auto
    then show ?thesis
      using space_okD(1) [OF ok u(1) c] space_okD(1) [OF ok p(1,3)] u p by (subst ent_store) auto
  qed
  with snoc.IH [OF u(1)] show ?case by (cases "table_at m root js") (simp_all add: table_at_snoc)
qed simp

lemma leaf_ok:
  assumes ok: "space_ok m root F" and p: "user_path is" "length is = 3" "table_at m root is = Some b" "0 \<le> i" "i < 512"
  shows "space_ok (store64 m (b + 8 * i) e) root F" "table_bytes (store64 m (b + 8 * i) e) root = table_bytes m root"
proof -
  note t = table_at_leaf [OF ok p]
  show "space_ok (store64 m (b + 8 * i) e) root F" using ok unfolding space_ok_def by (simp add: t)
  show "table_bytes (store64 m (b + 8 * i) e) root = table_bytes m root"
    unfolding table_bytes_def by (intro SUP_cong) (simp_all add: t)
qed

text \<open>Addresses with the same indices lie in the same page of the user area.\<close>

lemma three_digits:
  "X = Y * 512 + r0 \<Longrightarrow> Y = Z * 512 + r1 \<Longrightarrow> Z = W * 512 + r2 \<Longrightarrow>
     X = W * 134217728 + r2 * 262144 + r1 * 512 + r0" for X Y Z W :: int
  by simp

lemma page_number_split:
  "X = X div 134217728 * 134217728 + X div 262144 mod 512 * 262144 + X div 512 mod 512 * 512 + X mod 512" for X :: int
proof (rule three_digits)
  have "X div 262144 = X div 512 div 512" using zdiv_zmult2_eq [of 512 X 512] by simp
  then show "X div 512 = X div 262144 * 512 + X div 512 mod 512" by (simp only: div_mult_mod_eq)
  have "X div 134217728 = X div 262144 div 512" using zdiv_zmult2_eq [of 512 X 262144] by simp
  then show "X div 262144 = X div 134217728 * 512 + X div 262144 mod 512" by (simp only: div_mult_mod_eq)
qed (simp only: div_mult_mod_eq)

lemma va_path_page:
  "va_path va = [va div 4096 div 134217728 mod 512, va div 4096 div 262144 mod 512, va div 4096 div 512 mod 512]"
  by (simp add: va_path_def zdiv_zmult2_eq [symmetric])

lemma same_page:
  assumes "fst uvm_area \<le> va" "va < snd uvm_area" "fst uvm_area \<le> vb" "vb < snd uvm_area"
  shows "va_path va = va_path vb \<and> va div 4096 mod 512 = vb div 4096 mod 512 \<longleftrightarrow> va div 4096 = vb div 4096"
proof
  assume eq: "va_path va = va_path vb \<and> va div 4096 mod 512 = vb div 4096 mod 512"
  have "va div 4096 div 134217728 = 32" "vb div 4096 div 134217728 = 32"
    using assms by (simp_all add: uvm_area_def vm_areas_def zdiv_zmult2_eq [symmetric])
  moreover have "va div 4096 div 262144 mod 512 = vb div 4096 div 262144 mod 512"
    "va div 4096 div 512 mod 512 = vb div 4096 div 512 mod 512"
    using eq unfolding va_path_page by blast+
  ultimately show "va div 4096 = vb div 4096"
    by (intro trans [OF page_number_split [of "va div 4096"]] trans [OF _ page_number_split [of "vb div 4096", symmetric]])
      (simp only: eq)
qed (simp only: va_path_page)

lemma leaf_translate:
  assumes ok: "space_ok m root F" and va: "fst uvm_area \<le> va" "va < snd uvm_area"
    and t: "table_at m root (va_path va) = Some b" and e: "0 \<le> e" "e < 18446744073709551616"
    and vb: "fst uvm_area \<le> vb" "vb < snd uvm_area"
  shows "translate (store64 m (b + 8 * (va div 4096 mod 512)) e) root vb =
    (if vb div 4096 = va div 4096 then (if present e then Some e else None) else translate m root vb)"
proof -
  let ?m = "store64 m (b + 8 * (va div 4096 mod 512)) e" and ?j = "vb div 4096 mod 512"
  note u = va_path_user(1) [OF va] and w = va_path_user(1) [OF vb]
  have l: "length (va_path va) = 3" by (simp add: va_path_def)
  have tab: "table_at ?m root (va_path vb) = table_at m root (va_path vb)"
    by (rule table_at_leaf [OF ok u l t _ _ w]) simp_all
  have ent: "ent ?m c ?j = (if vb div 4096 = va div 4096 then e else ent m c ?j)"
    if c: "table_at m root (va_path vb) = Some c" for c
  proof -
    have "c = b \<longleftrightarrow> va_path vb = va_path va" using space_ok_inj [OF ok w u] c t by auto
    then have "c = b \<and> ?j = va div 4096 mod 512 \<longleftrightarrow> vb div 4096 = va div 4096" using same_page [OF vb va] by auto
    then show ?thesis
      using space_okD(1) [OF ok w c] space_okD(1) [OF ok u t] e by (simp add: ent_store u64_id)
  qed
  show ?thesis
  proof (cases "vb div 4096 = va div 4096")
    case True
    then have p: "va_path vb = va_path va" using same_page [OF vb va] by simp
    have "table_at ?m root (va_path vb) = Some b" using tab t p by simp
    with True ent [of b] t p show ?thesis by (simp add: translate_def)
  next
    case False
    with ent show ?thesis by (simp add: translate_def tab split: option.split)
  qed
qed

subsection \<open>Pages from the allocator\<close>

lemma store64_zero: "store64 m a 0 = (\<lambda>x. if x \<in> bytes (a, 8) then 0 else m x)"
proof
  fix x
  show "store64 m a 0 x = (if x \<in> bytes (a, 8) then 0 else m x)"
  proof (cases "x \<in> bytes (a, 8)")
    case True
    then have "x = a \<or> x = a + 1 \<or> x = a + 2 \<or> x = a + 3 \<or> x = a + 4 \<or> x = a + 5 \<or> x = a + 6 \<or> x = a + 7"
      unfolding bytes_iff by presburger
    then show ?thesis by (auto simp: store64_def store32_def)
  qed (auto simp: store64_frame)
qed

lemma zero_page_eq: "zero_page m b = (\<lambda>x. if x \<in> bytes (b, 4096) then 0 else m x)"
proof -
  have "fold (\<lambda>i m. store64 m (b + 8 * int i) 0) [0..<n] m = (\<lambda>x. if x \<in> bytes (b, 8 * int n) then 0 else m x)" for n
  proof (induction n)
    case (Suc n)
    have "fold (\<lambda>i m. store64 m (b + 8 * int i) 0) [0..<Suc n] m =
        store64 (\<lambda>x. if x \<in> bytes (b, 8 * int n) then 0 else m x) (b + 8 * int n) 0"
      using Suc by simp
    then show ?case unfolding store64_zero by (auto simp: fun_eq_iff)
  next
    case 0
    show ?case by (rule ext) auto
  qed
  from this [of 512] show ?thesis by (simp add: zero_page_def pgsize_def)
qed

lemma ent_zero_page: "0 \<le> j \<Longrightarrow> j < 512 \<Longrightarrow> ent (zero_page m b) b j = 0"
  by (simp add: ent_def zero_page_eq load64_def load32_def)

subsection \<open>The walk\<close>

text \<open>The upper tables, in the order of the walk below the root.\<close>

definition upper :: "ptinfo list" where
  "upper = tl pgtables"

text \<open>On a complete path the walk changes nothing.\<close>

lemma ptwalk_loop_complete:
  "infos \<noteq> [] \<Longrightarrow> table_at (phys v) cur (butlast (map (indexof va) infos)) = Some t \<Longrightarrow>
     ptwalk_loop infos va flags cur v = cret (v, t + 8 * indexof va (last infos))"
proof (induction infos arbitrary: cur)
  case (Cons info infos)
  show ?case
  proof (cases infos)
    case (Cons j js)
    with Cons.prems(2) have p: "present (ent (phys v) cur (indexof va info))"
      and t: "table_at (phys v) (baseof (ent (phys v) cur (indexof va info))) (butlast (map (indexof va) infos)) = Some t"
      by (auto split: if_splits)
    from Cons.IH [OF _ t] Cons p show ?thesis by (simp add: Let_def ent_def)
  qed (use Cons.prems in simp)
qed simp

lemma indices:
  "map (indexof va) upper = va_path va @ [va div 4096 mod 512]" "last upper = pgtables ! 4"
  "indexof va (pgtables ! 4) = va div 4096 mod 512" "indexof va (pgtables ! 0) = 0"
  by (simp_all add: upper_def pgtables_def va_path_def indexof_eq)

lemma upper_nonempty: "upper \<noteq> []"
  by (simp add: upper_def pgtables_def)

lemma ptwalk_loop_step:
  "infos \<noteq> [] \<Longrightarrow> ptwalk_loop (info # infos) addr flags cur v =
     (let slot = cur + 8 * indexof addr info in
      if load64 (phys v) slot AND PTE_P = 0 then
        cbind (pgallocz v) (\<lambda>(v, next_page).
          ptwalk_loop infos addr flags next_page
            (v\<lparr>phys := store64 (phys v) slot (next_page OR PTE_P OR flags)\<rparr>))
      else ptwalk_loop infos addr flags (baseof (load64 (phys v) slot)) v)"
proof (cases infos)
  case (Cons j js)
  show ?thesis unfolding Cons by (rule ptwalk_loop.simps(3))
qed simp

text \<open>\<open>protect\<close> copies one top-level entry, the one that covers the 512 GiB of the kernel.\<close>

lemma copy_kernel_areas: "copy_kernel u k vm_areas m = Some (store64 m u (load64 m k))"
proof -
  have i: "indexof 0 (pgtables ! 1) = 0" "pshift (pgtables ! 1) = 39"
    by (simp_all add: pgtables_def indexof_def)
  have "copy_area u k 0 549755813888 m = copy_area u k 549755813888 549755813888 (store64 m u (load64 m k))"
    using i by (subst copy_area.simps) (simp add: u64_def push_bit_eq_mult)
  also have "\<dots> = Some (store64 m u (load64 m k))" by (subst copy_area.simps) simp
  finally show ?thesis by (simp add: vm_areas_def)
qed

lemma set_addrspace_frame: "x \<notin> bytes (as, 32) \<Longrightarrow> set_addrspace m as p x = m x"
  by (auto simp: set_addrspace_def Let_def as_ptr_def store64_frame store32_frame not_le)

lemma np_5: "4096 dvd np \<Longrightarrow> np + 4096 \<le> 18446744073709551616 \<Longrightarrow> np + 5 < 18446744073709551616" for np :: int
  by simp

text \<open>What the code relies on from the function behind \<^verbatim>\<open>pgalloc\<close>; \<open>left s n\<close> says that it has at least \<open>n\<close> pages in the
  state \<open>s\<close>.\<close>

locale page_source =
  fixes owns :: "'a pgstate \<Rightarrow> int set \<Rightarrow> bool"
    and source :: "int \<Rightarrow> 'a pgstate \<Rightarrow> ('a pgstate \<times> int) cres"
    and left :: "'a pgstate \<Rightarrow> nat \<Rightarrow> bool"
  assumes page: "owns s F \<Longrightarrow> source pgsize s = cret ((m', a'), p) \<Longrightarrow> p \<noteq> 0 \<Longrightarrow>
      \<exists>F'. owns (m', a') F' \<and> F' \<subseteq> F \<and> bytes (p, 4096) \<subseteq> F - F' \<and> 4096 dvd p \<and> 0 < p \<and> p + 4096 \<le> 18446744073709551616"
    and page_frame: "owns s F \<Longrightarrow> source pgsize s = cret ((m', a'), p) \<Longrightarrow> x \<notin> F \<Longrightarrow> m' x = fst s x"
    and answers: "owns s F \<Longrightarrow> source pgsize s \<noteq> None"
    and stable: "owns (m, a) F \<Longrightarrow> \<forall>x \<in> F. m' x = m x \<Longrightarrow> owns (m', a) F"
    and more: "owns s F \<Longrightarrow> left s (Suc n) \<Longrightarrow> \<exists>s' p. source pgsize s = cret (s', p) \<and> p \<noteq> 0 \<and> left s' n"
    and left_stable: "owns (m, a) F \<Longrightarrow> left (m, a) n \<Longrightarrow> \<forall>x \<in> F. m' x = m x \<Longrightarrow> left (m', a) n"
    and left_less: "left s (Suc n) \<Longrightarrow> left s n"
begin

text \<open>An address space at \<open>as\<close> with its tables from \<open>root\<close>, beside the free memory \<open>F\<close>.\<close>

definition space :: "'a vme \<Rightarrow> int \<Rightarrow> int \<Rightarrow> int set \<Rightarrow> bool" where
  "space v as root F \<longleftrightarrow>
     pgalloc v = source \<and> owns (phys v, pgst v) F \<and> space_ok (phys v) root F \<and>
     load64 (phys v) (as_ptr as) = root + 5 \<and> bytes (as, 32) \<inter> (F \<union> table_bytes (phys v) root) = {}"

text \<open>How far a walk may change the state.\<close>

definition grown :: "'a vme \<Rightarrow> 'a vme \<Rightarrow> int \<Rightarrow> int \<Rightarrow> int set \<Rightarrow> int set \<Rightarrow> bool" where
  "grown v v' as root F F' \<longleftrightarrow>
     space v' as root F' \<and> F' \<subseteq> F \<and>
     v' = v\<lparr>phys := phys v', pgst := pgst v'\<rparr> \<and>
     (\<forall>va. fst uvm_area \<le> va \<longrightarrow> va < snd uvm_area \<longrightarrow> translate (phys v') root va = translate (phys v) root va) \<and>
     table_bytes (phys v') root \<subseteq> table_bytes (phys v) root \<union> F \<and>
     (\<forall>x. x \<notin> F \<union> table_bytes (phys v) root \<longrightarrow> phys v' x = phys v x)"

lemma grown_refl: "space v as root F \<Longrightarrow> grown v v as root F F"
  by (simp add: grown_def)

lemma grown_trans: "grown v v' as root F F' \<Longrightarrow> grown v' v'' as root F' F'' \<Longrightarrow> grown v v'' as root F F''"
proof -
  assume a: "grown v v' as root F F'" and b: "grown v' v'' as root F' F''"
  have "v'' = v\<lparr>phys := phys v'', pgst := pgst v''\<rparr>"
    using a b unfolding grown_def by (metis vme.surjective vme.update_convs(1,2) vme.select_convs)
  then show ?thesis using a b unfolding grown_def by (auto simp: subset_iff)
qed

text \<open>One level of the walk where the entry is not present.\<close>

lemma new_level:
  assumes s: "space v as root F" and p: "user_path (is @ [i])" "table_at (phys v) root is = Some cur"
    and absent: "\<not> present (ent (phys v) cur i)" and flags: "0 \<le> flags" "flags < 4096" "even flags"
  shows "(\<exists>f. pgallocz v = cfail f \<and> \<not> left (phys v, pgst v) (Suc 0)) \<or>
    (\<exists>v1 np F'. pgallocz v = cret (v1, np) \<and>
       (let v2 = v1\<lparr>phys := store64 (phys v1) (cur + 8 * i) (np OR PTE_P OR flags)\<rparr>
        in grown v v2 as root F F' \<and> table_at (phys v2) root (is @ [i]) = Some np \<and>
          (\<forall>n. left (phys v, pgst v) (Suc n) \<longrightarrow> left (phys v2, pgst v2) n)))"
proof (cases "source pgsize (phys v, pgst v)")
  case None
  then show ?thesis using answers [of "(phys v, pgst v)" F] s by (simp add: space_def)
next
  case (Some r)
  have al: "pgalloc v = source" and own: "owns (phys v, pgst v) F" and ok: "space_ok (phys v) root F"
    using s by (auto simp: space_def)
  show ?thesis
  proof (cases r)
    case (Inl f)
    then have "pgallocz v = cfail f" using Some al by (simp add: pgallocz_def cbind_def cfail_def)
    moreover have "\<not> left (phys v, pgst v) (Suc 0)" using more [OF own, of 0] Some Inl by (auto simp: cret_def)
    ultimately show ?thesis by blast
  next
    case (Inr q)
    obtain m' a' np where q: "q = ((m', a'), np)" by (cases q) auto
    have src: "source pgsize (phys v, pgst v) = cret ((m', a'), np)" using Some Inr q by (simp add: cret_def)
    show ?thesis
    proof (cases "np = 0")
      case True
      then have "pgallocz v = cfail Panic" using src al by (simp add: pgallocz_def)
      moreover have "\<not> left (phys v, pgst v) (Suc 0)" using more [OF own, of 0] src True by auto
      ultimately show ?thesis by blast
    next
      case False
      obtain F' where F': "owns (m', a') F'" "F' \<subseteq> F" "bytes (np, 4096) \<subseteq> F - F'" "4096 dvd np" "0 < np"
          "np + 4096 \<le> 18446744073709551616"
        using page [OF own src False] by blast
      let ?m = "zero_page m' np" and ?f = "1 + flags"
      have zf: "x \<notin> F \<Longrightarrow> ?m x = phys v x" for x
        using page_frame [OF own src, of x] F'(3) by (auto simp: zero_page_eq)
      have "1 OR flags = 1 + flags"
        using flags(3) by (intro disjunctive_add_eq_or [symmetric]) (simp add: and.commute [of 1] even_iff_mod_2_eq_zero and_one_eq)
      then have e: "np OR 1 OR flags = np + ?f" using F'(4) flags or_flags [of np "?f"] by (simp add: even_flags_bound)
      let ?v1 = "v\<lparr>phys := ?m, pgst := a'\<rparr>"
      let ?v2 = "?v1\<lparr>phys := hang ?m cur i np ?f\<rparr>"
      have h: "hung (phys v) ?m root is i cur np ?f F F'"
        using ok p absent F' zf flags even_flags_bound [of flags] by (simp add: hung_def ent_zero_page)
      have u: "user_path is" "0 \<le> i" "i < 512" using user_path_butlast [OF p(1)] by auto
      have sl: "x \<in> bytes (cur + 8 * i, 8) \<Longrightarrow> x \<in> table_bytes (phys v) root" for x
        using slot_in_table [OF u(2,3), of cur] table_bytesI [OF u(1) p(2)] by blast
      have fr: "x \<notin> bytes (cur + 8 * i, 8) \<Longrightarrow> hang ?m cur i np ?f x = ?m x" for x
        by (simp add: hang_def store64_frame bytes_iff not_le not_less)
      have keep: "hang ?m cur i np ?f x = phys v x" if "x \<notin> F \<union> table_bytes (phys v) root" for x
        using fr [of x] sl [of x] zf [of x] that by auto
      have same: "\<forall>x \<in> F'. hang ?m cur i np ?f x = m' x"
      proof
        fix x assume x: "x \<in> F'"
        then have "x \<notin> table_bytes (phys v) root" using table_bytes_free [OF ok] F'(2) by blast
        moreover have "x \<notin> bytes (np, 4096)" using x F'(3) by blast
        then have "?m x = m' x" unfolding zero_page_eq by (simp del: bytes_iff)
        ultimately show "hang ?m cur i np ?f x = m' x" using fr [of x] sl [of x] by auto
      qed
      have lf: "left (hang ?m cur i np ?f, a') n" if "left (phys v, pgst v) (Suc n)" for n
        using left_stable [OF F'(1) _ same] more [OF own that] src by auto
      have "owns (hang ?m cur i np ?f, a') F'" by (rule stable [OF F'(1) same])
      moreover have as: "bytes (as, 32) \<inter> (F \<union> table_bytes (phys v) root) = {}" using s by (simp add: space_def)
      have "load64 (hang ?m cur i np ?f) (as_ptr as) = load64 (phys v) (as_ptr as)"
      proof (rule load64_cong)
        fix x assume "as_ptr as \<le> x" "x < as_ptr as + 8"
        then have "x \<in> bytes (as, 32)" by (simp add: as_ptr_def)
        then show "hang ?m cur i np ?f x = phys v x" using as keep [of x] by blast
      qed
      moreover have "bytes (as, 32) \<inter> (F' \<union> table_bytes (hang ?m cur i np ?f) root) = {}"
        using as F'(2,3) unfolding hang_table_bytes [OF h] by blast
      ultimately have "space ?v2 as root F'" using s hang_ok [OF h] by (simp add: space_def)
      then have "grown v ?v2 as root F F'"
        using F'(2,3) keep hang_translate [OF h] hang_table_bytes [OF h] by (auto simp: grown_def)
      moreover have "table_at (phys ?v2) root (is @ [i]) = Some np" using hang_tables [OF h p(1)] by simp
      moreover have "pgallocz v = cret (?v1, np)" using src al False by (simp add: pgallocz_def)
      ultimately show ?thesis using lf by (auto simp: hang_def e Let_def)
    qed
  qed
qed

lemma left_first: "left s (Suc n) \<Longrightarrow> left s (Suc 0)"
  by (induction n) (auto intro: left_less)

lemma ptwalk_loop_grows:
  "infos \<noteq> [] \<Longrightarrow> space v as root F \<Longrightarrow> user_path (is @ butlast (map (indexof va) infos)) \<Longrightarrow>
     table_at (phys v) root is = Some cur \<Longrightarrow> 0 \<le> flags \<Longrightarrow> flags < 4096 \<Longrightarrow> even flags \<Longrightarrow>
     (\<exists>f. ptwalk_loop infos va flags cur v = cfail f \<and> \<not> left (phys v, pgst v) (length infos - 1)) \<or>
     (\<exists>v' t F'. ptwalk_loop infos va flags cur v = cret (v', t + 8 * indexof va (last infos)) \<and>
        grown v v' as root F F' \<and> table_at (phys v') root (is @ butlast (map (indexof va) infos)) = Some t)"
proof (induction infos arbitrary: "is" cur v F)
  case (Cons info infos)
  let ?i = "indexof va info" and ?ps = "butlast (map (indexof va) infos)"
  show ?case
  proof (cases "infos = []")
    case True
    with Cons.prems grown_refl [of v as root F] show ?thesis by auto
  next
    case False
    then obtain j js where js: "infos = j # js" by (cases infos) auto
    have b: "butlast (map (indexof va) (info # infos)) = ?i # ?ps" "last (info # infos) = last infos" using False by auto
    have l: "length (info # infos) - 1 = Suc (length infos - 1)" using False by (cases infos) auto
    have u: "user_path ((is @ [?i]) @ ?ps)" using Cons.prems(3) unfolding b by simp
    have u1: "user_path (is @ [?i])" using user_path_take [OF u, of "Suc (length is)"] by simp
    show ?thesis
    proof (cases "present (ent (phys v) cur ?i)")
      case True
      then have "table_at (phys v) root (is @ [?i]) = Some (baseof (ent (phys v) cur ?i))"
        using Cons.prems(4) by (simp add: table_at_snoc)
      from Cons.IH [OF False Cons.prems(2) u this Cons.prems(5-7)] True left_less [of "(phys v, pgst v)" "length infos - 1"]
      show ?thesis unfolding b l js by (auto simp: Let_def ent_def)
    next
      case absent: False
      from new_level [OF Cons.prems(2) u1 Cons.prems(4) absent Cons.prems(5-7)]
      show ?thesis
      proof
        assume "\<exists>f. pgallocz v = cfail f \<and> \<not> left (phys v, pgst v) (Suc 0)"
        then show ?thesis using absent left_first [of "(phys v, pgst v)" "length infos - 1"] unfolding l js
          by (auto simp: Let_def ent_def)
      next
        assume "\<exists>v1 np F'. pgallocz v = cret (v1, np) \<and>
          (let v2 = v1\<lparr>phys := store64 (phys v1) (cur + 8 * ?i) (np OR PTE_P OR flags)\<rparr>
           in grown v v2 as root F F' \<and> table_at (phys v2) root (is @ [?i]) = Some np \<and>
             (\<forall>n. left (phys v, pgst v) (Suc n) \<longrightarrow> left (phys v2, pgst v2) n))"
        then obtain v1 np F' where p: "pgallocz v = cret (v1, np)"
          and g: "grown v (v1\<lparr>phys := store64 (phys v1) (cur + 8 * ?i) (np OR PTE_P OR flags)\<rparr>) as root F F'"
            (is "grown v ?v2 as root F F'")
          and t: "table_at (phys (v1\<lparr>phys := store64 (phys v1) (cur + 8 * ?i) (np OR PTE_P OR flags)\<rparr>)) root (is @ [?i]) = Some np"
          and lf: "left (phys v, pgst v) (Suc (length infos - 1)) \<Longrightarrow>
            left (store64 (phys v1) (cur + 8 * ?i) (np OR PTE_P OR flags), pgst v1) (length infos - 1)"
          by (auto simp: Let_def)
        have "space ?v2 as root F'" using g unfolding grown_def by (rule conjunct1)
        from Cons.IH [OF False this u t Cons.prems(5-7)]
        have "(\<exists>f. ptwalk_loop infos va flags np ?v2 = cfail f \<and> \<not> left (phys v, pgst v) (Suc (length infos - 1))) \<or>
          (\<exists>v' t F''. ptwalk_loop infos va flags np ?v2 = cret (v', t + 8 * indexof va (last infos)) \<and>
            grown v v' as root F F'' \<and> table_at (phys v') root (is @ ?i # ?ps) = Some t)"
          using grown_trans [OF g] lf by fastforce
        moreover have "ptwalk_loop (info # infos) va flags cur v = ptwalk_loop infos va flags np ?v2"
          using absent p unfolding js by (simp add: Let_def ent_def)
        ultimately show ?thesis unfolding b l by simp
      qed
    qed
  qed
qed simp

lemma root_facts:
  assumes "space v as root F"
  shows "4096 dvd root" "0 < root" "root + 4096 \<le> 18446744073709551616" "table_at (phys v) root [] = Some root"
  using assms space_okD [of "phys v" root F "[]" root] by (auto simp: space_def)

lemma ptwalk_root: "space v as root F \<Longrightarrow> ptwalk v as va flags = ptwalk_loop upper va flags root v"
proof -
  assume s: "space v as root F"
  note r = root_facts [OF s]
  obtain k where "root = 4096 * k" using r(1) by (auto elim: dvdE)
  then have "(root + 5) mod 4096 = 5" "odd (root + 5)" by simp_all
  then have b: "baseof (root + 5) = root" using r by (subst baseof_eq) auto
  have "pgtables = pgtables ! 0 # upper" by (simp add: upper_def pgtables_def)
  then have "ptwalk_loop pgtables va flags (as_ptr as) v = ptwalk_loop (pgtables ! 0 # upper) va flags (as_ptr as) v"
    by simp
  also have "\<dots> = ptwalk_loop upper va flags root v"
    using s \<open>odd (root + 5)\<close> b indices(4) by (simp add: ptwalk_loop_step [OF upper_nonempty] space_def Let_def)
  finally show ?thesis by (simp add: ptwalk_def)
qed

lemma ptwalk_complete:
  "space v as root F \<Longrightarrow> table_at (phys v) root (va_path va) = Some t \<Longrightarrow>
     ptwalk v as va flags = cret (v, t + 8 * (va div 4096 mod 512))"
  using ptwalk_loop_complete [of upper v root va t flags]
  by (simp add: ptwalk_root indices upper_nonempty)

lemma ptwalk_grows:
  assumes "space v as root F" "fst uvm_area \<le> va" "va < snd uvm_area"
  shows "(\<exists>f. ptwalk v as va 6 = cfail f \<and> \<not> left (phys v, pgst v) 3) \<or>
    (\<exists>v' t F'. ptwalk v as va 6 = cret (v', t + 8 * (va div 4096 mod 512)) \<and>
       grown v v' as root F F' \<and> table_at (phys v') root (va_path va) = Some t)"
proof -
  have "user_path ([] @ butlast (map (indexof va) upper))"
    using va_path_user(1) [OF assms(2,3)] by (simp add: indices)
  note ptwalk_loop_grows [OF upper_nonempty assms(1) this root_facts(4) [OF assms(1)], of 6]
  moreover have "length upper - 1 = 3" by (simp add: upper_def pgtables_def)
  ultimately show ?thesis by (simp add: ptwalk_root [OF assms(1)] indices)
qed

text \<open>The write of one leaf entry of a space.\<close>

lemma space_leaf:
  assumes s: "space v as root F" and va: "fst uvm_area \<le> va" "va < snd uvm_area"
    and t: "table_at (phys v) root (va_path va) = Some t" and e: "0 \<le> e" "e < 18446744073709551616"
  defines "v' \<equiv> v\<lparr>phys := store64 (phys v) (t + 8 * (va div 4096 mod 512)) e\<rparr>"
  shows "space v' as root F" "table_bytes (phys v') root = table_bytes (phys v) root"
    "table_at (phys v') root (va_path va) = Some t"
    "x \<notin> table_bytes (phys v) root \<Longrightarrow> phys v' x = phys v x"
    "fst uvm_area \<le> vb \<Longrightarrow> vb < snd uvm_area \<Longrightarrow> translate (phys v') root vb =
      (if vb div 4096 = va div 4096 then (if present e then Some e else None) else translate (phys v) root vb)"
proof -
  note u = va_path_user(1) [OF va]
  have ok: "space_ok (phys v) root F" and as: "bytes (as, 32) \<inter> (F \<union> table_bytes (phys v) root) = {}"
    and own: "owns (phys v, pgst v) F" using s by (auto simp: space_def)
  have i: "0 \<le> va div 4096 mod 512" "va div 4096 mod 512 < 512" by simp_all
  have l: "length (va_path va) = 3" by (simp add: va_path_def)
  have sl: "bytes (t + 8 * (va div 4096 mod 512), 8) \<subseteq> table_bytes (phys v) root"
    using slot_in_table [OF i, of t] table_bytesI [OF u t] by blast
  have fr: "phys v' x = phys v x" if "x \<notin> table_bytes (phys v) root" for x
  proof -
    have "x \<notin> bytes (t + 8 * (va div 4096 mod 512), 8)" using sl that by blast
    then show ?thesis by (simp add: v'_def store64_frame not_le not_less)
  qed
  then show "x \<notin> table_bytes (phys v) root \<Longrightarrow> phys v' x = phys v x" .
  show tb: "table_bytes (phys v') root = table_bytes (phys v) root"
    using leaf_ok(2) [OF ok u l t i] by (simp add: v'_def)
  show "table_at (phys v') root (va_path va) = Some t"
    using table_at_leaf [OF ok u l t i u] t by (simp add: v'_def)
  show "translate (phys v') root vb =
      (if vb div 4096 = va div 4096 then (if present e then Some e else None) else translate (phys v) root vb)"
    if "fst uvm_area \<le> vb" "vb < snd uvm_area"
    using leaf_translate [OF ok va t e that] by (simp add: v'_def)
  have "owns (phys v', pgst v) F" using table_bytes_free [OF ok] fr by (intro stable [OF own]) blast
  moreover have "load64 (phys v') (as_ptr as) = load64 (phys v) (as_ptr as)"
  proof (rule load64_cong)
    fix x assume "as_ptr as \<le> x" "x < as_ptr as + 8"
    then have "x \<in> bytes (as, 32)" by (simp add: as_ptr_def)
    then show "phys v' x = phys v x" using as fr [of x] by blast
  qed
  ultimately show "space v' as root F"
    using s leaf_ok(1) [OF ok u l t i] tb by (simp add: space_def v'_def)
qed

text \<open>Mapping and unmapping a page, and the checks.\<close>

lemma low_bits_clear: "x AND NOT (pgsize - 1) = x - x mod 4096" for x
  by (simp add: pgsize_def and_not_low)

lemma flags_6: "PTE_W OR PTE_U = (6 :: int)"
  by simp

lemma map_outside: "\<not> (fst uvm_area \<le> va \<and> va < snd uvm_area) \<Longrightarrow> map_page v as va pa prot = cfail Panic"
  by (simp add: map_page_def)

lemma map_unaligned:
  "0 \<le> va \<Longrightarrow> va < 18446744073709551616 \<Longrightarrow> 0 \<le> pa \<Longrightarrow> pa < 18446744073709551616 \<Longrightarrow>
     \<not> (4096 dvd va \<and> 4096 dvd pa) \<Longrightarrow> map_page v as va pa prot = cfail Panic"
proof -
  assume r: "0 \<le> va" "va < 18446744073709551616" "0 \<le> pa" "pa < 18446744073709551616"
    and n: "\<not> (4096 dvd va \<and> 4096 dvd pa)"
  have "u64 (x - x mod 4096) = x - x mod 4096" if "0 \<le> x" "x < 18446744073709551616" for x
    using that zmod_le_nonneg_dividend [of x 4096] by (intro u64_id) auto
  then show ?thesis using r n by (auto simp: map_page_def low_bits_clear dvd_eq_mod_eq_0)
qed

lemma map_valid:
  assumes "fst uvm_area \<le> va" "va < snd uvm_area" "4096 dvd va" "0 \<le> pa" "pa < 18446744073709551616" "4096 dvd pa"
  shows "map_page v as va pa prot = cbind (ptwalk v as va 6) (\<lambda>(v, slot).
      cbind
        (if prot = 0 then
           if \<not> present (load64 (phys v) slot) then cfail Panic else cret (v\<lparr>phys := store64 (phys v) slot 0\<rparr>)
         else if present (load64 (phys v) slot) then cfail Panic
         else cret (v\<lparr>phys := store64 (phys v) slot (pa + (if prot AND 2 \<noteq> 0 then 7 else 5))\<rparr>))
        (\<lambda>v. cbind (ptwalk v as va 6) (\<lambda>(v, _). cret v)))"
proof -
  have "0 \<le> va" "va < 18446744073709551616" using assms(1,2) by (simp_all add: uvm_area_def vm_areas_def)
  then have "u64 (va AND NOT (pgsize - 1)) = va" "u64 (pa AND NOT (pgsize - 1)) = pa"
    using assms by (simp_all add: low_bits_clear u64_id)
  moreover have pte: "pa OR 1 OR 4 OR (if prot AND 2 \<noteq> 0 then 2 else 0) = pa + (if prot AND 2 \<noteq> 0 then 7 else 5)"
    using or_flags [OF assms(6), of 7] or_flags [OF assms(6), of 5] by simp
  ultimately show ?thesis using assms(1,2) unfolding map_page_def Let_def flags_6 pte and_present not_not by simp
qed

lemma translate_ent:
  "table_at m root (va_path va) = Some t \<Longrightarrow>
     translate m root va = (let e = load64 m (t + 8 * (va div 4096 mod 512)) in if present e then Some e else None)"
  by (simp add: translate_def ent_def)

lemma map_new:
  assumes s: "space v as root F" and va: "fst uvm_area \<le> va" "va < snd uvm_area" "4096 dvd va"
    and pa: "0 \<le> pa" "pa < 18446744073709551616" "4096 dvd pa" and prot: "prot \<noteq> 0"
    and new: "translate (phys v) root va = None"
  shows "(table_at (phys v) root (va_path va) = None \<and> \<not> left (phys v, pgst v) 3 \<and> (\<exists>f. map_page v as va pa prot = cfail f)) \<or>
    (\<exists>v' F'. map_page v as va pa prot = cret v' \<and> space v' as root F' \<and> F' \<subseteq> F \<and>
       (\<forall>vb. fst uvm_area \<le> vb \<longrightarrow> vb < snd uvm_area \<longrightarrow> translate (phys v') root vb =
          (if vb div 4096 = va div 4096 then Some (pa + (if prot AND 2 \<noteq> 0 then 7 else 5))
           else translate (phys v) root vb)) \<and>
       (\<forall>x. x \<notin> F \<union> table_bytes (phys v) root \<longrightarrow> phys v' x = phys v x))"
proof -
  let ?e = "pa + (if prot AND 2 \<noteq> 0 then 7 else 5)"
  obtain k where k: "pa = 4096 * k" using pa(3) by (auto elim: dvdE)
  have e: "0 \<le> ?e" "?e < 18446744073709551616" "present ?e" using pa(1,2) k by auto
  from ptwalk_grows [OF s va(1,2)] show ?thesis
  proof
    assume f: "\<exists>f. ptwalk v as va 6 = cfail f \<and> \<not> left (phys v, pgst v) 3"
    then have "table_at (phys v) root (va_path va) = None"
      using ptwalk_complete [OF s, of va] by (cases "table_at (phys v) root (va_path va)") auto
    with f show ?thesis by (auto simp: map_valid [OF va pa])
  next
    assume "\<exists>v' t F'. ptwalk v as va 6 = cret (v', t + 8 * (va div 4096 mod 512)) \<and>
       grown v v' as root F F' \<and> table_at (phys v') root (va_path va) = Some t"
    then obtain v1 t F' where w: "ptwalk v as va 6 = cret (v1, t + 8 * (va div 4096 mod 512))"
      and g: "grown v v1 as root F F'" and t: "table_at (phys v1) root (va_path va) = Some t" by blast
    have s1: "space v1 as root F'" using g unfolding grown_def by (rule conjunct1)
    have "translate (phys v1) root va = None" using g new va by (simp add: grown_def)
    then have absent: "\<not> present (load64 (phys v1) (t + 8 * (va div 4096 mod 512)))"
      by (simp add: translate_ent [OF t] Let_def split: if_splits)
    let ?v = "v1\<lparr>phys := store64 (phys v1) (t + 8 * (va div 4096 mod 512)) ?e\<rparr>"
    note lf = space_leaf [OF s1 va(1,2) t e(1,2)]
    have "ptwalk ?v as va 6 = cret (?v, t + 8 * (va div 4096 mod 512))" by (rule ptwalk_complete [OF lf(1,3)])
    then have m: "map_page v as va pa prot = cret ?v" using w absent prot by (simp add: map_valid [OF va pa])
    have "phys ?v x = phys v x" if x: "x \<notin> F \<union> table_bytes (phys v) root" for x
    proof -
      have "x \<notin> table_bytes (phys v1) root" "phys v1 x = phys v x" using g x unfolding grown_def by blast+
      then show ?thesis using lf(4) [of x] by simp
    qed
    moreover have "translate (phys ?v) root vb =
        (if vb div 4096 = va div 4096 then Some ?e else translate (phys v) root vb)"
      if "fst uvm_area \<le> vb" "vb < snd uvm_area" for vb
      using lf(5) [OF that] e(3) g that by (simp add: grown_def)
    moreover have "F' \<subseteq> F" using g by (simp add: grown_def)
    ultimately show ?thesis using m lf(1) by blast
  qed
qed

lemma map_mapped:
  assumes s: "space v as root F" and va: "fst uvm_area \<le> va" "va < snd uvm_area" "4096 dvd va"
    and pa: "0 \<le> pa" "pa < 18446744073709551616" "4096 dvd pa"
    and old: "translate (phys v) root va = Some e"
  shows "prot \<noteq> 0 \<Longrightarrow> map_page v as va pa prot = cfail Panic"
    and "\<exists>v'. map_page v as va pa 0 = cret v' \<and> space v' as root F \<and>
      (\<forall>vb. fst uvm_area \<le> vb \<longrightarrow> vb < snd uvm_area \<longrightarrow> translate (phys v') root vb =
          (if vb div 4096 = va div 4096 then None else translate (phys v) root vb)) \<and>
      (\<forall>x. x \<notin> table_bytes (phys v) root \<longrightarrow> phys v' x = phys v x)"
proof -
  obtain t where t: "table_at (phys v) root (va_path va) = Some t" using old by (auto simp: translate_def split: option.splits)
  then have p: "present (load64 (phys v) (t + 8 * (va div 4096 mod 512)))"
    using old by (simp add: translate_ent Let_def split: if_splits)
  note w = ptwalk_complete [OF s t, of 6]
  show "map_page v as va pa prot = cfail Panic" if "prot \<noteq> 0" using w p that by (simp add: map_valid [OF va pa])
  let ?v = "v\<lparr>phys := store64 (phys v) (t + 8 * (va div 4096 mod 512)) 0\<rparr>"
  note lf = space_leaf [OF s va(1,2) t, of 0]
  have "ptwalk ?v as va 6 = cret (?v, t + 8 * (va div 4096 mod 512))" by (rule ptwalk_complete [OF lf(1,3)]) simp_all
  then have "map_page v as va pa 0 = cret ?v" using w p by (simp add: map_valid [OF va pa])
  then show "\<exists>v'. map_page v as va pa 0 = cret v' \<and> space v' as root F \<and>
      (\<forall>vb. fst uvm_area \<le> vb \<longrightarrow> vb < snd uvm_area \<longrightarrow> translate (phys v') root vb =
          (if vb div 4096 = va div 4096 then None else translate (phys v) root vb)) \<and>
      (\<forall>x. x \<notin> table_bytes (phys v) root \<longrightarrow> phys v' x = phys v x)"
    using lf(1,4,5) by (intro exI [of _ ?v]) simp
qed

text \<open>A new address space.\<close>

lemma protect_new:
  assumes own: "pgalloc v = source" "owns (phys v, pgst v) F"
    and place: "bytes (as, 32) \<inter> F = {}" "bytes (kpt v, 4096) \<inter> F = {}"
  shows "(\<not> left (phys v, pgst v) 1 \<and> (\<exists>f. protect v as = cfail f)) \<or>
    (\<exists>v' root F'. protect v as = cret v' \<and> space v' as root F' \<and> F' \<subseteq> F \<and> bytes (root, 4096) \<subseteq> F \<and>
       (\<forall>va. fst uvm_area \<le> va \<longrightarrow> va < snd uvm_area \<longrightarrow> translate (phys v') root va = None) \<and>
       ent (phys v') root 0 = ent (phys v) (kpt v) 0 \<and>
       (\<forall>x. x \<notin> F \<union> bytes (as, 32) \<longrightarrow> phys v' x = phys v x))"
proof (cases "source pgsize (phys v, pgst v)")
  case None
  then show ?thesis using answers [OF own(2)] by simp
next
  case (Some r)
  show ?thesis
  proof (cases r)
    case (Inl f)
    then have "protect v as = cfail f" using Some own by (simp add: protect_def pgallocz_def cbind_def cfail_def)
    moreover have "\<not> left (phys v, pgst v) 1" using more [OF own(2), of 0] Some Inl by (auto simp: cret_def)
    ultimately show ?thesis by blast
  next
    case (Inr q)
    obtain m' a' np where q: "q = ((m', a'), np)" by (cases q) auto
    have src: "source pgsize (phys v, pgst v) = cret ((m', a'), np)" using Some Inr q by (simp add: cret_def)
    show ?thesis
    proof (cases "np = 0")
      case True
      then have "protect v as = cfail Panic" using src own by (simp add: protect_def pgallocz_def)
      moreover have "\<not> left (phys v, pgst v) 1" using more [OF own(2), of 0] src True by auto
      ultimately show ?thesis by blast
    next
      case False
      obtain F' where F': "owns (m', a') F'" "F' \<subseteq> F" "bytes (np, 4096) \<subseteq> F - F'" "4096 dvd np" "0 < np"
          "np + 4096 \<le> 18446744073709551616"
        using page [OF own(2) src False] by blast
      let ?z = "zero_page m' np"
      let ?c = "store64 ?z np (load64 ?z (kpt v))"
      let ?m = "set_addrspace ?c as (np + 5)"
      have fr: "?m x = ?c x" if "x \<notin> bytes (as, 32)" for x
        using that by (rule set_addrspace_frame)
      have cz: "?c x = ?z x" if "x \<notin> bytes (np, 4096)" for x
        using that by (intro store64_frame) auto
      have zz: "?z x = m' x" if "x \<notin> bytes (np, 4096)" for x
        using that unfolding zero_page_eq by (simp del: bytes_iff)
      have mm: "m' x = phys v x" if "x \<notin> F" for x using page_frame [OF own(2) src that] by simp
      have np: "x \<notin> bytes (np, 4096)" if "x \<notin> F" for x using F'(3) that by blast
      have keep: "?m x = phys v x" if "x \<notin> F \<union> bytes (as, 32)" for x
        using fr [of x] cz [OF np] zz [OF np] mm [of x] that by simp
      have root: "ent ?m np j = ent ?c np j" if "0 \<le> j" "j < 512" for j
        using place(1) F'(3) fr that by (intro ent_cong) blast+
      have e0: "ent ?c np j = (if j = 0 then load64 ?z (kpt v) else 0)" if "0 \<le> j" "j < 512" for j
        using ent_store [of np np 0 j ?z] F'(4) that ent_zero_page [of j m' np] by (simp add: u64_id)
      have "load64 ?z (kpt v) = load64 (phys v) (kpt v)"
      proof (rule load64_cong)
        fix x assume "kpt v \<le> x" "x < kpt v + 8"
        then have "x \<notin> F" using place(2) by (auto simp: disjoint_iff)
        then show "?z x = phys v x" using zz [OF np] mm [of x] by simp
      qed
      then have kern: "ent ?m np 0 = ent (phys v) (kpt v) 0" using root [of 0] e0 [of 0] by (simp add: ent_def)
      have tab: "table_at ?m np js = (if js = [] then Some np else None)" if "user_path js" for js
        using that root [of 32] e0 [of 32] by (cases js) (auto simp: user_path_def)
      have ok: "space_ok ?m np F'" using F' by (auto simp: space_ok_def tab split: if_splits)
      have tb: "table_bytes ?m np = bytes (np, 4096)"
        unfolding table_bytes_def using tab user_path_Nil by (auto simp del: bytes_iff split: if_splits)
      have "owns (?m, a') F'"
      proof (rule stable [OF F'(1)], rule ballI)
        fix x assume "x \<in> F'"
        then have "x \<notin> bytes (as, 32)" "x \<notin> bytes (np, 4096)" using place(1) F'(2,3) by blast+
        then show "?m x = m' x" using fr cz zz by simp
      qed
      moreover have "load64 ?m (as_ptr as) = np + 5"
        using F'(5,6) np_5 [OF F'(4)] by (simp add: set_addrspace_def Let_def mem_simps u64_id)
      moreover have "bytes (as, 32) \<inter> (F' \<union> table_bytes ?m np) = {}" using tb place(1) F'(2,3) by blast
      ultimately have "space (v\<lparr>phys := ?m, pgst := a'\<rparr>) as np F'" using ok own(1) by (simp add: space_def)
      moreover have "translate ?m np va = None" if "fst uvm_area \<le> va" "va < snd uvm_area" for va
        using tab [OF va_path_user(1) [OF that]] by (simp add: translate_def va_path_def)
      moreover have "protect v as = cret (v\<lparr>phys := ?m, pgst := a'\<rparr>)"
        using src own False or_flags [OF F'(4), of 5]
        by (simp add: protect_def pgallocz_def copy_kernel_areas)
      ultimately show ?thesis using F'(2,3) kern keep by (intro disjI2 exI [of _ "v\<lparr>phys := ?m, pgst := a'\<rparr>"] exI [of _ np] exI [of _ F']) auto
    qed
  qed
qed

end

end
