(* ===== verification/Kernel_Vm.thy ===== *)
theory Kernel_Vm
  imports Pmm_Client Am_Vme_Map
begin

unbundle bit_operations_syntax

text \<open>
  Virtual memory on top of the kernel's own allocator: the page allocator given to \<open>vme_init\<close> is
  \<^verbatim>\<open>pmm->alloc\<close> on one processor.  The contract \<open>page_source\<close> of the page tables is interpreted on
  \<open>kalloc\<close>, so that what \<open>map\<close> and \<open>protect\<close> do is proved for the two components together.
\<close>

definition kernel_pgalloc :: "nat \<Rightarrow> nat \<Rightarrow> int \<Rightarrow> pmm_state pgstate \<Rightarrow> (pmm_state pgstate \<times> int) cres" where
  "kernel_pgalloc ncpu c n = (\<lambda>(m, s).
     cbind (kalloc ncpu c n (s\<lparr>mem := m\<rparr>)) (\<lambda>(s, p). cret ((mem s, s), p)))"

definition page_owns :: "nat \<Rightarrow> nat \<Rightarrow> int \<Rightarrow> int \<Rightarrow> pmm_state pgstate \<Rightarrow> int set \<Rightarrow> bool" where
  "page_owns ncpu c lo hi = (\<lambda>(m, s) F. c < ncpu \<and> quiet ncpu s \<and>
     (\<exists>xs P. pmm_inv ncpu lo hi (s\<lparr>mem := m\<rparr>) xs P \<and> aligned ncpu xs P \<and> owned ncpu xs P = F))"

lemma page_owns_iff:
  "page_owns ncpu c lo hi (m, s) F \<longleftrightarrow> c < ncpu \<and> quiet ncpu s \<and>
     (\<exists>xs P. pmm_inv ncpu lo hi (s\<lparr>mem := m\<rparr>) xs P \<and> aligned ncpu xs P \<and> owned ncpu xs P = F)"
  by (simp add: page_owns_def)

lemma quiet_mem: "quiet ncpu (s\<lparr>mem := m\<rparr>) \<longleftrightarrow> quiet ncpu s"
  by (simp add: quiet_def)

lemma mem_update_same: "s\<lparr>mem := mem s\<rparr> = s" for s :: pmm_state
  by simp

lemma owned_in_heap:
  assumes inv: "pmm_inv ncpu lo hi s xs P"
  shows "owned ncpu xs P \<subseteq> {lo..<hi}"
proof -
  have "bytes r \<subseteq> {lo..<hi}" if "r \<in> set xs" for r
    using pmm_invD(1) [OF inv] that by (cases r) (force simp: free_ok_def)
  moreover have "page_owned g \<subseteq> {lo..<hi}" if g: "g \<in> set (all_pages ncpu P)" for g
  proof -
    obtain i where "i < ncpu" "g \<in> set (P i)" using g unfolding all_pages_mem by blast
    then have "lo \<le> fst g" "fst g + page_bytes \<le> hi" using pmm_invD(4) [OF inv] by (auto simp: pages_ok_def)
    moreover have "page_owned g \<subseteq> bytes (page_region g)" by (rule page_owned_within [OF pmm_inv_page(1) [OF inv g]])
    ultimately show ?thesis by (force simp: page_region_def)
  qed
  ultimately show ?thesis unfolding owned_def all_bytes_def by blast
qed

lemma size_class_4096: "size_class n \<Longrightarrow> 4096 \<le> n \<Longrightarrow> n < 8192 \<Longrightarrow> n = 4096"
  by (auto simp: size_class_def)

text \<open>A request for one page of 4 KiB.\<close>

lemma kalloc_page:
  assumes inv: "pmm_inv ncpu lo hi s xs P" "aligned ncpu xs P" and q: "quiet ncpu s" and c: "c < ncpu"
  shows "kalloc ncpu c 4096 s = cfail Assert_Fail \<and> heap_pages xs = 0 \<or>
    (\<exists>s' p. kalloc ncpu c 4096 s = cret (s', p) \<and> quiet ncpu s' \<and> (\<forall>x. x \<notin> owned ncpu xs P \<longrightarrow> mem s' x = mem s x) \<and>
       (p = 0 \<longrightarrow> heap_pages xs = 0) \<and>
       (p \<noteq> 0 \<longrightarrow> 4096 dvd p \<and> 0 < p \<and> bytes (p, 4096) \<subseteq> owned ncpu xs P \<and>
          (\<exists>ys P'. pmm_inv ncpu lo hi s' ys P' \<and> aligned ncpu ys P' \<and> owned ncpu ys P' = owned ncpu xs P - bytes (p, 4096) \<and>
             heap_pages xs - 1 \<le> heap_pages ys)))"
proof (cases "P c \<noteq> [] \<or> fst (take_page xs) \<noteq> 0")
  case True
  obtain n where n: "kalloc ncpu c 4096 s = kalloc_small ncpu c n s" "size_class n" "4096 \<le> n" "n = 32 \<or> n < 2 * 4096"
    using kalloc_small_eq [of 4096 ncpu c s] by auto
  have n4: "n = 4096" using n(2-4) by (intro size_class_4096) auto
  obtain s' p
    where k: "kalloc ncpu c 4096 s = cret (s', p)" "quiet ncpu s'"
      and r: "granted ncpu lo hi (aligned ncpu xs P) (heap_pages xs - 1) p 4096 (owned ncpu xs P) (mem s) s' \<or>
        p = 0 \<and> fst (take_page xs) = 0 \<and> (\<forall>x. x \<notin> owned ncpu xs P \<longrightarrow> mem s' x = mem s x)"
    using kalloc_small_ok [OF inv(1) q c n(2) True] unfolding n(1) n4 by blast
  from r show ?thesis
  proof
    assume "granted ncpu lo hi (aligned ncpu xs P) (heap_pages xs - 1) p 4096 (owned ncpu xs P) (mem s) s'"
    then obtain ys P' where g: "0 < p" "bytes (p, 4096) \<subseteq> owned ncpu xs P" "\<forall>x. x \<notin> owned ncpu xs P \<longrightarrow> mem s' x = mem s x"
        "pmm_inv ncpu lo hi s' ys P'" "owned ncpu ys P' = owned ncpu xs P - bytes (p, 4096)" "heap_pages xs - 1 \<le> heap_pages ys"
        "aligned ncpu ys P'" "4096 dvd p"
      using inv(2) unfolding granted_def by blast
    then show ?thesis using k by (intro disjI2 exI [of _ s'] exI [of _ p]) blast
  next
    assume "p = 0 \<and> fst (take_page xs) = 0 \<and> (\<forall>x. x \<notin> owned ncpu xs P \<longrightarrow> mem s' x = mem s x)"
    with k heap_pages_none [OF take_page_null [OF pmm_invD(1) [OF inv(1)]]] show ?thesis
      by (intro disjI2 exI [of _ s'] exI [of _ p]) simp
  qed
next
  case False
  then have no: "P c = []" "fst (take_page xs) = 0" by auto
  have "\<forall>t \<in> set xs. snd t < page_bytes" by (rule take_page_null [OF pmm_invD(1) [OF inv(1)] no(2)])
  then show ?thesis using kalloc_first_fails [OF inv(1) q c no(1), of 4096] heap_pages_none by simp
qed

text \<open>The number of pages the heap can still give.\<close>

definition pages_left :: "pmm_state pgstate \<Rightarrow> nat \<Rightarrow> bool" where
  "pages_left = (\<lambda>(m, s) n. \<exists>xs. node_list m (head s) xs \<and> n \<le> heap_pages xs)"

lemma pages_left_iff: "node_list m (head s) xs \<Longrightarrow> pages_left (m, s) n \<longleftrightarrow> n \<le> heap_pages xs"
  unfolding pages_left_def prod.case using node_list_unique by blast

interpretation kernel: page_source "page_owns ncpu c lo hi" "kernel_pgalloc ncpu c" pages_left for ncpu c lo hi
proof
  fix s :: "pmm_state pgstate" and F
  assume "page_owns ncpu c lo hi s F"
  then obtain m a where s: "s = (m, a)" and "page_owns ncpu c lo hi (m, a) F" by (cases s) auto
  then obtain xs P where c: "c < ncpu" and q: "quiet ncpu (a\<lparr>mem := m\<rparr>)"
    and inv: "pmm_inv ncpu lo hi (a\<lparr>mem := m\<rparr>) xs P" "aligned ncpu xs P" and F: "owned ncpu xs P = F"
    unfolding page_owns_iff quiet_mem by blast
  note k = kalloc_page [OF inv q c]
  show "kernel_pgalloc ncpu c pgsize s \<noteq> None"
  proof -
    have "kalloc ncpu c 4096 (a\<lparr>mem := m\<rparr>) \<noteq> None" using k by (auto simp: cfail_def cret_def)
    then show ?thesis
      by (auto simp: kernel_pgalloc_def s pgsize_def cbind_def cret_def split: sum.split)
  qed
  show "\<exists>s' p. kernel_pgalloc ncpu c pgsize s = cret (s', p) \<and> p \<noteq> 0 \<and> pages_left s' n" if "pages_left s (Suc n)" for n
  proof -
    have "node_list m (head a) xs" using pmm_invD(3) [OF inv(1)] by simp
    then have "Suc n \<le> heap_pages xs" using that by (simp add: s pages_left_iff)
    with k obtain a' p ys P' where r: "kalloc ncpu c 4096 (a\<lparr>mem := m\<rparr>) = cret (a', p)" "p \<noteq> 0" "pmm_inv ncpu lo hi a' ys P'"
        "heap_pages xs - 1 \<le> heap_pages ys" by auto
    have "pages_left (mem a', a') n"
      using pmm_invD(3) [OF r(3)] r(4) \<open>Suc n \<le> heap_pages xs\<close> by (simp add: pages_left_iff)
    then show ?thesis using r(1,2) by (auto simp: kernel_pgalloc_def s pgsize_def)
  qed
  fix m' a' p
  assume r: "kernel_pgalloc ncpu c pgsize s = cret ((m', a'), p)"
  then have ka: "kalloc ncpu c 4096 (a\<lparr>mem := m\<rparr>) = cret (a', p)" "m' = mem a'"
    by (auto simp: kernel_pgalloc_def s pgsize_def cbind_ret_iff)
  have "kalloc ncpu c 4096 (a\<lparr>mem := m\<rparr>) \<noteq> cfail Assert_Fail" using ka(1) by simp
  with k obtain a1 p1 where a1: "kalloc ncpu c 4096 (a\<lparr>mem := m\<rparr>) = cret (a1, p1)" "quiet ncpu a1"
      "\<forall>x. x \<notin> F \<longrightarrow> mem a1 x = mem (a\<lparr>mem := m\<rparr>) x"
      "p1 \<noteq> 0 \<longrightarrow> 4096 dvd p1 \<and> 0 < p1 \<and> bytes (p1, 4096) \<subseteq> F \<and>
        (\<exists>ys P'. pmm_inv ncpu lo hi a1 ys P' \<and> aligned ncpu ys P' \<and> owned ncpu ys P' = F - bytes (p1, 4096))"
    unfolding F by blast
  have eq: "a1 = a'" "p1 = p" using a1(1) ka(1) by simp_all
  have res: "quiet ncpu a'" "\<forall>x. x \<notin> F \<longrightarrow> mem a' x = m x"
      "p \<noteq> 0 \<longrightarrow> 4096 dvd p \<and> 0 < p \<and> bytes (p, 4096) \<subseteq> F \<and>
        (\<exists>ys P'. pmm_inv ncpu lo hi a' ys P' \<and> aligned ncpu ys P' \<and> owned ncpu ys P' = F - bytes (p, 4096))"
    using a1(2-4) unfolding eq by simp_all
  show "m' x = fst s x" if "x \<notin> F" for x using res(2) ka(2) that s by simp
  show "\<exists>F'. page_owns ncpu c lo hi (m', a') F' \<and> F' \<subseteq> F \<and> bytes (p, 4096) \<subseteq> F - F' \<and> 4096 dvd p \<and> 0 < p \<and>
      p + 4096 \<le> 18446744073709551616" if "p \<noteq> 0"
  proof (intro exI conjI)
    show "page_owns ncpu c lo hi (m', a') (F - bytes (p, 4096))"
      using res that c unfolding page_owns_iff ka(2) by (simp add: mem_update_same)
    show "4096 dvd p" "0 < p" "F - bytes (p, 4096) \<subseteq> F" "bytes (p, 4096) \<subseteq> F - (F - bytes (p, 4096))"
      using res(3) that by blast+
    have "p + 4095 \<in> bytes (p, 4096)" by simp
    then have "p + 4095 \<in> {lo..<hi}" using res(3) that owned_in_heap [OF inv(1)] unfolding F by blast
    then have "p + 4095 < hi" by simp
    moreover have "hi \<le> 9223372036854775808" using pmm_invD(1) [OF inv(1)] by (simp add: free_ok_def)
    ultimately show "p + 4096 \<le> 18446744073709551616" by simp
  qed
next
  fix m :: mem and a F m'
  assume own: "page_owns ncpu c lo hi (m, a) F" and eq: "\<forall>x \<in> F. m' x = m x"
  then obtain xs P where st: "c < ncpu" "quiet ncpu a"
    and inv: "pmm_inv ncpu lo hi (a\<lparr>mem := m\<rparr>) xs P" "aligned ncpu xs P" "owned ncpu xs P = F"
    unfolding page_owns_iff by blast
  have inv': "pmm_inv ncpu lo hi (a\<lparr>mem := m\<rparr>\<lparr>mem := m'\<rparr>) xs P"
    using inv(3) eq by (intro pmm_inv_client [OF inv(1)]) simp
  then show "page_owns ncpu c lo hi (m', a) F" using st inv unfolding page_owns_iff by auto
  show "pages_left (m', a) n" if "pages_left (m, a) n" for n
    using that pmm_invD(3) [OF inv'] pmm_invD(3) [OF inv(1)] by (simp add: pages_left_iff)
qed (auto simp: pages_left_def)

subsection \<open>Properties\<close>

text \<open>An address space at \<open>as\<close> with root table \<open>root\<close>, beside the allocator of the kernel that owns the bytes \<open>F\<close>.\<close>

definition kernel_space ::
  "nat \<Rightarrow> nat \<Rightarrow> int \<Rightarrow> int \<Rightarrow> pmm_state vme \<Rightarrow> int \<Rightarrow> int \<Rightarrow> int set \<Rightarrow> bool" where
  "kernel_space ncpu c lo hi v as root F \<longleftrightarrow>
     pgalloc v = kernel_pgalloc ncpu c \<and> page_owns ncpu c lo hi (phys v, pgst v) F \<and> space_ok (phys v) root F \<and>
     load64 (phys v) (as_ptr as) = root + 5 \<and> bytes (as, 32) \<inter> (F \<union> table_bytes (phys v) root) = {}"

lemma kernel_space_iff: "kernel_space ncpu c lo hi v as root F = kernel.space ncpu c lo hi v as root F"
  by (simp add: kernel_space_def kernel.space_def)

text \<open>A small instance: one address space with its tables below the heap, one page mapped.\<close>

definition demo_vm_mem :: mem where
  "demo_vm_mem = hang (hang (hang (hang (store64 (mem (boot_state 1048576)) 32792 65541) 65536 32 69632 7)
     69632 0 73728 7) 73728 0 77824 7) 77824 1 2097152 7"

definition demo_vm :: "pmm_state vme" where
  "demo_vm = \<lparr>phys = demo_vm_mem, pgst = boot_state 1048576, kpt = 4096, pgalloc = kernel_pgalloc 2 0,
     pgfree = (\<lambda>_ _. cfail Panic), cr0 = 0, cr3 = 4096\<rparr>"

lemma ent_hang:
  "4096 dvd b \<Longrightarrow> 4096 dvd c \<Longrightarrow> 0 \<le> i \<Longrightarrow> i < 512 \<Longrightarrow> 0 \<le> j \<Longrightarrow> j < 512 \<Longrightarrow>
     ent (hang m b i np f) c j = (if c = b \<and> j = i then u64 (np + f) else ent m c j)"
  by (simp add: hang_def ent_store)

lemma demo_ent:
  assumes "c = 65536 \<or> c = 69632 \<or> c = 73728 \<or> c = 77824" "0 \<le> j" "j < 512"
  shows "ent demo_vm_mem c j =
    (if c = 65536 \<and> j = 32 then 69639 else if c = 69632 \<and> j = 0 then 73735 else if c = 73728 \<and> j = 0 then 77831
     else if c = 77824 \<and> j = 1 then 2097159 else 0)"
proof -
  have "ent (store64 (mem (boot_state 1048576)) 32792 65541) c j = ent (\<lambda>_. 0) c j"
    unfolding ent_def using assms
    by (intro load64_cong) (auto simp: boot_state_def set_next_def set_size_def store64_frame store32_frame)
  also have "\<dots> = 0" by (simp add: ent_def load64_def load32_def)
  finally show ?thesis
    using assms by (auto simp: demo_vm_mem_def ent_hang u64_id)
qed

lemma demo_tables:
  assumes "user_path js"
  shows "table_at demo_vm_mem 65536 js =
    (if js = [] then Some 65536 else if js = [32] then Some 69632 else if js = [32, 0] then Some 73728
     else if js = [32, 0, 0] then Some 77824 else None)"
proof -
  have b: "baseof 69639 = 69632" "baseof 73735 = 73728" "baseof 77831 = 77824" by (simp_all add: baseof_eq)
  consider "js = []" | "js = [32]" | i where "js = [32, i]" "0 \<le> i" "i < 512"
    | i j where "js = [32, i, j]" "0 \<le> i" "i < 512" "0 \<le> j" "j < 512"
    using assms
    by (cases js; cases "tl js"; cases "tl (tl js)"; cases "tl (tl (tl js))") (auto simp: user_path_def)
  then show ?thesis by cases (auto simp: demo_ent b)
qed

lemma demo_space_ok: "space_ok demo_vm_mem 65536 (bytes (1048576, 1048576))"
  by (auto simp: space_ok_def demo_tables split: if_splits)

lemma demo_table_bytes: "table_bytes demo_vm_mem 65536 \<subseteq> {65536..<81920}"
  by (auto simp: table_bytes_def demo_tables split: if_splits)

lemma demo_kernel_space: "kernel_space 2 0 1048576 2097152 demo_vm 32768 65536 (bytes (1048576, 1048576))"
proof -
  have "\<forall>x \<in> bytes (1048576, 1048576). demo_vm_mem x = mem (boot_state 1048576) x"
    by (simp add: demo_vm_mem_def hang_def store64_frame)
  then have "pmm_inv 2 1048576 2097152 (boot_state 1048576\<lparr>mem := demo_vm_mem\<rparr>) [(1048576, 1048576)] (\<lambda>_. [])"
    using boot_state_ok(1) [of 1048576] by (intro pmm_inv_client) (auto simp: boot_state_owned)
  then have "page_owns 2 0 1048576 2097152 (demo_vm_mem, boot_state 1048576) (bytes (1048576, 1048576))"
    unfolding page_owns_iff using boot_state_ok(2) [of 1048576] boot_state_owned [of 1048576] by force
  moreover have "load64 demo_vm_mem 32792 = 65541"
    by (simp add: demo_vm_mem_def hang_def mem_simps u64_id)
  ultimately show ?thesis
    using demo_space_ok demo_table_bytes by (auto simp: kernel_space_def demo_vm_def as_ptr_def)
qed

lemma demo_translate:
  "table_at demo_vm_mem 65536 (va_path 0x100000000000) = Some 77824"
  "translate demo_vm_mem 65536 0x100000000000 = None" "translate demo_vm_mem 65536 0x100000001000 = Some 2097159"
proof -
  have p: "va_path 0x100000000000 = [32, 0, 0]" "va_path 0x100000001000 = [32, 0, 0]" by (simp_all add: va_path_def)
  have "table_at demo_vm_mem 65536 [32, 0, 0] = Some 77824" by (subst demo_tables) (simp_all add: user_path_def)
  then show "table_at demo_vm_mem 65536 (va_path 0x100000000000) = Some 77824" using p(1) by simp
  with p show "translate demo_vm_mem 65536 0x100000000000 = None"
      "translate demo_vm_mem 65536 0x100000001000 = Some 2097159"
    by (simp_all add: translate_def demo_ent del: table_at.simps)
qed





text \<open>C22. Unmapping a mapped user page always returns; the page no longer translates and every other user page
  translates as before, so that mapping a page and unmapping it restores all translations.  Mapping
  a page that is mapped is a panic.\<close>

theorem unmap_correct:
  assumes "kernel_space ncpu c lo hi v as root F"
    and "fst uvm_area \<le> va" "va < snd uvm_area" "4096 dvd va" "0 \<le> pa" "pa < 18446744073709551616" "4096 dvd pa"
    and "translate (phys v) root va = Some e"
  shows "(\<forall>prot. prot \<noteq> 0 \<longrightarrow> map_page v as va pa prot = cfail Panic) \<and>
    (\<exists>v'. map_page v as va pa 0 = cret v' \<and> kernel_space ncpu c lo hi v' as root F \<and>
      (\<forall>vb. fst uvm_area \<le> vb \<longrightarrow> vb < snd uvm_area \<longrightarrow> translate (phys v') root vb =
          (if vb div 4096 = va div 4096 then None else translate (phys v) root vb)) \<and>
      (\<forall>x. x \<notin> table_bytes (phys v) root \<longrightarrow> phys v' x = phys v x))"
  using assms kernel.map_mapped [of ncpu c lo hi v as root F va pa e] unfolding kernel_space_iff by blast

theorem unmap_correct_witness:
  "\<exists>v'. map_page demo_vm 32768 0x100000001000 0 0 = cret v' \<and> translate (phys v') 65536 0x100000001000 = None"
  using unmap_correct [OF demo_kernel_space, where va = "0x100000001000" and pa = 0 and e = 2097159] demo_translate
  by (auto simp: demo_vm_def uvm_area_def vm_areas_def)

text \<open>\<open>map\<close> panics, and changes nothing, for an address outside the user area and for a virtual or physical
  address that is not on a page boundary.\<close>

theorem map_checks:
  assumes "0 \<le> va" "va < 18446744073709551616" "0 \<le> pa" "pa < 18446744073709551616"
    and "\<not> (fst uvm_area \<le> va \<and> va < snd uvm_area \<and> 4096 dvd va \<and> 4096 dvd pa)"
  shows "map_page (v :: pmm_state vme) as va pa prot = cfail Panic"
  using assms kernel.map_outside [of va v as pa prot] kernel.map_unaligned [OF assms(1-4)] by blast

theorem map_checks_witness: "map_page demo_vm 32768 0x100000000010 0 1 = cfail Panic"
  by (rule map_checks) simp_all



end
