(* ===== verification/Klib_Stdlib.thy ===== *)
theory Klib_Stdlib
  imports Klib_String
begin

text \<open>
  \<open>abstract-machine/klib/src/stdlib.c\<close>: the linear congruential generator, \<open>abs\<close>, \<open>atoi\<close> and the
  stubs \<open>malloc\<close> and \<open>free\<close>.  The generator's state \<^verbatim>\<open>next\<close> is an argument and a result.
\<close>

subsection \<open>Model\<close>

definition rand :: "int \<Rightarrow> int \<times> int" where
  "rand nxt = (let nxt = u64 (nxt * 1103515245 + 12345) in (nxt, u32 (nxt div 65536) mod 32768))"

definition srand :: "int \<Rightarrow> int" where
  "srand seed = u32 seed"

definition abs_int :: "int \<Rightarrow> int" where
  "abs_int x = (if x < 0 then s32 (- x) else x)"

text \<open>The two loops of \<open>atoi\<close>.\<close>

partial_function (option) skip_spaces :: "mem \<Rightarrow> int \<Rightarrow> int option" where
  "skip_spaces m p = (if m p = 32 then skip_spaces m (p + 1) else Some p)"

partial_function (option) atoi_loop :: "mem \<Rightarrow> int \<Rightarrow> int \<Rightarrow> int option" where
  "atoi_loop m p x =
     (if char_at m p \<ge> 48 \<and> char_at m p \<le> 57 then atoi_loop m (p + 1) (s32 (x * 10 + char_at m p - 48))
      else Some x)"

definition atoi :: "mem \<Rightarrow> int \<Rightarrow> int option" where
  "atoi m nptr = Option.bind (skip_spaces m nptr) (\<lambda>p. atoi_loop m p 0)"

definition malloc :: "int \<Rightarrow> int cres" where
  "malloc sz = cfail Panic"

definition free :: "int \<Rightarrow> mem \<Rightarrow> mem" where
  "free ptr m = m"

subsection \<open>Decimal numerals\<close>

definition digit_byte :: "int \<Rightarrow> 8 word" where
  "digit_byte d = word_of_int (d + 48)"

fun dec_value :: "int \<Rightarrow> int list \<Rightarrow> int" where
  "dec_value x [] = x"
| "dec_value x (d # ds) = dec_value (x * 10 + d) ds"

lemma sint_digit_byte: "0 \<le> d \<Longrightarrow> d \<le> 9 \<Longrightarrow> sint (digit_byte d) = d + 48"
proof -
  assume "0 \<le> d" "d \<le> 9"
  then have "d = 0 \<or> d = 1 \<or> d = 2 \<or> d = 3 \<or> d = 4 \<or> d = 5 \<or> d = 6 \<or> d = 7 \<or> d = 8 \<or> d = 9" by presburger
  then show ?thesis by (elim disjE) (simp_all add: digit_byte_def)
qed

lemma digit_byte_nonzero: "0 \<le> d \<Longrightarrow> d \<le> 9 \<Longrightarrow> digit_byte d \<noteq> 0"
  using sint_digit_byte [of d] by auto

lemma dec_value_ge: "0 \<le> x \<Longrightarrow> \<forall>d \<in> set ds. 0 \<le> d \<Longrightarrow> x \<le> dec_value x ds"
proof (induction ds arbitrary: x)
  case (Cons d ds)
  then have "x * 10 + d \<le> dec_value (x * 10 + d) ds" by simp
  then show ?case using Cons.prems by simp
qed simp

lemma skip_spaces_eq:
  "block m p n = replicate n 32 \<Longrightarrow> m (p + int n) \<noteq> 32 \<Longrightarrow> skip_spaces m p = Some (p + int n)"
proof (induction n arbitrary: p)
  case 0
  then show ?case by (simp add: skip_spaces.simps)
next
  case (Suc n)
  then have "m p = 32" "block m (p + 1) n = replicate n 32" by (simp_all add: block_Suc)
  moreover have "m (p + 1 + int n) \<noteq> 32" using Suc.prems(2) by (simp add: algebra_simps)
  ultimately show ?case using Suc.IH [of "p + 1"] by (subst skip_spaces.simps) (simp add: algebra_simps)
qed

lemma atoi_loop_eq:
  "block m p (length ds) = map digit_byte ds \<Longrightarrow> \<forall>d \<in> set ds. 0 \<le> d \<and> d \<le> 9 \<Longrightarrow>
     \<not> (char_at m (p + int (length ds)) \<ge> 48 \<and> char_at m (p + int (length ds)) \<le> 57) \<Longrightarrow>
     0 \<le> x \<Longrightarrow> dec_value x ds < 2147483648 \<Longrightarrow> atoi_loop m p x = Some (dec_value x ds)"
proof (induction ds arbitrary: p x)
  case Nil
  then show ?case by (subst atoi_loop.simps) auto
next
  case (Cons d ds)
  have d: "0 \<le> d" "d \<le> 9" "m p = digit_byte d" "block m (p + 1) (length ds) = map digit_byte ds"
    using Cons.prems(1,2) by (simp_all add: block_Suc)
  have "x * 10 + d \<le> dec_value (x * 10 + d) ds" using Cons.prems(2,4) d(1) by (intro dec_value_ge) simp_all
  then have s: "s32 (x * 10 + char_at m p - 48) = x * 10 + d"
    using d(1-3) Cons.prems(4,5) by (simp add: sint_digit_byte s32_id)
  have e: "p + int (length (d # ds)) = p + 1 + int (length ds)" by simp
  have "\<forall>d \<in> set ds. 0 \<le> d \<and> d \<le> 9" "0 \<le> x * 10 + d" "dec_value (x * 10 + d) ds < 2147483648"
    using Cons.prems(2,4,5) d by simp_all
  then have "atoi_loop m (p + 1) (x * 10 + d) = Some (dec_value (x * 10 + d) ds)"
    by (intro Cons.IH [OF d(4) _ Cons.prems(3) [unfolded e]])
  moreover have "char_at m p \<ge> 48 \<and> char_at m p \<le> 57" using d(1-3) by (simp add: sint_digit_byte)
  ultimately show ?case using s by (subst atoi_loop.simps) simp
qed

lemma atoi_eq:
  assumes "block m p n = replicate n 32" "block m (p + int n) (length ds) = map digit_byte ds"
    and "\<forall>d \<in> set ds. 0 \<le> d \<and> d \<le> 9" "dec_value 0 ds < 2147483648"
    and stop: "\<not> (char_at m (p + int n + int (length ds)) \<ge> 48 \<and> char_at m (p + int n + int (length ds)) \<le> 57)"
      "m (p + int n) \<noteq> 32"
  shows "atoi m p = Some (dec_value 0 ds)"
  using skip_spaces_eq [OF assms(1) stop(2)] atoi_loop_eq [OF assms(2,3) stop(1), of 0] assms(4)
  by (simp add: atoi_def)

subsection \<open>Properties\<close>

text \<open>\<open>atoi\<close> skips leading spaces and returns the value of the decimal digits that follow, when it fits
  an \<^verbatim>\<open>int\<close>; it stops at the first byte that is not a digit.\<close>

theorem atoi_correct:
  assumes "block m p n = replicate n 32" "block m (p + int n) (length ds) = map digit_byte ds"
    and "\<forall>d \<in> set ds. 0 \<le> d \<and> d \<le> 9" "dec_value 0 ds < 2147483648"
    and "\<not> (char_at m (p + int n + int (length ds)) \<ge> 48 \<and> char_at m (p + int n + int (length ds)) \<le> 57)"
      "m (p + int n) \<noteq> 32"
  shows "atoi m p = Some (dec_value 0 ds)"
  by (rule atoi_eq [OF assms])

theorem atoi_correct_witness:
  "atoi ((\<lambda>_. 0)(8 := 32, 9 := 52, 10 := 50)) 8 = Some 42"
  using atoi_correct [of "(\<lambda>_. 0)(8 := 32, 9 := 52, 10 := 50)" 8 1 "[4, 2]"]
  by (simp add: block_def digit_byte_def)

text \<open>\<open>rand\<close> returns values from 0 to 32767, its state stays an \<^verbatim>\<open>unsigned long\<close>, and \<open>abs\<close> is the
  absolute value of every \<^verbatim>\<open>int\<close> but the least, which it returns unchanged.\<close>

theorem rand_abs_ranges:
  "(case rand nxt of (nxt', r) \<Rightarrow> 0 \<le> r \<and> r \<le> 32767 \<and> 0 \<le> nxt' \<and> nxt' < 18446744073709551616) \<and>
   abs_int (s32 x) = (if s32 x = - 2147483648 then - 2147483648 else \<bar>s32 x\<bar>)"
proof -
  have "0 \<le> u32 a mod 32768 \<and> u32 a mod 32768 \<le> 32767" for a
    using pos_mod_bound [of 32768 "u32 a"] by simp
  moreover have "abs_int y = (if y = - 2147483648 then - 2147483648 else \<bar>y\<bar>)"
    if "- 2147483648 \<le> y" "y < 2147483648" for y
    using that by (simp add: abs_int_def s32_id s32_def)
  ultimately show ?thesis by (simp add: rand_def Let_def)
qed

end
