(* ===== verification/Klib_Stdio.thy ===== *)
theory Klib_Stdio
  imports Klib_Stdlib
begin

text \<open>
  \<open>abstract-machine/klib/src/stdio.c\<close>: the formatted output functions.  \<open>printf\<close> sends bytes to
  \<open>putch\<close>, so its model returns the list of bytes sent; \<open>vsprintf\<close> and \<open>vsnprintf\<close> write memory.
  The arguments behind \<^verbatim>\<open>...\<close> are a list of 64-bit slots, as the x86-64 calling convention passes
  them: \<^verbatim>\<open>va_arg(ap, int)\<close> reads the lower half, and reading past the last argument is the fault
  \<open>Missing_Arg\<close>.

  The local \<^verbatim>\<open>cnt\<close> is 0 whenever a conversion begins: it is declared so, and the loop that prints the
  digits ends only at 0.
\<close>

subsection \<open>Numbers\<close>

function m_pow_loop :: "int \<Rightarrow> int \<Rightarrow> int \<Rightarrow> int \<Rightarrow> int" where
  "m_pow_loop m n i ret = (if i < n then m_pow_loop m n (i + 1) (u64 (ret * m)) else ret)"
  by pat_completeness auto
termination
  by (relation "measure (\<lambda>(m, n, i, ret). nat (n - i))") auto

declare m_pow_loop.simps [simp del]

definition m_pow_n :: "int \<Rightarrow> int \<Rightarrow> int" where
  "m_pow_n m n = (if n < 0 then 0 else m_pow_loop m n 0 1)"

text \<open>
  \<^verbatim>\<open>while (val_seg) { cnt++; val_seg /= base; }\<close> on an \<^verbatim>\<open>unsigned long\<close>, for the bases 10, 16 and 2.
\<close>

function count_digits :: "int \<Rightarrow> int \<Rightarrow> int \<Rightarrow> int" where
  "count_digits base val_seg cnt =
     (if 0 < val_seg \<and> 1 < base then count_digits base (val_seg div base) (cnt + 1) else cnt)"
  by pat_completeness auto
termination
proof (relation "measure (\<lambda>(base, val_seg, cnt). nat val_seg)")
  fix base val_seg cnt :: int
  assume "0 < val_seg \<and> 1 < base"
  then have "val_seg div base < val_seg" by (intro int_div_less_self) auto
  then show "((base, val_seg div base, cnt + 1), base, val_seg, cnt) \<in> measure (\<lambda>(base, val_seg, cnt). nat val_seg)"
    using \<open>0 < val_seg \<and> 1 < base\<close> by simp
qed simp

declare count_digits.simps [simp del]

definition digit_count :: "int \<Rightarrow> int \<Rightarrow> int" where
  "digit_count base arg = (if arg \<noteq> 0 then count_digits base (u64 arg) 0 else 1)"

text \<open>
  The loop that prints the digits, from the highest: \<open>conv\<close> is the conversion back to the type of the
  argument, \<open>s32\<close> for \<^verbatim>\<open>ArgIntVal\<close> and \<open>u64\<close> for \<^verbatim>\<open>ArgHexVal\<close>.
\<close>

function emit_digits :: "(int \<Rightarrow> int) \<Rightarrow> int \<Rightarrow> (int \<Rightarrow> 8 word) \<Rightarrow> int \<Rightarrow> int \<Rightarrow> 8 word list" where
  "emit_digits conv base digit arg cnt =
     (if 0 < cnt then
        let p = m_pow_n base (cnt - 1); val_seg = u64 arg div p; arg = conv (u64 arg mod p)
        in digit val_seg # emit_digits conv base digit arg (cnt - 1)
      else [])"
  by pat_completeness auto
termination
  by (relation "measure (\<lambda>(conv, base, digit, arg, cnt). nat cnt)") auto

declare emit_digits.simps [simp del]

text \<open>The characters: \<^verbatim>\<open>(char)val_seg + '0'\<close>, and for hexadecimal \<^verbatim>\<open>(char)val_seg - 10 + 'A'\<close> from 10 on.\<close>

definition hex_digit :: "int \<Rightarrow> 8 word" where
  "hex_digit v = (if v \<le> 9 then digit_byte v else word_of_int (v - 10 + 65))"

definition conv_d :: "int \<Rightarrow> 8 word list" where
  "conv_d slot =
     (let a = s32 slot; neg = a < 0; a = if neg then s32 (- a) else a
      in (if neg then [45] else []) @ emit_digits s32 10 digit_byte a (digit_count 10 a))"

definition conv_x :: "int \<Rightarrow> 8 word list" where
  "conv_x slot = (let a = u64 slot in emit_digits u64 16 hex_digit a (digit_count 16 a))"

definition conv_b :: "int \<Rightarrow> 8 word list" where
  "conv_b slot = (let a = s32 slot in emit_digits s32 2 digit_byte a (digit_count 2 a))"

subsection \<open>printf\<close>

definition va_arg :: "int list \<Rightarrow> (int \<Rightarrow> int list \<Rightarrow> 'a cres) \<Rightarrow> 'a cres" where
  "va_arg ap k = (case ap of [] \<Rightarrow> cfail Missing_Arg | a # ap \<Rightarrow> k a ap)"

text \<open>\<^verbatim>\<open>for (; *ArgStrVal != '\0'; ArgStrVal++) putch(*ArgStrVal);\<close>\<close>

partial_function (option) put_string :: "mem \<Rightarrow> int \<Rightarrow> 8 word list \<Rightarrow> 8 word list option" where
  "put_string m s out = (if m s = 0 then Some out else put_string m (s + 1) (out @ [m s]))"

text \<open>
  The inner \<^verbatim>\<open>switch\<close>, at the character after \<^verbatim>\<open>%\<close>: where it leaves \<^verbatim>\<open>pStr\<close>, the arguments left, the
  bytes it prints and what it adds to \<^verbatim>\<open>ret_num\<close>.  The \<^verbatim>\<open>break\<close> of a conversion leaves only the inner
  \<^verbatim>\<open>switch\<close>, so that the \<^verbatim>\<open>default\<close> case of the outer one runs next, on the character that follows.
\<close>

definition printf_conv :: "mem \<Rightarrow> int \<Rightarrow> int list \<Rightarrow> (int \<times> int list \<times> 8 word list \<times> int) cres" where
  "printf_conv m p ap =
     (if m p = 37 then cret (p + 1, ap, [m p], 1)
      else if m p = 99 then va_arg ap (\<lambda>a ap. cret (p + 1, ap, [word_of_int (s32 a)], 1))
      else if m p = 120 then va_arg ap (\<lambda>a ap.
        let t = conv_x a in cret (p + 1, ap, t, int (length t)))
      else if m p = 98 then va_arg ap (\<lambda>a ap.
        let t = conv_b a in cret (p + 1, ap, t, int (length t)))
      else if m p = 100 then va_arg ap (\<lambda>a ap.
        let t = conv_d a in cret (p + 1, ap, t, int (length t)))
      else if m p = 115 then va_arg ap (\<lambda>a ap. let s = u64 a in
        Option.bind (strlen m s) (\<lambda>l.
        Option.bind (put_string m s []) (\<lambda>t. cret (p + 1, ap, t, l))))
      else cret (p, ap, [], 0))"

partial_function (option) printf_loop ::
  "mem \<Rightarrow> 8 word list \<times> int \<Rightarrow> int \<Rightarrow> int list \<Rightarrow> (8 word list \<times> int) cres" where
  "printf_loop m st p ap = (case st of (out, ret) \<Rightarrow>
     if m p = 0 then cret (out, ret)
     else if m p = 9 then printf_loop m (out @ [m p], s32 (ret + 4)) (p + 1) ap
     else if m p = 13 then printf_loop m (out @ [m p], s32 (ret + 1)) (p + 1) ap
     else if m p = 10 then printf_loop m (out @ [m p], s32 (ret + 1)) (p + 1) ap
     else if m p = 37 then
       cbind (printf_conv m (p + 1) ap) (\<lambda>(p, ap, t, n).
         printf_loop m (out @ t @ [m p], s32 (s32 (ret + n) + 1)) (p + 1) ap)
     else printf_loop m (out @ [m p], s32 (ret + 1)) (p + 1) ap)"

definition printf :: "mem \<Rightarrow> int \<Rightarrow> int list \<Rightarrow> (8 word list \<times> int) cres" where
  "printf m fmt args = (if fmt = 0 then cret ([], - 1) else printf_loop m ([], 0) fmt args)"

subsection \<open>vsprintf and sprintf\<close>

text \<open>\<^verbatim>\<open>*str_out++ = b\<close> for a list of bytes.\<close>

fun put_bytes :: "8 word list \<Rightarrow> mem \<Rightarrow> int \<Rightarrow> mem" where
  "put_bytes [] m d = m"
| "put_bytes (b # bs) m d = put_bytes bs (m(d := b)) (d + 1)"

text \<open>The inner \<^verbatim>\<open>switch\<close> on the state memory, \<^verbatim>\<open>str_out\<close>, \<^verbatim>\<open>ret_num\<close>.\<close>

definition emit :: "8 word list \<Rightarrow> mem \<times> int \<times> int \<Rightarrow> mem \<times> int \<times> int" where
  "emit t = (\<lambda>(m, d, ret). (put_bytes t m d, d + int (length t), s32 (ret + int (length t))))"

definition vsprintf_conv ::
  "mem \<times> int \<times> int \<Rightarrow> int \<Rightarrow> int list \<Rightarrow> ((mem \<times> int \<times> int) \<times> int list) cres" where
  "vsprintf_conv st p ap = (case st of (m, d, ret) \<Rightarrow>
     if m p = 37 then cret (emit [m p] st, ap)
     else if m p = 100 then va_arg ap (\<lambda>a ap. cret (emit (conv_d a) st, ap))
     else if m p = 99 then va_arg ap (\<lambda>a ap. cret (emit [word_of_int (s32 a)] st, ap))
     else if m p = 115 then va_arg ap (\<lambda>a ap. let s = u64 a in
       Option.bind (strlen m s) (\<lambda>l.
       Option.bind (copy_loop m d s) (\<lambda>(m, d). cret ((m, d, s32 (ret + l)), ap))))
     else cret (st, ap))"

partial_function (option) vsprintf_loop ::
  "mem \<times> int \<times> int \<Rightarrow> int \<Rightarrow> int list \<Rightarrow> (mem \<times> int \<times> int) cres" where
  "vsprintf_loop st p ap = (case st of (m, d, ret) \<Rightarrow>
     if m p = 0 then cret st
     else if m p = 37 then
       cbind (vsprintf_conv st (p + 1) ap) (\<lambda>(st, ap). vsprintf_loop st (p + 2) ap)
     else vsprintf_loop (emit [m p] st) (p + 1) ap)"

text \<open>The final \<^verbatim>\<open>assert(ret_num = strlen(out))\<close> assigns and then tests the result for zero.\<close>

definition vsprintf :: "mem \<Rightarrow> int \<Rightarrow> int \<Rightarrow> int list \<Rightarrow> (mem \<times> int) cres" where
  "vsprintf m out fmt ap =
     (if fmt = 0 then cret (m, - 1)
      else cbind (vsprintf_loop (m, out, 0) fmt ap) (\<lambda>(m, d, ret).
        let m = m(d := 0) in
        Option.bind (strlen m out) (\<lambda>l. let ret = s32 l in
          cassert (ret \<noteq> 0) (cret (m, ret)))))"

definition sprintf :: "mem \<Rightarrow> int \<Rightarrow> int \<Rightarrow> int list \<Rightarrow> (mem \<times> int) cres" where
  "sprintf m out fmt args = vsprintf m out fmt args"

subsection \<open>vsnprintf and snprintf\<close>

text \<open>
  Before every byte it writes, \<open>vsnprintf\<close> returns when \<^verbatim>\<open>ret_num + 1 > n\<close>; the first component of a
  result says whether it has returned.
\<close>

definition full :: "int \<Rightarrow> int \<Rightarrow> bool" where
  "full n ret \<longleftrightarrow> u64 (s32 (ret + 1)) > n"

fun emit_n :: "int \<Rightarrow> 8 word list \<Rightarrow> mem \<times> int \<times> int \<Rightarrow> bool \<times> mem \<times> int \<times> int" where
  "emit_n n [] (m, d, ret) = (False, m, d, ret)"
| "emit_n n (b # bs) (m, d, ret) =
     (if full n ret then (True, m, d, ret)
      else emit_n n bs (m(d := b), d + 1, s32 (ret + 1)))"

partial_function (option) copy_n :: "int \<Rightarrow> int \<Rightarrow> mem \<times> int \<times> int \<Rightarrow> (bool \<times> mem \<times> int \<times> int) option" where
  "copy_n n s st = (case st of (m, d, ret) \<Rightarrow>
     if m s = 0 then Some (False, m, d, ret)
     else if full n ret then Some (True, m, d, ret)
     else copy_n n (s + 1) (m(d := m s), d + 1, s32 (ret + 1)))"

definition vsnprintf_conv ::
  "int \<Rightarrow> mem \<times> int \<times> int \<Rightarrow> int \<Rightarrow> int list \<Rightarrow> ((bool \<times> mem \<times> int \<times> int) \<times> int list) cres" where
  "vsnprintf_conv n st p ap = (case st of (m, d, ret) \<Rightarrow>
     if m p = 37 then cret (emit_n n [m p] st, ap)
     else if m p = 100 then va_arg ap (\<lambda>a ap. cret (emit_n n (conv_d a) st, ap))
     else if m p = 99 then va_arg ap (\<lambda>a ap. cret (emit_n n [word_of_int (s32 a)] st, ap))
     else if m p = 115 then va_arg ap (\<lambda>a ap.
       Option.bind (copy_n n (u64 a) st) (\<lambda>r. cret (r, ap)))
     else cret ((False, st), ap))"

partial_function (option) vsnprintf_loop ::
  "int \<Rightarrow> bool \<times> mem \<times> int \<times> int \<Rightarrow> int \<Rightarrow> int list \<Rightarrow> (bool \<times> mem \<times> int \<times> int) cres" where
  "vsnprintf_loop n st p ap = (case st of (done, m, d, ret) \<Rightarrow>
     if done \<or> m p = 0 then cret st
     else if m p = 37 then
       cbind (vsnprintf_conv n (m, d, ret) (p + 1) ap) (\<lambda>(st, ap). vsnprintf_loop n st (p + 2) ap)
     else vsnprintf_loop n (emit_n n [m p] (m, d, ret)) (p + 1) ap)"

definition vsnprintf :: "mem \<Rightarrow> int \<Rightarrow> int \<Rightarrow> int \<Rightarrow> int list \<Rightarrow> (mem \<times> int) cres" where
  "vsnprintf m out n fmt ap =
     (if fmt = 0 then cret (m, - 1)
      else cbind (vsnprintf_loop n (False, m, out, 0) fmt ap) (\<lambda>(done, m, d, ret).
        if done then cret (m, ret)
        else
          let m = m(d := 0) in
          Option.bind (strlen m out) (\<lambda>l. let ret = s32 l in
            cassert (ret \<noteq> 0) (cassert (u64 ret \<le> n) (cret (m, ret))))))"

definition snprintf :: "mem \<Rightarrow> int \<Rightarrow> int \<Rightarrow> int \<Rightarrow> int list \<Rightarrow> (mem \<times> int) cres" where
  "snprintf m out n fmt args = vsnprintf m out n fmt args"

end
