(* ===== verification/Klib_Format.thy ===== *)
theory Klib_Format
  imports Klib_Stdio
begin

text \<open>
  Correctness of the formatted output functions of \<open>Klib_Stdio\<close>.  The digits a conversion prints are
  compared with the usual positional representation; formats are described by the list of their
  literal characters and conversions, and the loops over a format by what they do for each of these.
\<close>

subsection \<open>Positional representation\<close>

function num_digits :: "int \<Rightarrow> int \<Rightarrow> int list" where
  "num_digits b n = (if 1 < b \<and> b \<le> n then num_digits b (n div b) @ [n mod b] else [n])"
  by pat_completeness auto
termination
proof (relation "measure (\<lambda>(b, n). nat n)")
  fix b n :: int
  assume a: "1 < b \<and> b \<le> n"
  then have "n div b < n" by (intro int_div_less_self) auto
  with a show "((b, n div b), b, n) \<in> measure (\<lambda>(b, n). nat n)" by simp
qed simp

declare num_digits.simps [simp del]

fun fixed_digits :: "int \<Rightarrow> nat \<Rightarrow> int \<Rightarrow> int list" where
  "fixed_digits b 0 n = []"
| "fixed_digits b (Suc k) n = fixed_digits b k (n div b) @ [n mod b]"

lemma m_pow_loop_eq: "0 \<le> i \<Longrightarrow> i \<le> n \<Longrightarrow> 0 \<le> ret \<Longrightarrow> 1 \<le> m \<Longrightarrow>
   ret * m ^ nat (n - i) < 18446744073709551616 \<Longrightarrow> m_pow_loop m n i ret = ret * m ^ nat (n - i)"
proof (induction m n i ret rule: m_pow_loop.induct)
  case (1 m n i ret)
  show ?case
  proof (cases "i < n")
    case True
    then have e: "nat (n - i) = Suc (nat (n - (i + 1)))" by simp
    have p: "ret * m \<le> ret * m ^ nat (n - i)"
      using "1.prems" True by (intro mult_left_mono self_le_power) auto
    then have u: "u64 (ret * m) = ret * m" using "1.prems" by (intro u64_id) auto
    have "m_pow_loop m n (i + 1) (ret * m) = ret * m * m ^ nat (n - (i + 1))"
      using "1.IH" [OF True] "1.prems" True unfolding u e by (simp add: ac_simps)
    then show ?thesis using True u unfolding e by (subst m_pow_loop.simps) (simp add: ac_simps)
  next
    case False
    with "1.prems" show ?thesis by (subst m_pow_loop.simps) simp
  qed
qed

lemma m_pow_n_eq: "1 \<le> b \<Longrightarrow> b ^ k < 18446744073709551616 \<Longrightarrow> m_pow_n b (int k) = b ^ k"
  using m_pow_loop_eq [of 0 "int k" 1 b] by (simp add: m_pow_n_def)

lemma fixed_digits_Cons:
  "0 < b \<Longrightarrow> 0 \<le> n \<Longrightarrow> n < b ^ Suc k \<Longrightarrow>
     fixed_digits b (Suc k) n = n div b ^ k # fixed_digits b k (n mod b ^ k)"
proof (induction k arbitrary: n)
  case (Suc k)
  have "fixed_digits b (Suc k) (n div b) = n div b div b ^ k # fixed_digits b k (n div b mod b ^ k)"
    using Suc.prems by (intro Suc.IH div_below) (simp_all add: pos_imp_zdiv_nonneg_iff)
  moreover have "n div b mod b ^ k = n mod b ^ Suc k div b"
    using Suc.prems(1) by (simp add: zmod_zmult2_eq)
  moreover have "n mod b ^ Suc k mod b = n mod b" by (simp add: mod_mod_cancel)
  ultimately show ?case using Suc.prems(1) by (simp add: zdiv_zmult2_eq)
qed simp

lemma fixed_digits_range: "0 < b \<Longrightarrow> d \<in> set (fixed_digits b k n) \<Longrightarrow> 0 \<le> d \<and> d < b"
  by (induction k arbitrary: n) auto

lemma length_fixed_digits [simp]: "length (fixed_digits b k n) = k"
  by (induction k arbitrary: n) auto

text \<open>The printing loop prints the digits of a number below \<open>b ^ k\<close> when the conversion keeps it.\<close>

lemma emit_digits_eq:
  "1 < b \<Longrightarrow> 0 \<le> n \<Longrightarrow> n < b ^ k \<Longrightarrow> b ^ (k - 1) < 18446744073709551616 \<Longrightarrow> n < 18446744073709551616 \<Longrightarrow>
     (\<And>v. 0 \<le> v \<Longrightarrow> v \<le> n \<Longrightarrow> conv v = v) \<Longrightarrow>
     emit_digits conv b digit n (int k) = map digit (fixed_digits b k n)"
proof (induction k arbitrary: n)
  case 0
  then show ?case by (simp add: emit_digits.simps)
next
  case (Suc k)
  let ?r = "n mod b ^ k"
  have p: "0 < b ^ k" and le: "0 \<le> ?r" "?r \<le> n" "?r < b ^ k"
    using Suc.prems by (auto simp: zmod_le_nonneg_dividend)
  have "b ^ (k - 1) \<le> b ^ k" using Suc.prems(1) by (intro power_increasing) auto
  also have "\<dots> < 18446744073709551616" using Suc.prems(4) by simp
  finally have "emit_digits conv b digit ?r (int k) = map digit (fixed_digits b k ?r)"
    using Suc.prems le by (intro Suc.IH) auto
  moreover have "conv ?r = ?r" using Suc.prems le by blast
  ultimately show ?case
    using Suc.prems p fixed_digits_Cons [of b n k]
    by (subst emit_digits.simps) (simp add: m_pow_n_eq u64_id Let_def)
qed

lemma count_digits_shift: "count_digits b v (c + d) = count_digits b v c + d"
proof (induction b v c rule: count_digits.induct)
  case (1 b v c)
  then show ?case
    by (subst (1 2) count_digits.simps) (auto simp: ac_simps)
qed

lemma num_digits_fixed:
  assumes "1 < b" "0 < n"
  shows "0 < count_digits b n 0 \<and> b ^ nat (count_digits b n 0 - 1) \<le> n \<and> n < b ^ nat (count_digits b n 0) \<and>
    num_digits b n = fixed_digits b (nat (count_digits b n 0)) n"
  using assms
proof (induction b n rule: num_digits.induct)
  case (1 b n)
  have step: "count_digits b n 0 = count_digits b (n div b) 0 + 1"
    using "1.prems" count_digits_shift [of b "n div b" 0 1] by (subst count_digits.simps) simp
  show ?case
  proof (cases "b \<le> n")
    case True
    let ?c = "count_digits b (n div b) 0"
    have q: "0 < n div b" using "1.prems" True by (simp add: pos_imp_zdiv_pos_iff)
    have IH: "0 < ?c" "b ^ nat (?c - 1) \<le> n div b" "n div b < b ^ nat ?c"
        "num_digits b (n div b) = fixed_digits b (nat ?c) (n div b)"
      using "1.IH" "1.prems"(1) True q by auto
    have e: "nat (?c + 1) = Suc (nat ?c)" "nat ?c = Suc (nat (?c - 1))" using IH(1) by auto
    have m: "b * (n div b) \<le> n" "n < b * (n div b + 1)"
      using "1.prems"(1) pos_mod_bound [of b n] by (simp_all add: minus_mod_eq_mult_div [symmetric] algebra_simps)
    have "b ^ nat ?c \<le> b * (n div b)" unfolding e(2) using IH(2) "1.prems"(1) by simp
    moreover have "b * (n div b + 1) \<le> b * b ^ nat ?c" using IH(3) "1.prems"(1) by (intro mult_left_mono) auto
    ultimately have "b ^ nat ?c \<le> n" "n < b * b ^ nat ?c" using m by linarith+
    then show ?thesis
      using IH(1,4) "1.prems"(1) True step by (simp add: e(1) num_digits.simps [of b n])
  next
    case False
    then have "n div b = 0" using "1.prems" by simp
    then have "count_digits b n 0 = 1" using step by (simp add: count_digits.simps)
    with False "1.prems" show ?thesis by (simp add: num_digits.simps)
  qed
qed

lemma num_digits_range: "1 < b \<Longrightarrow> 0 \<le> n \<Longrightarrow> d \<in> set (num_digits b n) \<Longrightarrow> 0 \<le> d \<and> d < b"
proof (induction b n rule: num_digits.induct)
  case (1 b n)
  then show ?case
    by (cases "b \<le> n") (auto simp: num_digits.simps [of b n] pos_imp_zdiv_nonneg_iff)
qed

lemma emit_num_digits:
  assumes "1 < b" "0 \<le> n" "n < 18446744073709551616" "\<And>v. 0 \<le> v \<Longrightarrow> v \<le> n \<Longrightarrow> conv v = v"
  shows "emit_digits conv b digit n (digit_count b n) = map digit (num_digits b n)"
proof (cases "n = 0")
  case True
  with assms(1) show ?thesis
    using emit_digits_eq [of b 0 1 conv digit] assms(4) by (simp add: digit_count_def num_digits.simps)
next
  case False
  let ?c = "count_digits b n 0"
  have n: "0 < ?c" "b ^ nat (?c - 1) \<le> n" "n < b ^ nat ?c" "num_digits b n = fixed_digits b (nat ?c) n"
    using num_digits_fixed [of b n] assms False by auto
  have "emit_digits conv b digit n (int (nat ?c)) = map digit (fixed_digits b (nat ?c) n)"
    using n assms by (intro emit_digits_eq) (auto simp: nat_diff_distrib)
  then show ?thesis using n False assms by (simp add: digit_count_def u64_id)
qed

lemma num_digits_nonempty: "num_digits b n \<noteq> []"
  by (subst num_digits.simps) simp

lemma dec_value_snoc: "dec_value x (ds @ [d]) = dec_value x ds * 10 + d"
  by (induction x ds rule: dec_value.induct) simp_all

lemma num_digits_value: "0 \<le> n \<Longrightarrow> dec_value 0 (num_digits 10 n) = n"
proof (induction "10 :: int" n rule: num_digits.induct)
  case (1 n)
  then show ?case
    by (subst num_digits.simps) (simp add: dec_value_snoc pos_imp_zdiv_nonneg_iff)
qed

lemma num_digits_int_length: "0 \<le> n \<Longrightarrow> n < 2147483648 \<Longrightarrow> length (num_digits 10 n) \<le> 10"
proof (cases "n = 0")
  case False
  assume n: "0 \<le> n" "n < 2147483648"
  let ?c = "count_digits 10 n 0"
  have c: "0 < ?c" "10 ^ nat (?c - 1) \<le> n" "length (num_digits 10 n) = nat ?c"
    using num_digits_fixed [of 10 n] False n by auto
  have "\<not> 10 \<le> nat (?c - 1)"
  proof
    assume "10 \<le> nat (?c - 1)"
    then have "(10 :: int) ^ 10 \<le> 10 ^ nat (?c - 1)" by (intro power_increasing) auto
    with c(2) n(2) show False by simp
  qed
  with c show ?thesis by simp
qed (simp add: num_digits.simps)

text \<open>What each conversion prints.\<close>

definition dec_text :: "int \<Rightarrow> 8 word list" where
  "dec_text i = (if i < 0 then [45] else []) @ map digit_byte (num_digits 10 \<bar>i\<bar>)"

lemma conv_d_eq: "- 2147483648 < i \<Longrightarrow> i < 2147483648 \<Longrightarrow> conv_d i = dec_text i"
  by (auto simp: conv_d_def dec_text_def s32_id Let_def intro!: emit_num_digits)

lemma conv_x_eq: "0 \<le> i \<Longrightarrow> i < 18446744073709551616 \<Longrightarrow> conv_x i = map hex_digit (num_digits 16 i)"
  by (auto simp: conv_x_def u64_id Let_def intro!: emit_num_digits)

lemma conv_b_eq: "0 \<le> i \<Longrightarrow> i < 2147483648 \<Longrightarrow> conv_b i = map digit_byte (num_digits 2 i)"
  by (auto simp: conv_b_def s32_id Let_def intro!: emit_num_digits)

subsection \<open>Blocks of memory\<close>

lemma block_append: "block m p (a + b) = xs @ ys \<longleftrightarrow> block m p a = xs \<and> block m (p + int a) b = ys"
  if "length xs = a"
proof -
  have "block m p (a + b) = block m p a @ block m (p + int a) b"
    by (rule nth_equalityI) (auto simp: block_def nth_append)
  with that show ?thesis by (simp add: block_def)
qed

lemma block_cong: "(\<And>x. x \<in> bytes (p, int n) \<Longrightarrow> m x = m' x) \<Longrightarrow> block m p n = block m' p n"
  by (simp add: block_def)

lemma put_bytes_append: "put_bytes (xs @ ys) m d = put_bytes ys (put_bytes xs m d) (d + int (length xs))"
  by (induction xs arbitrary: m d) (simp_all add: ac_simps)

lemma put_bytes_eq:
  "put_bytes t m d = (\<lambda>x. if x \<in> bytes (d, int (length t)) then t ! nat (x - d) else m x)"
proof (induction t arbitrary: m d)
  case (Cons b bs)
  show ?case unfolding put_bytes.simps Cons
  proof
    fix x
    show "(if x \<in> bytes (d + 1, int (length bs)) then bs ! nat (x - (d + 1)) else (m(d := b)) x) =
        (if x \<in> bytes (d, int (length (b # bs))) then (b # bs) ! nat (x - d) else m x)"
    proof (cases "x = d")
      case False
      then have "nat (x - d) = Suc (nat (x - (d + 1)))" if "d \<le> x" using that by simp
      with False show ?thesis by auto
    qed simp
  qed
next
  case Nil
  show ?case by (rule ext) auto
qed

lemma put_bytes_outside [simp]: "x \<notin> bytes (d, int (length t)) \<Longrightarrow> put_bytes t m d x = m x"
  by (auto simp: put_bytes_eq)

lemma block_put_bytes [simp]: "block (put_bytes t m d) d (length t) = t"
  by (rule nth_equalityI) (auto simp: block_def put_bytes_eq)

lemma cstr_put_bytes: "0 \<notin> set t \<Longrightarrow> cstr ((put_bytes t m d)(d + int (length t) := 0)) d t"
proof -
  assume "0 \<notin> set t"
  moreover have "block ((put_bytes t m d)(d + int (length t) := 0)) d (length t) = block (put_bytes t m d) d (length t)"
    by (rule block_cong) auto
  ultimately show ?thesis by (simp add: cstr_block)
qed

lemma s32_add [simp]: "s32 (s32 a + b) = s32 (a + b)" "s32 (a + s32 b) = s32 (a + b)"
proof -
  have "s32 (s32 a + b) = s32 (a + b)" for a b
    by (simp add: s32_def mod_simps algebra_simps)
  from this show "s32 (s32 a + b) = s32 (a + b)" "s32 (a + s32 b) = s32 (a + b)" by (simp_all add: add.commute)
qed

subsection \<open>Formats\<close>

datatype token = Lit "8 word" | Pct | Dec int | Chr int | Hex int | Bin int | Str int "8 word list"

fun code :: "token \<Rightarrow> 8 word list" where
  "code (Lit c) = [c]"
| "code Pct = [37, 37]"
| "code (Dec i) = [37, 100]"
| "code (Chr i) = [37, 99]"
| "code (Hex i) = [37, 120]"
| "code (Bin i) = [37, 98]"
| "code (Str p cs) = [37, 115]"

fun args :: "token \<Rightarrow> int list" where
  "args (Lit c) = []"
| "args Pct = []"
| "args (Dec i) = [i]"
| "args (Chr i) = [i]"
| "args (Hex i) = [i]"
| "args (Bin i) = [i]"
| "args (Str p cs) = [p]"

fun txt_of :: "token \<Rightarrow> 8 word list" where
  "txt_of (Lit c) = [c]"
| "txt_of Pct = [37]"
| "txt_of (Dec i) = dec_text i"
| "txt_of (Chr i) = [word_of_int i]"
| "txt_of (Hex i) = map hex_digit (num_digits 16 i)"
| "txt_of (Bin i) = map digit_byte (num_digits 2 i)"
| "txt_of (Str p cs) = cs"

text \<open>
  The arguments are in range for their conversion; \<open>src\<close> is the memory the format and its string
  arguments occupy.
\<close>

fun token_ok :: "mem \<Rightarrow> int set \<Rightarrow> token \<Rightarrow> bool" where
  "token_ok m src (Lit c) \<longleftrightarrow> c \<noteq> 0 \<and> c \<noteq> 37"
| "token_ok m src Pct \<longleftrightarrow> True"
| "token_ok m src (Dec i) \<longleftrightarrow> - 2147483648 < i \<and> i < 2147483648"
| "token_ok m src (Chr i) \<longleftrightarrow> - 2147483648 \<le> i \<and> i < 2147483648"
| "token_ok m src (Hex i) \<longleftrightarrow> 0 \<le> i \<and> i < 18446744073709551616"
| "token_ok m src (Bin i) \<longleftrightarrow> 0 \<le> i \<and> i < 2147483648"
| "token_ok m src (Str p cs) \<longleftrightarrow> 0 < p \<and> p < 18446744073709551616 \<and> cstr m p cs \<and>
     bytes (p, int (length cs) + 1) \<subseteq> src \<and> length cs < 2147483648"

definition codes :: "('t \<Rightarrow> 8 word list) \<Rightarrow> 't list \<Rightarrow> 8 word list" where
  "codes c ts = concat (map c ts)"

text \<open>
  A loop over a format, as a locale: \<open>loop s p ap\<close> goes on in the state \<open>s\<close> at position \<open>p\<close> with the
  arguments \<open>ap\<close>.  When the loop treats each piece of the format as \<open>put\<close> says and never writes the
  memory it reads, it treats the whole format so.
\<close>

locale format_loop =
  fixes loop :: "'s \<Rightarrow> int \<Rightarrow> int list \<Rightarrow> 'r"
    and view :: "'s \<Rightarrow> mem"
    and put :: "'t \<Rightarrow> 's \<Rightarrow> 's"
    and tcode :: "'t \<Rightarrow> 8 word list"
    and targs :: "'t \<Rightarrow> int list"
    and fits :: "'s \<Rightarrow> 't \<Rightarrow> bool"
    and src :: "int set"
  assumes step: "fits s t \<Longrightarrow> block (view s) p (length (tcode t)) = tcode t \<Longrightarrow>
      loop s p (targs t @ ap) = loop (put t s) (p + int (length (tcode t))) ap"
    and keep: "fits s t \<Longrightarrow> x \<in> src \<Longrightarrow> view (put t s) x = view s x"
begin

fun fits_all :: "'s \<Rightarrow> 't list \<Rightarrow> bool" where
  "fits_all s [] \<longleftrightarrow> True"
| "fits_all s (t # ts) \<longleftrightarrow> fits s t \<and> fits_all (put t s) ts"

lemma loop_tokens:
  "fits_all s ts \<Longrightarrow> block (view s) p (length (codes tcode ts)) = codes tcode ts \<Longrightarrow>
     bytes (p, int (length (codes tcode ts))) \<subseteq> src \<Longrightarrow>
     loop s p (concat (map targs ts) @ ap) = loop (fold put ts s) (p + int (length (codes tcode ts))) ap"
proof (induction ts arbitrary: s p)
  case Nil
  then show ?case by (simp add: codes_def)
next
  case (Cons t ts)
  let ?n = "length (tcode t)" and ?k = "length (codes tcode ts)"
  have c: "codes tcode (t # ts) = tcode t @ codes tcode ts" by (simp add: codes_def)
  have b: "block (view s) p ?n = tcode t" "block (view s) (p + int ?n) ?k = codes tcode ts"
    using Cons.prems(2) unfolding c by (simp_all add: block_append)
  have sub: "bytes (p + int ?n, int ?k) \<subseteq> src"
    using Cons.prems(3) unfolding c by (auto simp: subset_iff)
  have "block (view (put t s)) (p + int ?n) ?k = block (view s) (p + int ?n) ?k"
    using Cons.prems(1) sub by (intro block_cong keep) auto
  with b(2) sub Cons.prems(1)
  have "loop (put t s) (p + int ?n) (concat (map targs ts) @ ap) =
      loop (fold put ts (put t s)) (p + int ?n + int ?k) ap"
    by (intro Cons.IH) simp_all
  moreover have "loop s p (targs t @ concat (map targs ts) @ ap) =
      loop (put t s) (p + int ?n) (concat (map targs ts) @ ap)"
    using Cons.prems(1) b(1) by (intro step) simp_all
  ultimately show ?case by (simp add: c ac_simps)
qed

end

subsection \<open>The loop of vsprintf\<close>

lemma emit_apply: "emit t (m, d, ret) = (put_bytes t m d, d + int (length t), s32 (ret + int (length t)))"
  by (simp add: emit_def)

lemma emit_append: "emit (xs @ ys) st = emit ys (emit xs st)"
  by (cases st) (simp add: emit_def put_bytes_append ac_simps)

lemma emit_Nil [simp]: "emit [] (m, d, s32 ret) = (m, d, s32 ret)"
  by (simp add: emit_def s32_id)

text \<open>A string copied byte by byte while it is read is written as a whole when it is not overwritten.\<close>

lemma copy_loop_put_bytes:
  assumes "cstr m s cs" "bytes (d, int (length cs)) \<inter> bytes (s, int (length cs) + 1) = {}"
  shows "copy_loop m d s = Some (put_bytes cs m d, d + int (length cs))"
proof (cases "cs = []")
  case True
  with assms(1) show ?thesis by (simp add: copy_loop.simps)
next
  case False
  then have "apart (d, int (length cs)) (s, int (length cs) + 1)"
    using assms(2) by (subst apart_iff) simp_all
  moreover have "copied m d s (length cs) = put_bytes cs m d"
  proof
    fix x
    have "cs ! nat (x - d) = m (s + (x - d))" if "d \<le> x" "x < d + int (length cs)"
    proof -
      have "cs ! nat (x - d) = block m s (length cs) ! nat (x - d)" using assms(1) by (simp add: cstr_block)
      also have "\<dots> = m (s + (x - d))" using that by (simp add: block_def nth_map nat_less_iff)
      finally show ?thesis .
    qed
    then show "copied m d s (length cs) x = put_bytes cs m d x" by (simp add: copied_def put_bytes_eq)
  qed
  ultimately show ?thesis using copy_loop_cstr [OF assms(1)] by simp
qed

definition spf_fits :: "int set \<Rightarrow> mem \<times> int \<times> int \<Rightarrow> token \<Rightarrow> bool" where
  "spf_fits src st t = (case st of (m, d, ret) \<Rightarrow>
     token_ok m src t \<and> (case t of Hex i \<Rightarrow> False | Bin i \<Rightarrow> False | _ \<Rightarrow> True) \<and>
     bytes (d, int (length (txt_of t))) \<inter> src = {})"

lemma vsprintf_step:
  assumes "spf_fits src st t" "block (fst st) p (length (code t)) = code t"
  shows "vsprintf_loop st p (args t @ ap) = vsprintf_loop (emit (txt_of t) st) (p + int (length (code t))) ap"
proof -
  obtain m d ret where st: "st = (m, d, ret)" by (cases st)
  have "copy_loop m d q = Some (put_bytes cs m d, d + int (length cs))"
    if "t = Str q cs" for q cs
    using assms(1) that unfolding st by (intro copy_loop_put_bytes) (auto simp: spf_fits_def)
  then show ?thesis
    using assms unfolding st
    by (subst vsprintf_loop.simps, cases t)
      (auto simp: spf_fits_def block_Suc vsprintf_conv_def va_arg_def conv_d_eq s32_id u64_id emit_def block_def)
qed

interpretation spf: format_loop vsprintf_loop fst "\<lambda>t. emit (txt_of t)" code args "spf_fits src" src for src
proof
  show "fst (emit (txt_of t) st) x = fst st x" if "spf_fits src st t" "x \<in> src" for st t x
    using that by (cases st) (auto simp: spf_fits_def emit_def disjoint_iff put_bytes_eq)
qed (rule vsprintf_step)

lemma token_ok_cong: "\<forall>x \<in> src. m x = m' x \<Longrightarrow> token_ok m src t \<Longrightarrow> token_ok m' src t"
proof (cases t)
  case (Str p cs)
  assume eq: "\<forall>x \<in> src. m x = m' x" and ok: "token_ok m src t"
  with Str have "cstr m' p cs"
    by (intro iffD1 [OF cstr_cong, of p cs m m']) (auto simp: subset_iff)
  with ok Str show ?thesis by simp
qed simp_all

lemma codes_Cons [simp]: "codes c (t # ts) = c t @ codes c ts" "codes c [] = []"
  by (simp_all add: codes_def)


lemma fold_emit: "fold (\<lambda>t. emit (txt_of t)) ts (emit xs st) = emit (xs @ codes txt_of ts) st"
proof (induction ts arbitrary: xs)
  case (Cons t ts)
  have "fold (\<lambda>t. emit (txt_of t)) ts (emit (xs @ txt_of t) st) = emit ((xs @ txt_of t) @ codes txt_of ts) st"
    by (rule Cons)
  then show ?case by (simp add: emit_append)
qed simp

definition no_base :: "token \<Rightarrow> bool" where
  "no_base t = (case t of Hex i \<Rightarrow> False | Bin i \<Rightarrow> False | _ \<Rightarrow> True)"

lemma spf_fits_all:
  "\<forall>t \<in> set ts. token_ok m src t \<and> no_base t \<Longrightarrow> bytes (d, int (length (codes txt_of ts))) \<inter> src = {} \<Longrightarrow>
     spf.fits_all src (m, d, ret) ts"
proof (induction ts arbitrary: m d ret)
  case (Cons t ts)
  let ?n = "int (length (txt_of t))" and ?m = "put_bytes (txt_of t) m d"
  have d: "bytes (d, ?n) \<inter> src = {}" "bytes (d + ?n, int (length (codes txt_of ts))) \<inter> src = {}"
    using Cons.prems(2) by (auto simp: disjoint_iff)
  then have "\<forall>x \<in> src. m x = ?m x" by (auto simp: put_bytes_eq disjoint_iff)
  then have "\<forall>t \<in> set ts. token_ok ?m src t \<and> no_base t"
    using Cons.prems(1) token_ok_cong [of src m ?m] by auto
  then have "spf.fits_all src (?m, d + ?n, s32 (ret + ?n)) ts" using d(2) by (rule Cons.IH)
  moreover have "spf_fits src (m, d, ret) t"
    using Cons.prems(1) d(1) by (simp add: spf_fits_def no_base_def)
  ultimately show ?case by (simp add: emit_apply)
qed simp

text \<open>Where a format, its arguments and the output lie.\<close>

definition format_at :: "mem \<Rightarrow> int \<Rightarrow> token list \<Rightarrow> int set \<Rightarrow> bool" where
  "format_at m fmt ts src \<longleftrightarrow> fmt \<noteq> 0 \<and> cstr m fmt (codes code ts) \<and>
     bytes (fmt, int (length (codes code ts)) + 1) \<subseteq> src \<and> (\<forall>t \<in> set ts. token_ok m src t \<and> no_base t)"

definition output_at :: "int \<Rightarrow> 8 word list \<Rightarrow> int \<Rightarrow> int set \<Rightarrow> bool" where
  "output_at out t k src \<longleftrightarrow> out \<noteq> 0 \<and> 0 \<notin> set t \<and> length t < 2147483648 \<and> bytes (out, k) \<inter> src = {}"

lemma vsprintf_eq:
  assumes f: "format_at m fmt ts src" and o: "output_at out (codes txt_of ts) (int (length (codes txt_of ts)) + 1) src"
  defines "t \<equiv> codes txt_of ts"
  shows "vsprintf m out fmt (concat (map args ts)) =
    (if t = [] then cfail Assert_Fail
     else cret ((put_bytes t m out)(out + int (length t) := 0), int (length t)))"
proof -
  have disj: "bytes (out, int (length t)) \<inter> src = {}" using o by (auto simp: output_at_def t_def disjoint_iff)
  have e: "block m fmt (length (codes code ts)) = codes code ts" "m (fmt + int (length (codes code ts))) = 0"
    using f by (auto simp: format_at_def cstr_block)
  have s: "bytes (fmt, int (length (codes code ts))) \<subseteq> src" "fmt + int (length (codes code ts)) \<in> src"
    using f by (auto simp: format_at_def subset_iff)
  have "vsprintf_loop (m, out, 0) fmt (concat (map args ts) @ []) =
      vsprintf_loop (fold (\<lambda>t. emit (txt_of t)) ts (m, out, 0)) (fmt + int (length (codes code ts))) []"
    using f e s disj unfolding t_def by (intro spf.loop_tokens spf_fits_all) (auto simp: format_at_def)
  also have "fold (\<lambda>t. emit (txt_of t)) ts (m, out, 0) = (put_bytes t m out, out + int (length t), int (length t))"
    using fold_emit [of ts "[]" "(m, out, 0)"] o by (simp add: emit_def s32_id t_def output_at_def)
  also have "put_bytes t m out (fmt + int (length (codes code ts))) = 0"
    using e s disj by (auto simp: put_bytes_eq disjoint_iff)
  then have "vsprintf_loop (put_bytes t m out, out + int (length t), int (length t)) (fmt + int (length (codes code ts))) [] =
      cret (put_bytes t m out, out + int (length t), int (length t))"
    by (subst vsprintf_loop.simps) simp
  finally have l: "vsprintf_loop (m, out, 0) fmt (concat (map args ts)) =
      cret (put_bytes t m out, out + int (length t), int (length t))" by simp
  have "cstr ((put_bytes t m out)(out + int (length t) := 0)) out t"
    using o by (intro cstr_put_bytes) (simp add: output_at_def t_def)
  then show ?thesis
    using o f l by (simp add: vsprintf_def output_at_def t_def format_at_def s32_id cassert_def Let_def)
qed

subsection \<open>The loop of vsnprintf\<close>

lemma full_iff: "0 \<le> ret \<Longrightarrow> ret < 2147483647 \<Longrightarrow> full n ret \<longleftrightarrow> n \<le> ret"
  by (auto simp: full_def s32_id u64_id)

text \<open>\<open>emit_n\<close> writes what fits and says whether something did not.\<close>

lemma emit_n_eq:
  "0 \<le> ret \<Longrightarrow> ret \<le> n \<Longrightarrow> ret + int (length t) < 2147483648 \<Longrightarrow>
     emit_n n t (m, d, ret) =
       (let k = min (nat (n - ret)) (length t)
        in (k < length t, put_bytes (take k t) m d, d + int k, ret + int k))"
proof (induction t arbitrary: m d ret)
  case (Cons b bs)
  show ?case
  proof (cases "n \<le> ret")
    case True
    with Cons.prems show ?thesis by (simp add: full_iff)
  next
    case False
    then have "emit_n n bs (m(d := b), d + 1, ret + 1) =
        (let k = min (nat (n - (ret + 1))) (length bs)
         in (k < length bs, put_bytes (take k bs) (m(d := b)) (d + 1), d + 1 + int k, ret + 1 + int k))"
      using Cons.prems by (intro Cons.IH) auto
    moreover have "min (nat (n - ret)) (length (b # bs)) = Suc (min (nat (n - (ret + 1))) (length bs))"
      using False by auto
    ultimately show ?thesis using False Cons.prems by (simp add: full_iff s32_id Let_def)
  qed
qed simp

lemma copy_n_eq:
  "cstr m s cs \<Longrightarrow> 0 \<le> ret \<Longrightarrow> ret \<le> n \<Longrightarrow> ret + int (length cs) < 2147483648 \<Longrightarrow>
     bytes (d, min (n - ret) (int (length cs))) \<inter> bytes (s, int (length cs) + 1) = {} \<Longrightarrow>
     copy_n n s (m, d, ret) = Some (emit_n n cs (m, d, ret))"
proof (induction cs arbitrary: m d s ret)
  case Nil
  then show ?case by (simp add: copy_n.simps)
next
  case (Cons c cs)
  then have c: "m s = c" "c \<noteq> 0" and cs: "cstr m (s + 1) cs" by auto
  show ?case
  proof (cases "n \<le> ret")
    case True
    with c Cons.prems show ?thesis by (subst copy_n.simps) (simp add: full_iff)
  next
    case False
    let ?D = "bytes (d, min (n - ret) (int (length (c # cs))))" and ?S = "bytes (s, int (length (c # cs)) + 1)"
    have sub: "bytes (d + 1, min (n - (ret + 1)) (int (length cs))) \<subseteq> ?D" "d \<in> ?D"
        "bytes (s + 1, int (length cs) + 1) \<subseteq> ?S"
      using False by (auto simp: subset_iff)
    then have disj: "bytes (d + 1, min (n - (ret + 1)) (int (length cs))) \<inter> bytes (s + 1, int (length cs) + 1) = {}"
      using Cons.prems(5) by blast
    have "d \<notin> bytes (s + 1, int (length cs) + 1)" using Cons.prems(5) sub(2,3) by blast
    then have "cstr (m(d := c)) (s + 1) cs"
      by (intro iffD1 [OF cstr_cong cs]) auto
    then have "copy_n n (s + 1) (m(d := c), d + 1, ret + 1) = Some (emit_n n cs (m(d := c), d + 1, ret + 1))"
      using Cons.prems False disj by (intro Cons.IH) (auto simp del: fun_upd_apply)
    with c False Cons.prems show ?thesis by (subst copy_n.simps) (simp add: full_iff s32_id)
  qed
qed

definition put_n :: "int \<Rightarrow> token \<Rightarrow> bool \<times> mem \<times> int \<times> int \<Rightarrow> bool \<times> mem \<times> int \<times> int" where
  "put_n n t st = (if fst st then st else emit_n n (txt_of t) (snd st))"

definition snpf_fits :: "int \<Rightarrow> int set \<Rightarrow> bool \<times> mem \<times> int \<times> int \<Rightarrow> token \<Rightarrow> bool" where
  "snpf_fits n src st t = (case st of (b, m, d, ret) \<Rightarrow> b \<or>
     token_ok m src t \<and> no_base t \<and> 0 \<le> ret \<and> ret \<le> n \<and> ret + int (length (txt_of t)) < 2147483648 \<and>
     bytes (d, min (n - ret) (int (length (txt_of t)))) \<inter> src = {})"

lemma vsnprintf_done: "vsnprintf_loop n (True, st) p ap = cret (True, st)"
  by (subst vsnprintf_loop.simps) (simp split: prod.split)

lemma vsnprintf_step:
  assumes "snpf_fits n src st t" "block (fst (snd st)) p (length (code t)) = code t"
  shows "vsnprintf_loop n st p (args t @ ap) = vsnprintf_loop n (put_n n t st) (p + int (length (code t))) ap"
proof -
  obtain b m d ret where st: "st = (b, m, d, ret)" by (cases st)
  show ?thesis
  proof (cases b)
    case True
    then show ?thesis by (simp add: st put_n_def vsnprintf_done)
  next
    case False
    have "copy_n n q (m, d, ret) = Some (emit_n n cs (m, d, ret))" if "t = Str q cs" for q cs
      using assms(1) False that unfolding st by (intro copy_n_eq) (auto simp: snpf_fits_def)
    with False assms show ?thesis
      unfolding st
      by (subst vsnprintf_loop.simps, cases t)
        (auto simp: snpf_fits_def no_base_def put_n_def block_Suc vsnprintf_conv_def va_arg_def conv_d_eq s32_id
          u64_id block_def)
  qed
qed

lemma put_n_frame:
  assumes "snpf_fits n src st t" "x \<in> src"
  shows "fst (snd (put_n n t st)) x = fst (snd st) x"
proof -
  obtain b m d ret where st: "st = (b, m, d, ret)" by (cases st)
  show ?thesis
  proof (cases b)
    case False
    have "int (min (nat (n - ret)) (length (txt_of t))) = min (n - ret) (int (length (txt_of t)))"
      using assms(1) False by (auto simp: st snpf_fits_def min_def)
    then have "x \<notin> bytes (d, int (min (nat (n - ret)) (length (txt_of t))))"
      using assms False by (auto simp: st snpf_fits_def disjoint_iff)
    then show ?thesis
      using assms(1) False by (auto simp: st snpf_fits_def put_n_def emit_n_eq Let_def put_bytes_eq)
  qed (simp add: st put_n_def)
qed

interpretation snpf: format_loop "vsnprintf_loop n" "\<lambda>st. fst (snd st)" "put_n n" code args "snpf_fits n src" src
  for n src
  by unfold_locales (rule vsnprintf_step, assumption+, rule put_n_frame)

lemma emit_n_append: "emit_n n (xs @ ys) st = (if fst (emit_n n xs st) then emit_n n xs st else emit_n n ys (snd (emit_n n xs st)))"
  by (induction n xs st rule: emit_n.induct) auto

lemma fold_put_n: "fold (put_n n) ts (emit_n n xs st) = emit_n n (xs @ codes txt_of ts) st"
proof (induction ts arbitrary: xs)
  case (Cons t ts)
  have "fold (put_n n) ts (emit_n n (xs @ txt_of t) st) = emit_n n ((xs @ txt_of t) @ codes txt_of ts) st"
    by (rule Cons)
  moreover have "put_n n t (emit_n n xs st) = emit_n n (xs @ txt_of t) st"
    by (simp add: emit_n_append put_n_def)
  ultimately show ?case by simp
qed simp

lemma snpf_fits_all:
  "\<forall>t \<in> set ts. token_ok m src t \<and> no_base t \<Longrightarrow> 0 \<le> ret \<Longrightarrow> ret \<le> n \<Longrightarrow>
     ret + int (length (codes txt_of ts)) < 2147483648 \<Longrightarrow>
     bytes (d, min (n - ret) (int (length (codes txt_of ts)))) \<inter> src = {} \<Longrightarrow>
     snpf.fits_all n src (b, m, d, ret) ts"
proof (induction ts arbitrary: b m d ret)
  case (Cons t ts)
  let ?l = "int (length (txt_of t))"
  have "bytes (d, min (n - ret) ?l) \<subseteq> bytes (d, min (n - ret) (int (length (codes txt_of (t # ts)))))"
    by (auto simp: subset_iff)
  then have fit: "snpf_fits n src (b, m, d, ret) t" using Cons.prems by (auto simp: snpf_fits_def)
  show ?case
  proof (cases "fst (put_n n t (b, m, d, ret))")
    case True
    have "snpf.fits_all n src st us" if "fst st" for us st
      using that by (induction us) (auto simp: snpf_fits_def put_n_def split: prod.split)
    with True fit show ?thesis by simp
  next
    case False
    then have b: "\<not> b" by (auto simp: put_n_def)
    then have "\<not> fst (emit_n n (txt_of t) (m, d, ret))" using False by (simp add: put_n_def)
    then have l: "length (txt_of t) \<le> nat (n - ret)"
      using Cons.prems by (simp add: emit_n_eq Let_def)
    then have e: "put_n n t (b, m, d, ret) = (False, put_bytes (txt_of t) m d, d + ?l, ret + ?l)"
      using Cons.prems b by (simp add: put_n_def emit_n_eq min_absorb2 Let_def)
    have "\<forall>x \<in> src. m x = put_bytes (txt_of t) m d x"
      using put_n_frame [OF fit] e by simp
    then have ok: "\<forall>u \<in> set ts. token_ok (put_bytes (txt_of t) m d) src u \<and> no_base u"
      using Cons.prems(1) token_ok_cong [of src m "put_bytes (txt_of t) m d"] by auto
    have "bytes (d + ?l, min (n - (ret + ?l)) (int (length (codes txt_of ts)))) \<subseteq>
        bytes (d, min (n - ret) (int (length (codes txt_of (t # ts)))))"
      by (auto simp: subset_iff)
    then have "snpf.fits_all n src (False, put_bytes (txt_of t) m d, d + ?l, ret + ?l) ts"
      using Cons.prems l by (intro Cons.IH [OF ok]) auto
    with fit e show ?thesis by simp
  qed
qed simp

lemma vsnprintf_eq:
  assumes f: "format_at m fmt ts src" and n: "0 \<le> n" "n < 18446744073709551616"
    and o: "output_at out (codes txt_of ts) (min n (int (length (codes txt_of ts)) + 1)) src"
  defines "t \<equiv> codes txt_of ts"
  shows "n < int (length t) \<Longrightarrow>
      vsnprintf m out n fmt (concat (map args ts)) = cret (put_bytes (take (nat n) t) m out, n)"
    and "int (length t) \<le> n \<Longrightarrow>
      vsnprintf m out n fmt (concat (map args ts)) =
        (if t = [] then cfail Assert_Fail
         else cret ((put_bytes t m out)(out + int (length t) := 0), int (length t)))"
proof -
  have sub: "bytes (out, min n (int (length t))) \<subseteq> bytes (out, min n (int (length t) + 1))"
    by (auto simp: subset_iff)
  then have disj: "bytes (out, min (n - 0) (int (length t))) \<inter> src = {}"
    using o by (auto simp: output_at_def t_def)
  let ?e = "fmt + int (length (codes code ts))"
  have e: "block m fmt (length (codes code ts)) = codes code ts" "m ?e = 0"
    using f by (auto simp: format_at_def cstr_block)
  have s: "bytes (fmt, int (length (codes code ts))) \<subseteq> src" "?e \<in> src"
    using f by (auto simp: format_at_def subset_iff)
  have len: "length t < 2147483648" using o by (simp add: output_at_def t_def)
  have "vsnprintf_loop n (False, m, out, 0) fmt (concat (map args ts) @ []) =
      vsnprintf_loop n (fold (put_n n) ts (False, m, out, 0)) ?e []"
    using f e s disj len n unfolding t_def by (intro snpf.loop_tokens snpf_fits_all) (auto simp: format_at_def)
  also have "fold (put_n n) ts (False, m, out, 0) = emit_n n t (m, out, 0)"
    using fold_put_n [of n ts "[]" "(m, out, 0)"] by (simp add: t_def)
  finally have loop: "vsnprintf_loop n (False, m, out, 0) fmt (concat (map args ts)) =
      vsnprintf_loop n (emit_n n t (m, out, 0)) ?e []" by simp
  show "vsnprintf m out n fmt (concat (map args ts)) = cret (put_bytes (take (nat n) t) m out, n)"
    if "n < int (length t)"
  proof -
    have "min (nat n) (length t) = nat n" using that n by simp
    then have "emit_n n t (m, out, 0) = (True, put_bytes (take (nat n) t) m out, out + n, n)"
      using that n len by (simp add: emit_n_eq Let_def)
    then show ?thesis using f loop by (simp add: vsnprintf_def format_at_def vsnprintf_done)
  qed
  show "vsnprintf m out n fmt (concat (map args ts)) =
      (if t = [] then cfail Assert_Fail
       else cret ((put_bytes t m out)(out + int (length t) := 0), int (length t)))"
    if "int (length t) \<le> n"
  proof -
    have "length t \<le> nat n" using that by simp
    then have e: "emit_n n t (m, out, 0) = (False, put_bytes t m out, out + int (length t), int (length t))"
      using n len by (simp add: emit_n_eq Let_def min_absorb2)
    have "?e \<notin> bytes (out, int (length t))" using disj s(2) that by (auto simp: disjoint_iff)
    then have "put_bytes t m out ?e = 0" using \<open>m ?e = 0\<close> by (auto simp: put_bytes_eq)
    then have l: "vsnprintf_loop n (False, m, out, 0) fmt (concat (map args ts)) =
        cret (False, put_bytes t m out, out + int (length t), int (length t))"
      using loop e by (simp add: vsnprintf_loop.simps [of n "(False, put_bytes t m out, out + int (length t), int (length t))"])
    have "cstr ((put_bytes t m out)(out + int (length t) := 0)) out t"
      using o by (intro cstr_put_bytes) (simp add: output_at_def t_def)
    then show ?thesis
      using o f l len that by (simp add: vsnprintf_def output_at_def format_at_def s32_id u64_id cassert_def Let_def)
  qed
qed

subsection \<open>The loop of printf\<close>

lemma put_string_eq: "cstr m s cs \<Longrightarrow> put_string m s out = Some (out @ cs)"
  by (induction cs arbitrary: s out) (simp_all add: put_string.simps)

text \<open>
  \<open>printf\<close> takes a conversion together with the character that follows it, which it prints as it is.
\<close>

datatype piece = Plain "8 word" | Conv token "8 word"

fun piece_code :: "piece \<Rightarrow> 8 word list" where
  "piece_code (Plain c) = [c]"
| "piece_code (Conv t c) = code t @ [c]"

fun piece_args :: "piece \<Rightarrow> int list" where
  "piece_args (Plain c) = []"
| "piece_args (Conv t c) = args t"

fun piece_text :: "piece \<Rightarrow> 8 word list" where
  "piece_text (Plain c) = [c]"
| "piece_text (Conv t c) = txt_of t @ [c]"

text \<open>What a piece adds to the count: a plain tab counts as four characters.\<close>

fun piece_width :: "piece \<Rightarrow> int" where
  "piece_width (Plain c) = (if c = 9 then 4 else 1)"
| "piece_width (Conv t c) = int (length (txt_of t)) + 1"

fun piece_ok :: "mem \<Rightarrow> piece \<Rightarrow> bool" where
  "piece_ok m (Plain c) \<longleftrightarrow> c \<noteq> 0 \<and> c \<noteq> 37"
| "piece_ok m (Conv t c) \<longleftrightarrow> token_ok m UNIV t \<and> (case t of Lit b \<Rightarrow> False | _ \<Rightarrow> True)"

definition put_piece :: "piece \<Rightarrow> 8 word list \<times> int \<Rightarrow> 8 word list \<times> int" where
  "put_piece q = (\<lambda>(out, ret). (out @ piece_text q, s32 (ret + piece_width q)))"

lemma printf_step:
  assumes "piece_ok m q" "block m p (length (piece_code q)) = piece_code q"
  shows "printf_loop m st p (piece_args q @ ap) =
    printf_loop m (put_piece q st) (p + int (length (piece_code q))) ap"
proof (cases st)
  case (Pair out ret)
  show ?thesis
  proof (cases q)
    case (Plain c)
    with assms show ?thesis
      unfolding Pair by (subst printf_loop.simps) (auto simp: block_Suc put_piece_def block_def)
  next
    case (Conv t c)
    have t: "token_ok m UNIV t" "\<forall>b. t \<noteq> Lit b" using assms(1) unfolding Conv by (cases t; simp)+
    then obtain k where k: "code t = [37, k]" by (cases t) auto
    have b: "m p = 37" "m (p + 1) = k" "m (p + 2) = c"
      using assms(2) unfolding Conv by (simp_all add: k block_Suc add.commute [of p])
    have "printf_conv m (p + 1) (args t @ ap) = cret (p + 2, ap, txt_of t, int (length (txt_of t)))"
      using t k b(2)
      by (cases t) (auto simp: printf_conv_def va_arg_def conv_d_eq conv_x_eq conv_b_eq s32_id u64_id put_string_eq Let_def)
    then show ?thesis
      using b unfolding Pair Conv
      by (subst printf_loop.simps) (simp add: put_piece_def k add.assoc)
  qed
qed

interpretation pf: format_loop "printf_loop m" "\<lambda>_. m" put_piece piece_code piece_args "\<lambda>_. piece_ok m" UNIV for m
  by unfold_locales (rule printf_step, assumption+, rule refl)

lemma pf_fits_all: "\<forall>q \<in> set qs. piece_ok m q \<Longrightarrow> pf.fits_all m st qs"
  by (induction qs arbitrary: st) auto

lemma fold_put_piece:
  "fold put_piece qs (out, s32 ret) = (out @ codes piece_text qs, s32 (ret + sum_list (map piece_width qs)))"
  by (induction qs arbitrary: out ret) (auto simp: put_piece_def ac_simps)

lemma printf_loop_pieces:
  assumes "\<forall>q \<in> set qs. piece_ok m q" "block m p (length (codes piece_code qs)) = codes piece_code qs"
  shows "printf_loop m ([], 0) p (concat (map piece_args qs) @ ap) =
    printf_loop m (codes piece_text qs, s32 (sum_list (map piece_width qs))) (p + int (length (codes piece_code qs))) ap"
proof -
  have "printf_loop m ([], 0) p (concat (map piece_args qs) @ ap) =
      printf_loop m (fold put_piece qs ([], 0)) (p + int (length (codes piece_code qs))) ap"
    using assms by (intro pf.loop_tokens pf_fits_all) auto
  with fold_put_piece [of qs "[]" 0] show ?thesis by simp
qed

text \<open>A format in which every conversion is followed by a literal character, as pieces.\<close>

fun pieces :: "token list \<Rightarrow> piece list option" where
  "pieces [] = Some []"
| "pieces (Lit c # ts) = map_option ((#) (Plain c)) (pieces ts)"
| "pieces (t # Lit c # ts) = map_option ((#) (Conv t c)) (pieces ts)"
| "pieces (t # ts) = None"

lemma pieces_facts:
  "pieces ts = Some qs \<Longrightarrow> codes piece_code qs = codes code ts \<and> codes piece_text qs = codes txt_of ts \<and>
     concat (map piece_args qs) = concat (map args ts)"
  by (induction ts arbitrary: qs rule: pieces.induct) auto

lemma pieces_ok:
  "pieces ts = Some qs \<Longrightarrow> \<forall>t \<in> set ts. token_ok m UNIV t \<Longrightarrow> \<forall>q \<in> set qs. piece_ok m q"
  by (induction ts arbitrary: qs rule: pieces.induct) auto

subsection \<open>Properties\<close>

text \<open>C16. \<open>vsprintf\<close> of a format of literals, \<^verbatim>\<open>%%\<close>, \<^verbatim>\<open>%d\<close>, \<^verbatim>\<open>%c\<close> and \<^verbatim>\<open>%s\<close> in any order (no \<^verbatim>\<open>%d\<close> of
  \<^verbatim>\<open>INT_MIN\<close>), into a buffer that does not overlap the format and its strings: if the text the format describes is empty the
  function fails its own assertion, \<^verbatim>\<open>assert(ret_num = strlen(out))\<close>, which assigns where it should compare;
  otherwise it writes exactly the text and a terminator, returns the length of the text and writes nothing else.\<close>

theorem vsprintf_correct:
  assumes "format_at m fmt ts src" "output_at out (codes txt_of ts) (int (length (codes txt_of ts)) + 1) src"
  shows "if codes txt_of ts = [] then vsprintf m out fmt (concat (map args ts)) = cfail Assert_Fail
    else \<exists>m'. vsprintf m out fmt (concat (map args ts)) = cret (m', int (length (codes txt_of ts))) \<and>
      cstr m' out (codes txt_of ts) \<and> (\<forall>x. x \<notin> bytes (out, int (length (codes txt_of ts)) + 1) \<longrightarrow> m' x = m x)"
proof (cases "codes txt_of ts = []")
  case True
  then show ?thesis using vsprintf_eq [OF assms] by simp
next
  let ?t = "codes txt_of ts"
  case False
  have "cstr ((put_bytes ?t m out)(out + int (length ?t) := 0)) out ?t"
    using assms(2) by (intro cstr_put_bytes) (simp add: output_at_def)
  then show ?thesis
    using vsprintf_eq [OF assms] False unfolding if_not_P [OF False]
    by (intro exI [of _ "(put_bytes ?t m out)(out + int (length ?t) := 0)"]) (auto simp: put_bytes_eq)
qed

definition demo_fmt :: mem where
  "demo_fmt = (\<lambda>_. 0)(100 := 91, 101 := 37, 102 := 100, 103 := 37, 104 := 115, 105 := 93, 200 := 107)"

lemma demo_format:
  "format_at demo_fmt 100 [Lit 91, Dec (- 42), Str 200 [107], Lit 93] {100..<202}"
  "codes txt_of [Lit 91, Dec (- 42), Str 200 [107], Lit 93] = [91, 45, 52, 50, 107, 93]"
  by (simp_all add: format_at_def demo_fmt_def no_base_def dec_text_def num_digits.simps digit_byte_def subset_iff)

theorem vsprintf_correct_witness:
  "\<exists>m'. vsprintf demo_fmt 300 100 [- 42, 200] = cret (m', 6) \<and> cstr m' 300 [91, 45, 52, 50, 107, 93]"
  using vsprintf_correct [OF demo_format(1), of 300] demo_format(2) by (auto simp: output_at_def disjoint_iff)

text \<open>C17. \<open>vsnprintf\<close> of the same formats into a buffer of \<open>n\<close> bytes: an empty text fails the function's assertion, as in
  \<open>vsprintf\<close>; any other text that is shorter than the buffer is written as by
  \<open>vsprintf\<close>; a text longer than \<open>n\<close> is cut to its first \<open>n\<close> bytes, and no terminator is written; in every case
  only the buffer changes, except that a text of exactly \<open>n\<close> bytes gets its terminator in the byte after it.\<close>

theorem vsnprintf_correct:
  assumes "format_at m fmt ts src" "0 \<le> n" "n < 18446744073709551616"
    and "output_at out (codes txt_of ts) (min n (int (length (codes txt_of ts)) + 1)) src"
  shows "if codes txt_of ts = [] then vsnprintf m out n fmt (concat (map args ts)) = cfail Assert_Fail
    else \<exists>m'. vsnprintf m out n fmt (concat (map args ts)) = cret (m', min n (int (length (codes txt_of ts)))) \<and>
      (if n < int (length (codes txt_of ts))
       then block m' out (nat n) = take (nat n) (codes txt_of ts) \<and> m' (out + n) = m (out + n)
       else cstr m' out (codes txt_of ts)) \<and>
      (\<forall>x. x \<notin> bytes (out, n) \<longrightarrow>
         m' x = (if x = out + n \<and> n = int (length (codes txt_of ts)) then 0 else m x))"
proof (cases "n < int (length (codes txt_of ts))")
  let ?t = "codes txt_of ts"
  case True
  have "block (put_bytes (take (nat n) ?t) m out) out (length (take (nat n) ?t)) = take (nat n) ?t"
    by (rule block_put_bytes)
  moreover have "length (take (nat n) ?t) = nat n" using True assms(2) by simp
  moreover have ne: "?t \<noteq> []" using True assms(2) by auto
  ultimately show ?thesis
    using True vsnprintf_eq(1) [OF assms True] assms(2) unfolding if_not_P [OF ne]
    by (intro exI [of _ "put_bytes (take (nat n) ?t) m out"]) (auto simp: put_bytes_eq)
next
  let ?t = "codes txt_of ts" and ?m = "(put_bytes (codes txt_of ts) m out)(out + int (length (codes txt_of ts)) := 0)"
  case False
  have "cstr ?m out ?t" using assms(4) by (intro cstr_put_bytes) (simp add: output_at_def)
  then show ?thesis
    using False vsnprintf_eq(2) [OF assms] by (auto simp: put_bytes_eq intro!: exI [of _ ?m])
qed

theorem vsnprintf_correct_witness:
  "\<exists>m'. vsnprintf demo_fmt 300 3 100 [- 42, 200] = cret (m', 3) \<and> block m' 300 3 = [91, 45, 52]"
  using vsnprintf_correct [OF demo_format(1), of 3 300] demo_format(2) by (auto simp: output_at_def disjoint_iff)

text \<open>C18. A number printed by \<open>sprintf\<close> with \<^verbatim>\<open>%d\<close> and read back by \<open>atoi\<close> is the number it was, for every
  \<^verbatim>\<open>int\<close> that is not negative.\<close>

theorem atoi_sprintf:
  assumes "cstr m fmt [37, 100]" "fmt \<noteq> 0" "out \<noteq> 0" "0 \<le> i" "i < 2147483648"
    and "bytes (out, 11) \<inter> bytes (fmt, 3) = {}"
  shows "\<exists>m' len. sprintf m out fmt [i] = cret (m', len) \<and> atoi m' out = Some i"
proof -
  let ?ds = "num_digits 10 i"
  let ?t = "map digit_byte ?ds"
  let ?m = "(put_bytes ?t m out)(out + int (length ?t) := 0)"
  have r: "\<forall>d \<in> set ?ds. 0 \<le> d \<and> d \<le> 9" using num_digits_range [of 10 i] assms(4) by force
  then have nz: "0 \<notin> set ?t" using digit_byte_nonzero by force
  have l: "length ?ds \<le> 10" using assms(4,5) by (rule num_digits_int_length)
  have "codes txt_of [Dec i] = ?t" using assms(4) by (simp add: dec_text_def)
  moreover have "bytes (out, int (length ?t) + 1) \<subseteq> bytes (out, 11)" using l by (auto simp: subset_iff)
  then have "output_at out ?t (int (length ?t) + 1) (bytes (fmt, 3))"
    using assms(3,6) l nz unfolding output_at_def by auto
  moreover have "format_at m fmt [Dec i] (bytes (fmt, 3))"
    using assms by (simp add: format_at_def no_base_def)
  ultimately have v: "sprintf m out fmt [i] = cret (?m, int (length ?t))"
    using vsprintf_eq [of m fmt "[Dec i]" "bytes (fmt, 3)" out] num_digits_nonempty [of 10 i] by (simp add: sprintf_def)
  have c: "cstr ?m out ?t" using nz by (rule cstr_put_bytes)
  then have "?m out \<noteq> 32" using r num_digits_nonempty [of 10 i] sint_digit_byte
    by (cases ?ds) force+
  then have "atoi ?m out = Some (dec_value 0 ?ds)"
    using c r assms(5) num_digits_value [OF assms(4)] by (intro atoi_eq [where n = 0]) (auto simp: cstr_block block_def)
  with v num_digits_value [OF assms(4)] show ?thesis by auto
qed

theorem atoi_sprintf_witness:
  "\<exists>m' len. sprintf ((\<lambda>_. 0)(100 := 37, 101 := 100)) 300 100 [2147483647] = cret (m', len) \<and>
     atoi m' 300 = Some 2147483647"
  using atoi_sprintf [of "(\<lambda>_. 0)(100 := 37, 101 := 100)" 100 300 2147483647] by (simp add: disjoint_iff)

lemma printf_text:
  assumes "fmt \<noteq> 0" "cstr m fmt (codes code ts)" "\<forall>t \<in> set ts. token_ok m UNIV t" "pieces ts = Some qs"
  shows "printf m fmt (concat (map args ts)) = cret (codes txt_of ts, s32 (sum_list (map piece_width qs)))"
proof -
  note f = pieces_facts [OF assms(4)]
  have b: "block m fmt (length (codes code ts)) = codes code ts" "m (fmt + int (length (codes code ts))) = 0"
    using assms(2) by (auto simp: cstr_block)
  have "printf_loop m ([], 0) fmt (concat (map args ts) @ []) =
      printf_loop m (codes txt_of ts, s32 (sum_list (map piece_width qs))) (fmt + int (length (codes code ts))) []"
    using printf_loop_pieces [of qs m fmt "[]"] pieces_ok [OF assms(4,3)] f b(1) by simp
  also have "\<dots> = cret (codes txt_of ts, s32 (sum_list (map piece_width qs)))"
    using b(2) by (subst printf_loop.simps) simp
  finally show ?thesis using assms(1) by (simp add: printf_def)
qed

text \<open>C19. \<open>printf\<close> of a format in which every conversion is followed by a literal character prints the text the
  format describes.\<close>

theorem printf_correct:
  assumes "fmt \<noteq> 0" "cstr m fmt (codes code ts)" "\<forall>t \<in> set ts. token_ok m UNIV t" "pieces ts = Some qs"
  shows "printf m fmt (concat (map args ts)) = cret (codes txt_of ts, s32 (sum_list (map piece_width qs)))"
  by (rule printf_text [OF assms])

theorem printf_correct_witness:
  "printf ((\<lambda>_. 0)(100 := 37, 101 := 120, 102 := 10)) 100 [1048592] =
     cret ([49, 48, 48, 48, 49, 48, 10], 7)"
  using printf_correct [of 100 "(\<lambda>_. 0)(100 := 37, 101 := 120, 102 := 10)" "[Hex 1048592, Lit 10]" "[Conv (Hex 1048592) 10]"]
  by (simp add: num_digits.simps hex_digit_def digit_byte_def s32_id)



end
