(* ===== verification/Klib_Int64.thy ===== *)
theory Klib_Int64
  imports C_Prelude
begin

unbundle bit_operations_syntax

text \<open>
  \<open>abstract-machine/klib/src/int64.c\<close>: 64-bit division and bit counting for targets without them.  A
  \<^verbatim>\<open>du_int\<close> is an integer below \<^term>\<open>2 ^ 64 :: int\<close>, a \<^verbatim>\<open>su_int\<close> one below \<^term>\<open>2 ^ 32 :: int\<close>; the two halves of
  the union \<^verbatim>\<open>udwords\<close> are \<open>hi\<close> and \<open>lo\<close>.  Shifts to the left are written with the truncation to the
  width of the operand.  The compiler's \<^verbatim>\<open>__builtin_clz\<close> and \<^verbatim>\<open>__builtin_ctz\<close> are the counts they
  are documented to be.
\<close>

subsection \<open>Words and halves\<close>

definition s64 :: "int \<Rightarrow> int" where
  "s64 x = (x + 9223372036854775808) mod 18446744073709551616 - 9223372036854775808"

definition hi :: "int \<Rightarrow> int" where
  "hi w = w div 4294967296"

definition lo :: "int \<Rightarrow> int" where
  "lo w = w mod 4294967296"

definition pack :: "int \<Rightarrow> int \<Rightarrow> int" where
  "pack h l = h * 4294967296 + l"

definition shl :: "int \<Rightarrow> int \<Rightarrow> int" where
  "shl x k = u32 (x * 2 ^ nat k)"

definition shr :: "int \<Rightarrow> int \<Rightarrow> int" where
  "shr x k = x div 2 ^ nat k"

fun bitlen :: "nat \<Rightarrow> nat" where
  "bitlen n = (if n = 0 then 0 else Suc (bitlen (n div 2)))"

declare bitlen.simps [simp del]

fun trailing :: "nat \<Rightarrow> nat" where
  "trailing n = (if n = 0 \<or> odd n then 0 else Suc (trailing (n div 2)))"

declare trailing.simps [simp del]

definition builtin_clz :: "int \<Rightarrow> int" where
  "builtin_clz x = 32 - int (bitlen (nat x))"

definition builtin_ctz :: "int \<Rightarrow> int" where
  "builtin_ctz x = int (trailing (nat x))"

subsection \<open>Unsigned division\<close>

text \<open>
  The case distinction at the start of \<open>__udivmoddi4\<close> either has the quotient and remainder or sets up the
  loop with \<^verbatim>\<open>q\<close>, \<^verbatim>\<open>r\<close> and \<^verbatim>\<open>sr\<close>.
\<close>

datatype udiv = Done int int | Loop int int int

definition udivmod_start :: "int \<Rightarrow> int \<Rightarrow> udiv cres" where
  "udivmod_start n d =
     (if hi n = 0 then
        if hi d = 0 then
          if lo d = 0 then cfail Div_Zero else cret (Done (lo n div lo d) (lo n mod lo d))
        else cret (Done 0 (lo n))
      else if lo d = 0 then
        if hi d = 0 then cfail Div_Zero
        else if lo n = 0 then cret (Done (hi n div hi d) (pack (hi n mod hi d) 0))
        else if hi d AND (hi d - 1) = 0 then
          cret (Done (shr (hi n) (builtin_ctz (hi d))) (pack (hi n AND (hi d - 1)) (lo n)))
        else
          let sr = u32 (builtin_clz (hi d) - builtin_clz (hi n)) in
          if sr > 30 then cret (Done 0 n)
          else let sr = sr + 1 in
            cret (Loop (pack (shl (lo n) (32 - sr)) 0)
                       (pack (shr (hi n) sr) (shl (hi n) (32 - sr) OR shr (lo n) sr)) sr)
      else if hi d = 0 then
        if lo d AND (lo d - 1) = 0 then
          if lo d = 1 then cret (Done n (lo n AND (lo d - 1)))
          else let sr = builtin_ctz (lo d) in
            cret (Done (pack (shr (hi n) sr) (shl (hi n) (32 - sr) OR shr (lo n) sr)) (lo n AND (lo d - 1)))
        else
          let sr = u32 (1 + 32 + builtin_clz (lo d) - builtin_clz (hi n)) in
          if sr = 32 then cret (Loop (pack (lo n) 0) (pack 0 (hi n)) sr)
          else if sr < 32 then
            cret (Loop (pack (shl (lo n) (32 - sr)) 0)
                       (pack (shr (hi n) sr) (shl (hi n) (32 - sr) OR shr (lo n) sr)) sr)
          else
            cret (Loop (pack (shl (hi n) (64 - sr) OR shr (lo n) (sr - 32)) (shl (lo n) (64 - sr)))
                       (pack 0 (shr (hi n) (sr - 32))) sr)
      else
        let sr = u32 (builtin_clz (hi d) - builtin_clz (hi n)) in
        if sr > 31 then cret (Done 0 n)
        else let sr = sr + 1 in
          if sr = 32 then cret (Loop (pack (lo n) 0) (pack 0 (hi n)) sr)
          else
            cret (Loop (pack (shl (lo n) (32 - sr)) 0)
                       (pack (shr (hi n) sr) (shl (hi n) (32 - sr) OR shr (lo n) sr)) sr))"

text \<open>One round of the loop shifts \<^verbatim>\<open>r:q\<close> left by one bit and subtracts \<^verbatim>\<open>d\<close> when it fits.\<close>

definition udivmod_step :: "int \<Rightarrow> int \<times> int \<times> int \<Rightarrow> int \<times> int \<times> int" where
  "udivmod_step d = (\<lambda>(q, r, carry).
     let rh = shl (hi r) 1 OR shr (lo r) 31;
         rl = shl (lo r) 1 OR shr (hi q) 31;
         qh = shl (hi q) 1 OR shr (lo q) 31;
         ql = shl (lo q) 1 OR carry;
         r = pack rh rl;
         s = s64 (d - r - 1) div 9223372036854775808;
         carry = s AND 1
     in (pack qh ql, u64 (r - (d AND s)), carry))"

fun udivmod_loop :: "nat \<Rightarrow> int \<Rightarrow> int \<times> int \<times> int \<Rightarrow> int \<times> int \<times> int" where
  "udivmod_loop 0 d st = st"
| "udivmod_loop (Suc sr) d st = udivmod_loop sr d (udivmod_step d st)"

text \<open>Quotient and remainder, the latter stored where \<^verbatim>\<open>rem\<close> is not \<^verbatim>\<open>NULL\<close>.\<close>

definition udivmoddi4 :: "int \<Rightarrow> int \<Rightarrow> (int \<times> int) cres" where
  "udivmoddi4 a b =
     cbind (udivmod_start a b) (\<lambda>u. case u of
       Done q r \<Rightarrow> cret (q, r)
     | Loop q r sr \<Rightarrow>
         let (q, r, carry) = udivmod_loop (nat sr) b (q, r, 0)
         in cret (u64 (q * 2) OR carry, r))"

definition udivdi3 :: "int \<Rightarrow> int \<Rightarrow> int cres" where
  "udivdi3 a b = cbind (udivmoddi4 a b) (\<lambda>(q, r). cret q)"

definition umoddi3 :: "int \<Rightarrow> int \<Rightarrow> int cres" where
  "umoddi3 a b = cbind (udivmoddi4 a b) (\<lambda>(q, r). cret r)"

subsection \<open>Signed division\<close>

definition sign_mask :: "int \<Rightarrow> int" where
  "sign_mask a = a div 9223372036854775808"

definition cond_neg :: "int \<Rightarrow> int \<Rightarrow> int" where
  "cond_neg a s = s64 ((a XOR s) - s)"

definition divdi3 :: "int \<Rightarrow> int \<Rightarrow> int cres" where
  "divdi3 a b =
     (let s_a = sign_mask a;
          s_b = sign_mask b;
          a = cond_neg a s_a;
          b = cond_neg b s_b;
          s_a = s_a XOR s_b
      in cbind (udivmoddi4 (u64 a) (u64 b)) (\<lambda>(q, r). cret (cond_neg q s_a)))"

definition divmoddi4 :: "int \<Rightarrow> int \<Rightarrow> (int \<times> int) cres" where
  "divmoddi4 a b = cbind (divdi3 a b) (\<lambda>d. cret (d, s64 (a - s64 (d * b))))"

definition moddi3 :: "int \<Rightarrow> int \<Rightarrow> int cres" where
  "moddi3 a b =
     (let s = sign_mask b;
          b = cond_neg b s;
          s = sign_mask a;
          a = cond_neg a s
      in cbind (udivmoddi4 (u64 a) (u64 b)) (\<lambda>(q, r). cret (cond_neg (s64 r) s)))"

subsection \<open>Counting zeros\<close>

text \<open>\<^verbatim>\<open>((x & m) == 0) << k\<close>: \<open>2 ^ k\<close> when no bit of the mask is set.\<close>

definition none_set :: "int \<Rightarrow> int \<Rightarrow> int \<Rightarrow> int" where
  "none_set x m t = (if x AND m = 0 then t else 0)"

definition clzsi2 :: "int \<Rightarrow> int" where
  "clzsi2 a =
     (let x = u32 a;
          t = none_set x 0xFFFF0000 16; x = shr x (16 - t); r = t;
          t = none_set x 0xFF00 8; x = shr x (8 - t); r = r + t;
          t = none_set x 0xF0 4; x = shr x (4 - t); r = r + t;
          t = none_set x 0xC 2; x = shr x (2 - t); r = r + t
      in r + ((2 - x) AND - none_set x 2 1))"

definition ctzsi2 :: "int \<Rightarrow> int" where
  "ctzsi2 a =
     (let x = u32 a;
          t = none_set x 0x0000FFFF 16; x = shr x t; r = t;
          t = none_set x 0x00FF 8; x = shr x t; r = r + t;
          t = none_set x 0x0F 4; x = shr x t; r = r + t;
          t = none_set x 0x3 2; x = shr x t; x = x AND 3; r = r + t
      in r + ((2 - shr x 1) AND - none_set x 1 1))"

text \<open>The two halves of a \<^verbatim>\<open>di_int\<close> \<open>a\<close> are those of its bits.\<close>

definition ctzdi2 :: "int \<Rightarrow> int" where
  "ctzdi2 a =
     (let h = hi (u64 a); l = lo (u64 a); f = - (if l = 0 then 1 else 0)
      in ctzsi2 (h AND f OR l AND NOT f) + (f AND 32))"

definition clzdi2 :: "int \<Rightarrow> int" where
  "clzdi2 a =
     (let h = hi (u64 a); l = lo (u64 a); f = - (if h = 0 then 1 else 0)
      in clzsi2 (h AND NOT f OR l AND f) + (f AND 32))"

end
