(* ===== verification/Klib_Int64_Loop.thy ===== *)
theory Klib_Int64_Loop
  imports Klib_Int64
begin

unbundle bit_operations_syntax

text \<open>
  The loop of \<open>__udivmoddi4\<close> is restoring division: the halves are shifted as the 64-bit values they are
  parts of, the comparison without a branch is a comparison, and the loop invariant leads from the
  operands to their quotient and remainder.
\<close>

subsection \<open>Halves and bits\<close>

lemma halves: "w = hi w * 4294967296 + lo w" "0 \<le> lo w" "lo w < 4294967296"
  by (simp_all add: hi_def lo_def)

lemma hi_range: "0 \<le> w \<Longrightarrow> w < 18446744073709551616 \<Longrightarrow> 0 \<le> hi w \<and> hi w < 4294967296"
  using zdiv_mono1 [of w 18446744073709551615 4294967296] by (simp add: hi_def pos_imp_zdiv_nonneg_iff)

lemma u64_pack: "pack (u32 h) (u32 l) = u64 (h * 4294967296 + u32 l)"
proof -
  have "u64 (h * 4294967296 + u32 l) = u64 (u32 h * 4294967296 + u32 l)"
    unfolding u64_def u32_def by (simp add: mod_mult_left_eq mod_mult_mult2 mod_simps flip: mod_mult_mult2)
  then show ?thesis using u32_range [of h] u32_range [of l] by (simp add: pack_def u64_id)
qed

text \<open>Shifting a 64-bit value in its halves.\<close>

lemma double_bound: "b = 0 \<or> b = 1 \<Longrightarrow> 0 \<le> y \<Longrightarrow> y < 2147483648 \<Longrightarrow> 0 \<le> 2 * y + b \<and> 2 * y + b < 4294967296" for y b :: int
  by auto

lemma u32_double: "b = 0 \<or> b = 1 \<Longrightarrow> u32 (2 * x + b) = 2 * (x mod 2147483648) + b"
proof -
  assume b: "b = 0 \<or> b = 1"
  have "(2 * x) mod 4294967296 = 2 * (x mod 2147483648)" using mult_mod_right [of 2 x 2147483648] by simp
  moreover have "(2 * x + b) mod 4294967296 = ((2 * x) mod 4294967296 + b) mod 4294967296" by (simp add: mod_add_left_eq)
  moreover have "0 \<le> x mod 2147483648" "x mod 2147483648 < 2147483648" by simp_all
  ultimately show ?thesis using b unfolding u32_def by (metis (no_types, lifting) mod_pos_pos_trivial double_bound)
qed

lemma shl_or_bit: "b = 0 \<or> b = 1 \<Longrightarrow> shl x 1 OR b = u32 (2 * x + b)"
proof -
  assume b: "b = 0 \<or> b = 1"
  have "shl x 1 = 2 * (x mod 2147483648)" using u32_double [of 0 x] by (simp add: shl_def mult.commute)
  moreover from this b have "shl x 1 OR b = shl x 1 + b" by (intro or_low [of 1]) auto
  ultimately show ?thesis using u32_double [OF b] by simp
qed

lemma top_bit: "0 \<le> x \<Longrightarrow> x < 4294967296 \<Longrightarrow> shr x 31 = 0 \<or> shr x 31 = 1"
proof -
  assume "0 \<le> x" "x < 4294967296"
  then have "0 \<le> shr x 31" "shr x 31 \<le> 1"
    using zdiv_mono1 [of x 4294967295 2147483648] by (simp_all add: shr_def pos_imp_zdiv_nonneg_iff)
  then show ?thesis by linarith
qed

lemma double_halves:
  assumes "b = 0 \<or> b = 1"
  shows "pack (shl (hi w) 1 OR shr (lo w) 31) (shl (lo w) 1 OR b) = u64 (2 * w + b)"
proof -
  note h = halves [of w] and top = top_bit [OF halves(2,3), of w]
  have "lo w = shr (lo w) 31 * 2147483648 + lo w mod 2147483648" by (simp add: shr_def)
  then have carry: "2 * lo w + b = shr (lo w) 31 * 4294967296 + u32 (2 * lo w + b)"
    using u32_double [OF assms, of "lo w"] by linarith
  have "pack (u32 (2 * hi w + shr (lo w) 31)) (u32 (2 * lo w + b)) =
      u64 ((2 * hi w + shr (lo w) 31) * 4294967296 + u32 (2 * lo w + b))" by (rule u64_pack)
  also have "(2 * hi w + shr (lo w) 31) * 4294967296 + u32 (2 * lo w + b) = 2 * w + b"
    using h(1) carry by (simp add: algebra_simps)
  finally show ?thesis using shl_or_bit [OF top] shl_or_bit [OF assms] by simp
qed

lemma mask_select: "d AND 0 = 0" "d AND - 1 = d" for d :: int
  by simp_all

text \<open>The comparison without a branch.\<close>

lemma s64_id: "- 9223372036854775808 \<le> x \<Longrightarrow> x < 9223372036854775808 \<Longrightarrow> s64 x = x"
  by (simp add: s64_def)

lemma sign_of: "- 9223372036854775808 \<le> x \<Longrightarrow> x < 9223372036854775808 \<Longrightarrow>
   s64 x div 9223372036854775808 = (if x < 0 then - 1 else 0)"
  by (auto simp: s64_id div_pos_pos_trivial intro: div_eq_minus1)

subsection \<open>The division loop\<close>

lemma udivmod_step_eq:
  assumes q: "0 \<le> q" "q < 18446744073709551616" and r: "0 \<le> r" and c: "c = 0 \<or> c = 1"
    and r1: "r1 = 2 * r + q div 9223372036854775808" "r1 < 18446744073709551616"
    and near: "- 9223372036854775808 \<le> d - r1 - 1" "d - r1 - 1 < 9223372036854775808" "0 \<le> d"
  shows "udivmod_step d (q, r, c) = (u64 (2 * q + c), if d \<le> r1 then r1 - d else r1, if d \<le> r1 then 1 else 0)"
proof -
  have hq: "0 \<le> hi q" "hi q < 4294967296" using hi_range [OF q] by auto
  have tq: "shr (hi q) 31 = q div 9223372036854775808"
    using zdiv_zmult2_eq [of 2147483648 q 4294967296] by (simp add: shr_def hi_def)
  then have "pack (shl (hi r) 1 OR shr (lo r) 31) (shl (lo r) 1 OR shr (hi q) 31) = u64 r1"
    using double_halves [OF top_bit [OF hq], of r] r1(1) by simp
  moreover have "0 \<le> q div 9223372036854775808" using q(1) by (simp add: pos_imp_zdiv_nonneg_iff)
  then have "u64 r1 = r1" using r r1 by (intro u64_id) auto
  moreover have "s64 (d - r1 - 1) div 9223372036854775808 = (if d \<le> r1 then - 1 else 0)"
    using sign_of [OF near(1,2)] by simp
  moreover have "u64 (r1 - d) = r1 - d" if "d \<le> r1" using that near(3) r1(2) by (intro u64_id) auto
  ultimately show ?thesis
    using double_halves [OF c, of q] by (simp add: udivmod_step_def Let_def mask_select)
qed

text \<open>The loop invariant for dividing \<open>N\<close> by \<open>d\<close> with \<open>s\<close> rounds to go.\<close>

definition div_inv :: "int \<Rightarrow> int \<Rightarrow> nat \<Rightarrow> int \<times> int \<times> int \<Rightarrow> bool" where
  "div_inv N d s = (\<lambda>(q, r, c). (c = 0 \<or> c = 1) \<and> s \<le> 64 \<and> r = N div 2 ^ s mod d \<and>
     (\<exists>A. q = N mod 2 ^ s * 2 ^ (64 - s) + A \<and> 0 \<le> A \<and> A < 2 ^ (64 - s) \<and> 2 * A + c = N div 2 ^ s div d))"

lemma bit_split: "N div 2 ^ s = 2 * (N div 2 ^ Suc s) + N div 2 ^ s mod 2" for N :: int
proof -
  have "N div 2 ^ Suc s = N div 2 ^ s div 2" by (simp add: zdiv_zmult2_eq [symmetric] mult.commute)
  then show ?thesis by simp
qed

lemma mod_split: "N mod 2 ^ Suc s = (N div 2 ^ s mod 2) * 2 ^ s + N mod 2 ^ s" for N :: int
  using zmod_zmult2_eq [of "2" N "2 ^ s"] by (simp add: mult.commute)

lemma div_step:
  assumes inv: "div_inv N d (Suc s) st" and d: "0 < d" "d < 18446744073709551616"
    and N: "0 \<le> N" "N < 18446744073709551616"
    and near: "d < 9223372036854775808 \<or> (s = 0 \<and> 9223372036854775808 \<le> N \<and> N div 2 < d)"
  shows "div_inv N d s (udivmod_step d st)"
proof -
  obtain q r c where st: "st = (q, r, c)" by (cases st)
  obtain A where c: "c = 0 \<or> c = 1" "Suc s \<le> 64" and r: "r = N div 2 ^ Suc s mod d"
    and A: "q = N mod 2 ^ Suc s * 2 ^ (64 - Suc s) + A" "0 \<le> A" "A < 2 ^ (64 - Suc s)"
      "2 * A + c = N div 2 ^ Suc s div d"
    using inv unfolding st div_inv_def by auto
  let ?t = "N div 2 ^ s mod 2" and ?Q = "N div 2 ^ Suc s div d"
  define e where "e = 64 - Suc s"
  have e: "64 - s = Suc e" "64 = Suc s + e" using c(2) by (auto simp: e_def)
  have pw: "(2 :: int) ^ s * 2 ^ e = 9223372036854775808"
  proof -
    have "(2 :: int) ^ s * 2 ^ e = 2 ^ (s + e)" by (simp add: power_add)
    also have "s + e = 63" using e by simp
    finally show ?thesis by simp
  qed
  have t: "?t = 0 \<or> ?t = 1" by auto
  have m: "0 \<le> N mod 2 ^ s" "N mod 2 ^ s < 2 ^ s" by simp_all
  have qe: "q = ?t * 9223372036854775808 + (N mod 2 ^ s * 2 ^ e + A)"
    using A(1) pw unfolding mod_split e_def [symmetric] by (simp add: algebra_simps)
  have low: "0 \<le> N mod 2 ^ s * 2 ^ e + A" "N mod 2 ^ s * 2 ^ e + A < 9223372036854775808"
  proof -
    show "0 \<le> N mod 2 ^ s * 2 ^ e + A" using m(1) A(2) by simp
    have "N mod 2 ^ s + 1 \<le> 2 ^ s" using m(2) by linarith
    then have "(N mod 2 ^ s + 1) * 2 ^ e \<le> 2 ^ s * 2 ^ e" by (rule mult_right_mono) simp
    then show "N mod 2 ^ s * 2 ^ e + A < 9223372036854775808"
      using A(3) pw unfolding e_def [symmetric] by (simp add: algebra_simps)
  qed
  then have top: "q div 9223372036854775808 = ?t" and qr: "0 \<le> q" "q < 18446744073709551616"
    using qe t by (auto simp: div_pos_pos_trivial)
  let ?r = "2 * r + ?t"
  have Nd: "N div 2 ^ s = d * (2 * ?Q) + ?r"
  proof -
    have "N div 2 ^ Suc s = d * ?Q + r" unfolding r by simp
    then show ?thesis using bit_split [of N s] by (simp add: algebra_simps)
  qed
  have Q0: "0 \<le> ?Q" using N(1) d(1) by (simp add: pos_imp_zdiv_nonneg_iff)
  have rb: "0 \<le> r" "r < d" unfolding r using d(1) by simp_all
  have "N div 2 ^ s \<le> N" using zdiv_mono2 [of N 1 "2 ^ s"] N(1) by simp
  then have r1: "?r < 18446744073709551616" using Nd Q0 d(1) N(2) mult_nonneg_nonneg [of d "2 * ?Q"] by linarith
  have r2: "?r < 2 * d" using rb t by auto
  have nr: "- 9223372036854775808 \<le> d - ?r - 1 \<and> d - ?r - 1 < 9223372036854775808"
  proof (cases "d < 9223372036854775808")
    case False
    then have n: "s = 0" "9223372036854775808 \<le> N" "N div 2 < d" using near by auto
    then have "?Q = 0" using N(1) by (simp add: div_pos_pos_trivial)
    then have "?r = N" using Nd n(1) by simp
    then show ?thesis using n(2) N(2) d(2) False by linarith
  qed (use rb t r2 in auto)
  have step: "udivmod_step d st = (u64 (2 * q + c), if d \<le> ?r then ?r - d else ?r, if d \<le> ?r then 1 else 0)"
    unfolding st using nr d(1) by (intro udivmod_step_eq qr rb c(1) r1) (simp_all add: top)
  let ?c = "if d \<le> ?r then 1 else 0 :: int"
  have dm: "N div 2 ^ s div d = 2 * ?Q + ?c" "N div 2 ^ s mod d = ?r - d * ?c"
  proof -
    have "N div 2 ^ s = d * (2 * ?Q + ?c) + (?r - d * ?c)" using Nd by (simp add: algebra_simps)
    moreover have "0 \<le> ?r - d * ?c" "?r - d * ?c < d" using rb t r2 by auto
    ultimately show "N div 2 ^ s div d = 2 * ?Q + ?c" "N div 2 ^ s mod d = ?r - d * ?c"
      by (metis int_div_pos_eq, metis int_mod_pos_eq)
  qed
  have "2 * q + c = ?t * 18446744073709551616 + (N mod 2 ^ s * 2 ^ Suc e + (2 * A + c))"
    using qe by (simp add: algebra_simps)
  then have "u64 (2 * q + c) = u64 (N mod 2 ^ s * 2 ^ Suc e + (2 * A + c))"
    unfolding u64_def by (simp only: mod_mult_self3)
  also have "\<dots> = N mod 2 ^ s * 2 ^ Suc e + (2 * A + c)"
    using low c(1) A(2) m(1) by (intro u64_id) auto
  finally have qn: "u64 (2 * q + c) = N mod 2 ^ s * 2 ^ (64 - s) + (2 * A + c)" using e(1) by simp
  have "2 * A + c < 2 ^ (64 - s)" using A(3) c(1) e(1) unfolding e_def [symmetric] by auto
  then show ?thesis
    unfolding step div_inv_def using qn dm A(2,4) c by (auto intro!: exI [of _ "2 * A + c"])
qed

lemma div_loop:
  assumes "div_inv N d s st" "0 < d" "d < 18446744073709551616" "0 \<le> N" "N < 18446744073709551616"
    and "d < 9223372036854775808 \<or> (s \<le> 1 \<and> 9223372036854775808 \<le> N \<and> N div 2 < d)"
  shows "div_inv N d 0 (udivmod_loop s d st)"
  using assms
proof (induction s arbitrary: st)
  case (Suc s)
  have "div_inv N d s (udivmod_step d st)" using Suc.prems by (intro div_step) auto
  then have "div_inv N d 0 (udivmod_loop s d (udivmod_step d st))" by (rule Suc.IH) (use Suc.prems in auto)
  then show ?case by simp
qed simp

lemma div_init:
  assumes "s \<le> 64" "0 \<le> N" "0 < d" "N div 2 ^ s < d"
  shows "div_inv N d s (N mod 2 ^ s * 2 ^ (64 - s), N div 2 ^ s, 0)"
  using assms by (simp add: div_inv_def div_pos_pos_trivial mod_pos_pos_trivial pos_imp_zdiv_nonneg_iff)

lemma div_done:
  assumes "div_inv N d 0 (q, r, c)" "0 \<le> N" "N < 18446744073709551616" "0 < d"
  shows "u64 (q * 2) OR c = N div d \<and> r = N mod d"
proof -
  have q: "2 * q + c = N div d" "0 \<le> q" "c = 0 \<or> c = 1" "r = N mod d" using assms(1) by (auto simp: div_inv_def)
  have "N div d \<le> N" using zdiv_mono2 [of N 1 d] assms by simp
  then have "u64 (q * 2) = q * 2" using q assms(3) by (intro u64_id) auto
  moreover have "q * 2 OR c = q * 2 + c" using q by (intro or_low [of 1]) auto
  ultimately show ?thesis using q by simp
qed

end
