(* ===== verification/Klib_Int64_Div.thy ===== *)
theory Klib_Int64_Div
  imports Klib_Int64_Loop
begin

unbundle bit_operations_syntax

text \<open>
  \<open>__udivmoddi4\<close> divides: its special cases return the quotient and the remainder, and the others start the
  loop in a state that satisfies its invariant.
\<close>

subsection \<open>Leading and trailing zeros\<close>

lemma bitlen_bounds: "0 < n \<Longrightarrow> 2 ^ (bitlen n - 1) \<le> n \<and> n < 2 ^ bitlen n \<and> 0 < bitlen n"
proof (induction n rule: bitlen.induct)
  case (1 n)
  show ?case
  proof (cases "n = 1")
    case False
    then have "0 < n div 2" using 1(2) by auto
    then have b: "2 ^ (bitlen (n div 2) - 1) \<le> n div 2" "n div 2 < 2 ^ bitlen (n div 2)" "0 < bitlen (n div 2)"
      using 1 by auto
    have e: "bitlen n = Suc (bitlen (n div 2))" using 1(2) by (simp add: bitlen.simps [of n])
    have "2 ^ bitlen (n div 2) = (2 :: nat) * 2 ^ (bitlen (n div 2) - 1)" using b(3) by (cases "bitlen (n div 2)") auto
    then have "2 ^ (bitlen n - 1) = (2 :: nat) * 2 ^ (bitlen (n div 2) - 1)" "2 ^ bitlen n = (2 :: nat) * 2 ^ bitlen (n div 2)"
      using e by auto
    moreover have "n < 2 * (n div 2) + 2" "2 * (n div 2) \<le> n" by auto
    ultimately show ?thesis using b e by linarith
  qed (simp add: bitlen.simps)
qed

lemma clz_bounds:
  assumes "0 < x" "x < 4294967296"
  shows "\<exists>k. builtin_clz x = 31 - int k \<and> k < 32 \<and> 2 ^ k \<le> x \<and> x < 2 ^ Suc k"
proof -
  let ?k = "bitlen (nat x) - 1"
  have b: "2 ^ ?k \<le> nat x" "nat x < 2 ^ bitlen (nat x)" "0 < bitlen (nat x)" using bitlen_bounds [of "nat x"] assms by auto
  have lower: "2 ^ ?k \<le> x" using b(1) assms(1) by (simp add: le_nat_iff)
  have upper: "x < 2 ^ Suc ?k" using b(2,3) assms(1) by (simp add: nat_less_iff)
  have "?k < 32"
  proof (rule ccontr)
    assume "\<not> ?k < 32"
    then have "(2 :: int) ^ 32 \<le> 2 ^ ?k" by (intro power_increasing) auto
    then show False using lower assms(2) by simp
  qed
  then show ?thesis using lower upper b(3) by (intro exI [of _ ?k]) (auto simp: builtin_clz_def)
qed

lemma pow2_trailing: "0 < n \<Longrightarrow> int n AND (int n - 1) = 0 \<Longrightarrow> n = 2 ^ trailing n"
proof (induction n rule: trailing.induct)
  case (1 n)
  show ?case
  proof (cases "odd n")
    case True
    then obtain m where m: "n = 2 * m + 1" by (elim oddE)
    then have "int n AND (int n - 1) = 2 * int m" using and_int_rec [of "int n" "int n - 1"] by simp
    then show ?thesis using 1(3) m by (simp add: trailing.simps)
  next
    case False
    then obtain m where m: "n = 2 * m" by auto
    then have "int n = 2 * int m" by simp
    moreover have "(2 * int m - 1) div 2 = int m - 1" by presburger
    ultimately have "int n AND (int n - 1) = 2 * (int m AND (int m - 1))"
      using and_int_rec [of "2 * int m" "2 * int m - 1"] by simp
    then have "m = 2 ^ trailing m" using 1 m by auto
    moreover have "trailing n = Suc (trailing m)" unfolding trailing.simps [of n] using m 1(2) by simp
    ultimately show ?thesis using m by simp
  qed
qed

lemma pow2_ctz:
  assumes "0 < x" "x < 4294967296" "x AND (x - 1) = 0"
  shows "\<exists>k. builtin_ctz x = int k \<and> x = 2 ^ k \<and> k < 32"
proof -
  have "nat x = 2 ^ trailing (nat x)" using assms(1,3) by (intro pow2_trailing) auto
  then have x: "x = 2 ^ trailing (nat x)" using assms(1) by (metis int_nat_eq less_imp_le of_nat_numeral of_nat_power)
  have "trailing (nat x) < 32"
  proof (rule ccontr)
    assume "\<not> trailing (nat x) < 32"
    then have "(2 :: int) ^ 32 \<le> 2 ^ trailing (nat x)" by (intro power_increasing) auto
    then show False using x assms(2) by simp
  qed
  then show ?thesis using x by (auto simp: builtin_ctz_def)
qed

lemma and_pow2: "y AND (2 ^ k - 1) = y mod 2 ^ k" for y :: int
  by (simp add: take_bit_eq_mask [symmetric] take_bit_eq_mod flip: mask_eq_exp_minus_1)

subsection \<open>Shifts across the halves\<close>

lemma shl_id: "k \<le> 32 \<Longrightarrow> shl x (int k) = x mod 2 ^ (32 - k) * 2 ^ k"
proof -
  assume "k \<le> 32"
  then have "(2 :: int) ^ (32 - k) * 2 ^ k = 4294967296" by (simp flip: power_add)
  then show ?thesis using mult_mod_right [of "2 ^ k" x "2 ^ (32 - k)"] by (simp add: shl_def u32_def mult.commute)
qed

lemma regroup_right: "a * (p * q) + (b * q + c) = (a * p + b) * q + c" for a :: int
  by (simp add: algebra_simps)

lemma regroup_left: "(a * p + b) * (m * p) + c * p = (a * (m * p) + (b * m + c)) * p" for a :: int
  by (simp add: algebra_simps)

lemma shift_right:
  assumes "k \<le> 32"
  shows "pack (shr (hi n) (int k)) (shl (hi n) (32 - int k) OR shr (lo n) (int k)) = n div 2 ^ k"
proof -
  have k: "32 - int k = int (32 - k)" and p: "(2 :: int) ^ k * 2 ^ (32 - k) = 4294967296"
    using assms by (auto simp flip: power_add)
  have "shl (hi n) (int (32 - k)) = hi n mod 2 ^ k * 2 ^ (32 - k)" using shl_id [of "32 - k" "hi n"] assms by simp
  moreover have l: "0 \<le> lo n div 2 ^ k" "lo n div 2 ^ k < 2 ^ (32 - k)"
    using halves(2,3) [of n] p by (auto simp: pos_imp_zdiv_nonneg_iff intro!: div_below)
  ultimately have "pack (shr (hi n) (int k)) (shl (hi n) (32 - int k) OR shr (lo n) (int k)) =
     hi n div 2 ^ k * (2 ^ k * 2 ^ (32 - k)) + (hi n mod 2 ^ k * 2 ^ (32 - k) + lo n div 2 ^ k)"
    unfolding k p using or_low [of "32 - k" "hi n mod 2 ^ k * 2 ^ (32 - k)" "lo n div 2 ^ k"]
    by (simp add: pack_def shr_def)
  also have "\<dots> = (hi n div 2 ^ k * 2 ^ k + hi n mod 2 ^ k) * 2 ^ (32 - k) + lo n div 2 ^ k"
    by (rule regroup_right)
  also have "\<dots> = (lo n + hi n * 2 ^ (32 - k) * 2 ^ k) div 2 ^ k" by (simp add: div_mult_self1 div_mult_mod_eq)
  also have "lo n + hi n * 2 ^ (32 - k) * 2 ^ k = n"
    using halves(1) [of n] p by (simp only: mult.assoc mult.commute [of "2 ^ (32 - k)"] add.commute)
  finally show ?thesis .
qed

lemma shift_left:
  assumes "k \<le> 32"
  shows "pack (shl (hi n) (int k) OR shr (lo n) (32 - int k)) (shl (lo n) (int k)) = n mod 2 ^ (64 - k) * 2 ^ k"
proof -
  have k: "32 - int k = int (32 - k)" and p: "(2 :: int) ^ (32 - k) * 2 ^ k = 4294967296"
    and p64: "(2 :: int) ^ (64 - k) = 2 ^ (32 - k) * 4294967296"
    using assms power_add [of "2 :: int" "32 - k" 32] by (auto simp flip: power_add)
  have l: "0 \<le> lo n div 2 ^ (32 - k)" "lo n div 2 ^ (32 - k) < 2 ^ k"
    using halves(2,3) [of n] p by (auto simp: pos_imp_zdiv_nonneg_iff intro!: div_below)
  have "shl (hi n) (int k) OR shr (lo n) (32 - int k) = hi n mod 2 ^ (32 - k) * 2 ^ k + lo n div 2 ^ (32 - k)"
    unfolding k shl_id [OF assms] using or_low [OF _ l] by (simp add: shr_def)
  then have "pack (shl (hi n) (int k) OR shr (lo n) (32 - int k)) (shl (lo n) (int k)) =
     (hi n mod 2 ^ (32 - k) * 2 ^ k + lo n div 2 ^ (32 - k)) * (2 ^ (32 - k) * 2 ^ k) + lo n mod 2 ^ (32 - k) * 2 ^ k"
    using shl_id [OF assms, of "lo n"] p by (simp add: pack_def)
  also have "\<dots> = (hi n mod 2 ^ (32 - k) * (2 ^ (32 - k) * 2 ^ k) +
      (lo n div 2 ^ (32 - k) * 2 ^ (32 - k) + lo n mod 2 ^ (32 - k))) * 2 ^ k" by (rule regroup_left)
  also have "hi n mod 2 ^ (32 - k) * (2 ^ (32 - k) * 2 ^ k) +
      (lo n div 2 ^ (32 - k) * 2 ^ (32 - k) + lo n mod 2 ^ (32 - k)) = n mod 2 ^ (64 - k)"
    using zmod_zmult2_eq [of "2 ^ (32 - k)" n 4294967296] p p64 by (simp add: hi_def lo_def mult.commute)
  finally show ?thesis .
qed

subsection \<open>The special cases\<close>

lemma start_low:
  assumes "k \<le> 32"
  shows "pack (shl (lo n) (32 - int k)) 0 = n mod 2 ^ k * 2 ^ (64 - k)"
proof -
  have k: "32 - int k = int (32 - k)" "64 - k = (32 - k) + 32" "32 - (32 - k) = k" using assms by auto
  have "(2 :: int) ^ k dvd 2 ^ 32" by (intro le_imp_power_dvd assms)
  then have "lo n mod 2 ^ k = n mod 2 ^ k" by (simp add: lo_def mod_mod_cancel)
  moreover have "(2 :: int) ^ (64 - k) = 2 ^ (32 - k) * 4294967296" unfolding k(2) power_add by simp
  ultimately show ?thesis unfolding k(1) using shl_id [of "32 - k" "lo n"] k(3) by (simp add: pack_def)
qed

lemma start_32:
  assumes "0 \<le> n" "n < 18446744073709551616"
  shows "pack (lo n) 0 = n mod 2 ^ 32 * 2 ^ (64 - 32)" "pack 0 (hi n) = n div 2 ^ 32"
  by (simp_all add: pack_def lo_def hi_def)

lemma start_high:
  assumes "32 < k" "k \<le> 64"
  shows "pack (shl (hi n) (64 - int k) OR shr (lo n) (int k - 32)) (shl (lo n) (64 - int k)) = n mod 2 ^ k * 2 ^ (64 - k)"
    "pack 0 (shr (hi n) (int k - 32)) = n div 2 ^ k"
proof -
  have k: "64 - int k = int (64 - k)" "int k - 32 = 32 - int (64 - k)" "64 - (64 - k) = k" "nat (int k - 32) = k - 32"
    "(2 :: int) ^ k = 4294967296 * 2 ^ (k - 32)"
    using assms power_add [of "2 :: int" 32 "k - 32"] by auto
  show "pack (shl (hi n) (64 - int k) OR shr (lo n) (int k - 32)) (shl (lo n) (64 - int k)) = n mod 2 ^ k * 2 ^ (64 - k)"
    using shift_left [of "64 - k" n] assms unfolding k(1,2) k(3) by simp
  show "pack 0 (shr (hi n) (int k - 32)) = n div 2 ^ k"
    unfolding k(5) by (simp add: pack_def shr_def hi_def k(4) zdiv_zmult2_eq)
qed

lemma hi_below: "hi n < 2 ^ k \<Longrightarrow> n < 2 ^ k * 4294967296"
  using halves(1,3) [of n] by linarith

lemma quot_below: "n < 2 ^ j \<Longrightarrow> 2 ^ i \<le> d \<Longrightarrow> j \<le> i + k \<Longrightarrow> n div 2 ^ k < d" for n :: int
proof -
  assume a: "n < 2 ^ j" "2 ^ i \<le> d" "j \<le> i + k"
  have "(2 :: int) ^ j \<le> 2 ^ (i + k)" using a(3) by (intro power_increasing) auto
  then have "n < 2 ^ k * 2 ^ i" using a(1) by (simp add: power_add mult.commute)
  then have "n div 2 ^ k < 2 ^ i" by (intro div_below) auto
  then show ?thesis using a(2) by simp
qed

definition start_ok :: "int \<Rightarrow> int \<Rightarrow> udiv \<Rightarrow> bool" where
  "start_ok n d u = (case u of Done q r \<Rightarrow> q = n div d \<and> r = n mod d
     | Loop q r s \<Rightarrow> (\<exists>k. s = int k \<and> k \<le> 64 \<and> q = n mod 2 ^ k * 2 ^ (64 - k) \<and> r = n div 2 ^ k \<and> n div 2 ^ k < d \<and>
         (d < 9223372036854775808 \<or> (k = 1 \<and> 9223372036854775808 \<le> n))))"

lemma start_okI:
  assumes "q = n mod 2 ^ k * 2 ^ (64 - k)" "r = n div 2 ^ k" "n div 2 ^ k < d" "k \<le> 64"
    "d < 9223372036854775808 \<or> (k = 1 \<and> 9223372036854775808 \<le> n)"
  shows "start_ok n d (Loop q r (int k))"
  using assms by (auto simp: start_ok_def)

lemma start_right:
  assumes "k \<le> 32" "n div 2 ^ k < d" "d < 9223372036854775808 \<or> (k = 1 \<and> 9223372036854775808 \<le> n)"
  shows "start_ok n d (Loop (pack (shl (lo n) (32 - int k)) 0)
     (pack (shr (hi n) (int k)) (shl (hi n) (32 - int k) OR shr (lo n) (int k))) (int k))"
  using assms by (intro start_okI start_low shift_right) auto

text \<open>The distance of the leading bits, when the divisor's is not above the dividend's.\<close>

lemma lead_gap:
  assumes x: "0 < x" "x < 4294967296" and y: "0 < y" "y < 4294967296"
  obtains i j where "2 ^ i \<le> x" "x < 2 ^ Suc i" "i < 32" "2 ^ j \<le> y" "y < 2 ^ Suc j" "j < 32"
    "builtin_clz y - builtin_clz x = int i - int j" "builtin_clz y = 31 - int j" "builtin_clz x = 31 - int i"
  using clz_bounds [OF x] clz_bounds [OF y] by (elim exE conjE) auto

lemma u32_gap: "i < 32 \<Longrightarrow> j < 32 \<Longrightarrow> u32 (int i - int j) = (if j \<le> i then int (i - j) else 4294967296 + int i - int j)"
proof -
  assume ij: "i < 32" "j < 32"
  have "u32 (int i - int j) = u32 (4294967296 + (int i - int j))" by (simp add: u32_def)
  moreover have "\<not> j \<le> i \<Longrightarrow> u32 (4294967296 + (int i - int j)) = 4294967296 + (int i - int j)"
    using ij by (intro u32_id) auto
  moreover have "j \<le> i \<Longrightarrow> u32 (int i - int j) = int i - int j" using ij by (intro u32_id) auto
  ultimately show ?thesis by auto
qed

lemma start_gap:
  assumes n: "0 \<le> n" "n < 18446744073709551616" "hi n \<noteq> 0" and d: "0 \<le> d" "d < 18446744073709551616" "hi d \<noteq> 0"
  obtains (gap) g where "u32 (builtin_clz (hi d) - builtin_clz (hi n)) = int g" "g < 32" "n div 2 ^ Suc g < d"
      "g = 31 \<Longrightarrow> hi d = 1" "d < 9223372036854775808 \<or> (Suc g = 1 \<and> 9223372036854775808 \<le> n)"
    | (large) "31 < u32 (builtin_clz (hi d) - builtin_clz (hi n))" "n < d"
proof -
  have h: "0 < hi n" "hi n < 4294967296" "0 < hi d" "hi d < 4294967296"
    using hi_range [OF n(1,2)] hi_range [OF d(1,2)] n(3) d(3) by auto
  obtain i j where i: "2 ^ i \<le> hi n" "hi n < 2 ^ Suc i" "i < 32" and j: "2 ^ j \<le> hi d" "hi d < 2 ^ Suc j" "j < 32"
    and g: "builtin_clz (hi d) - builtin_clz (hi n) = int i - int j" by (rule lead_gap [OF h])
  have nu: "n < 2 ^ (Suc i + 32)" using hi_below [OF i(2)] by (simp add: power_add)
  have dl: "2 ^ (j + 32) \<le> d" using j(1) halves(1,2) [of d] by (simp add: power_add)
  show thesis
  proof (cases "j \<le> i")
    case True
    have "n div 2 ^ Suc (i - j) < d" using True by (intro quot_below [OF nu dl]) auto
    moreover have "hi d = 1" if "i - j = 31"
    proof -
      have "j = 0" using that i(3) by simp
      then show ?thesis using j(1,2) by simp
    qed
    moreover have "Suc (i - j) = 1 \<and> 9223372036854775808 \<le> n" if "\<not> d < 9223372036854775808"
    proof -
      have "\<not> j < 31"
      proof
        assume "j < 31"
        then have "(2 :: int) ^ Suc j \<le> 2 ^ 31" by (intro power_increasing) auto
        then show False using hi_below [OF j(2)] that by simp
      qed
      then have "j = 31" "i = 31" using j(3) i(3) True by auto
      then show ?thesis using i(1) halves(1,2) [of n] by simp
    qed
    moreover have "u32 (builtin_clz (hi d) - builtin_clz (hi n)) = int (i - j)"
      using g u32_gap [OF i(3) j(3)] True by simp
    ultimately show thesis using i(3) by (intro gap [of "i - j"]) auto
  next
    case False
    then have "n div 2 ^ 0 < d" by (intro quot_below [OF nu dl]) auto
    then show thesis using large g u32_gap [OF i(3) j(3)] False i(3) j(3) by auto
  qed
qed

lemma int_Suc: "int (Suc g) = int g + 1"
  by simp

lemma start_0:
  assumes "hi n = 0" "0 \<le> d" "d < 18446744073709551616" "d \<noteq> 0"
  shows "\<exists>u. udivmod_start n d = cret u \<and> start_ok n d u"
proof (cases "hi d = 0")
  case True
  then have "lo d = d" "lo n = n" using halves(1) [of d] halves(1) [of n] assms(1) by auto
  then show ?thesis using True assms by (simp add: udivmod_start_def start_ok_def)
next
  case False
  then have "4294967296 \<le> d" using hi_range [OF assms(2,3)] halves(1,2) [of d] by linarith
  moreover have "lo n = n" "0 \<le> n" "n < 4294967296" using halves [of n] assms(1) by auto
  ultimately show ?thesis using False assms(1) by (simp add: udivmod_start_def start_ok_def)
qed

lemma start_low_0:
  assumes n: "0 \<le> n" "n < 18446744073709551616" "hi n \<noteq> 0" and d: "0 \<le> d" "d < 18446744073709551616" "lo d = 0" "hi d \<noteq> 0"
  shows "\<exists>u. udivmod_start n d = cret u \<and> start_ok n d u"
proof -
  have hd: "0 < hi d" "hi d < 4294967296" using hi_range [OF d(1,2)] d(4) by auto
  have dd: "d = 4294967296 * hi d" using halves(1) [of d] d(3) by simp
  have divmod: "n div d = hi n div hi d" "n mod d = pack (hi n mod hi d) (lo n)"
    using zdiv_zmult2_eq [of "hi d" n 4294967296] zmod_zmult2_eq [of "hi d" n 4294967296] hd
    by (simp_all add: dd [symmetric] hi_def [symmetric] lo_def [symmetric] pack_def)
  consider (low) "lo n = 0" | (pow) "lo n \<noteq> 0" "hi d AND (hi d - 1) = 0" | (loop) "lo n \<noteq> 0" "hi d AND (hi d - 1) \<noteq> 0" by blast
  then show ?thesis
  proof cases
    case low
    then show ?thesis using n d divmod by (simp add: udivmod_start_def start_ok_def)
  next
    case pow
    obtain k where k: "builtin_ctz (hi d) = int k" "hi d = 2 ^ k" using pow2_ctz [OF hd pow(2)] by auto
    have "shr (hi n) (builtin_ctz (hi d)) = hi n div hi d" "hi n AND (hi d - 1) = hi n mod hi d"
      using k and_pow2 by (simp_all add: shr_def)
    then show ?thesis using n d pow divmod by (simp add: udivmod_start_def start_ok_def)
  next
    case loop
    show ?thesis
    proof (rule start_gap [OF n d(1,2,4)])
      fix g assume g: "u32 (builtin_clz (hi d) - builtin_clz (hi n)) = int g" "g < 32" "n div 2 ^ Suc g < d"
        "g = 31 \<Longrightarrow> hi d = 1" "d < 9223372036854775808 \<or> (Suc g = 1 \<and> 9223372036854775808 \<le> n)"
      have "g \<noteq> 31" using g(4) loop(2) by auto
      then have "\<not> 30 < int g" using g(2) by simp
      then have "udivmod_start n d = cret (Loop (pack (shl (lo n) (32 - int (Suc g))) 0)
          (pack (shr (hi n) (int (Suc g))) (shl (hi n) (32 - int (Suc g)) OR shr (lo n) (int (Suc g)))) (int (Suc g)))"
        unfolding udivmod_start_def Let_def g(1) using n(3) d(3,4) loop by (simp only: if_True if_False simp_thms int_Suc)
      moreover have "start_ok n d (Loop (pack (shl (lo n) (32 - int (Suc g))) 0)
          (pack (shr (hi n) (int (Suc g))) (shl (hi n) (32 - int (Suc g)) OR shr (lo n) (int (Suc g)))) (int (Suc g)))"
        using g(2,3,5) by (intro start_right) auto
      ultimately show ?thesis by blast
    next
      assume "31 < u32 (builtin_clz (hi d) - builtin_clz (hi n))" "n < d"
      then show ?thesis using n d loop by (simp add: udivmod_start_def start_ok_def)
    qed
  qed
qed

end
