(* ===== verification/Klib_Int64_Correct.thy ===== *)
theory Klib_Int64_Correct
  imports Klib_Int64_Div "HOL-Library.Signed_Division"
begin

unbundle bit_operations_syntax

text \<open>
  The division routines of \<open>Klib_Int64\<close> are what their comments promise: quotient and remainder of
  unsigned and signed operands, the remainder taking the sign of the dividend.
\<close>

subsection \<open>Unsigned division\<close>

lemma start_high_0:
  assumes n: "0 \<le> n" "n < 18446744073709551616" "hi n \<noteq> 0" and d: "hi d = 0" "lo d \<noteq> 0"
  shows "\<exists>u. udivmod_start n d = cret u \<and> start_ok n d u"
proof -
  have h: "0 < hi n" "hi n < 4294967296" using hi_range [OF n(1,2)] n(3) by auto
  have dl: "lo d = d" "0 < d" "d < 4294967296" using halves [of d] d by auto
  show ?thesis
  proof (cases "d AND (d - 1) = 0")
    case True
    then obtain k where k: "builtin_ctz d = int k" "d = 2 ^ k" "k < 32" using pow2_ctz dl(2,3) by blast
    have "(2 :: int) ^ k dvd 2 ^ 32" using k(3) by (intro le_imp_power_dvd) auto
    then have "lo n AND (d - 1) = n mod d" unfolding k(2) and_pow2 by (simp add: lo_def mod_mod_cancel)
    moreover have "pack (shr (hi n) (int k)) (shl (hi n) (32 - int k) OR shr (lo n) (int k)) = n div d"
      using shift_right [of k n] k(2,3) by simp
    ultimately show ?thesis using n(3) d dl True k(1) by (auto simp: udivmod_start_def start_ok_def Let_def)
  next
    case False
    obtain i j where i: "2 ^ i \<le> hi n" "hi n < 2 ^ Suc i" "i < 32" and j: "2 ^ j \<le> d" "d < 2 ^ Suc j" "j < 32"
      and clz: "builtin_clz d = 31 - int j" "builtin_clz (hi n) = 31 - int i" by (rule lead_gap [OF h dl(2,3)])
    have "j \<noteq> 0"
    proof
      assume "j = 0"
      then have "d = 1" using j(1,2) by simp
      then show False using False by simp
    qed
    define k where "k = 33 + i - j"
    have k: "0 < k" "k \<le> 64" using i(3) j(3) \<open>j \<noteq> 0\<close> by (auto simp: k_def)
    have sr: "u32 (1 + 32 + builtin_clz d - builtin_clz (hi n)) = int k"
      using i(3) j(3) u32_id [of "33 + int i - int j"] by (simp add: clz k_def of_nat_diff add_diff_eq)
    have nu: "n < 2 ^ (Suc i + 32)" using hi_below [OF i(2)] by (simp add: power_add)
    have q: "n div 2 ^ k < d" using j(3) by (intro quot_below [OF nu j(1)]) (auto simp: k_def)
    have small: "d < 9223372036854775808 \<or> (k = 1 \<and> 9223372036854775808 \<le> n)" using dl(3) by simp
    have start: "udivmod_start n d = cret (
          if int k = 32 then Loop (pack (lo n) 0) (pack 0 (hi n)) (int k)
          else if int k < 32 then Loop (pack (shl (lo n) (32 - int k)) 0)
            (pack (shr (hi n) (int k)) (shl (hi n) (32 - int k) OR shr (lo n) (int k))) (int k)
          else Loop (pack (shl (hi n) (64 - int k) OR shr (lo n) (int k - 32)) (shl (lo n) (64 - int k)))
            (pack 0 (shr (hi n) (int k - 32))) (int k))"
      unfolding udivmod_start_def Let_def dl(1) sr using n(3) d dl(2) False
      by (simp only: if_True if_False simp_thms) simp
    consider (eq) "k = 32" | (less) "k < 32" | (more) "32 < k" by linarith
    then show ?thesis
    proof cases
      case eq
      then show ?thesis using start start_32 [OF n(1,2)] q small start_okI [of _ n k] by auto
    next
      case less
      then show ?thesis using start start_right [OF _ q small] by auto
    next
      case more
      then show ?thesis using start start_okI [OF start_high [OF more k(2)] q k(2) small] by auto
    qed
  qed
qed

lemma start_both:
  assumes n: "0 \<le> n" "n < 18446744073709551616" "hi n \<noteq> 0" and d: "0 \<le> d" "d < 18446744073709551616" "hi d \<noteq> 0" "lo d \<noteq> 0"
  shows "\<exists>u. udivmod_start n d = cret u \<and> start_ok n d u"
proof (rule start_gap [OF n d(1,2,3)])
  fix g assume g: "u32 (builtin_clz (hi d) - builtin_clz (hi n)) = int g" "g < 32" "n div 2 ^ Suc g < d"
    "d < 9223372036854775808 \<or> (Suc g = 1 \<and> 9223372036854775808 \<le> n)"
  have not_large: "\<not> 31 < int g" using g(2) by simp
  have start: "udivmod_start n d = cret (
        if int (Suc g) = 32 then Loop (pack (lo n) 0) (pack 0 (hi n)) (int (Suc g))
        else Loop (pack (shl (lo n) (32 - int (Suc g))) 0)
          (pack (shr (hi n) (int (Suc g))) (shl (hi n) (32 - int (Suc g)) OR shr (lo n) (int (Suc g)))) (int (Suc g)))"
    unfolding udivmod_start_def Let_def g(1) using n(3) d(3,4) not_large
    by (simp only: if_True if_False simp_thms int_Suc) simp
  show ?thesis
  proof (cases "Suc g = 32")
    case True
    then show ?thesis using start start_32 [OF n(1,2)] g(3,4) start_okI [of _ n "Suc g"] by auto
  next
    case False
    then show ?thesis using start start_right [OF _ g(3,4)] g(2) by auto
  qed
next
  assume "31 < u32 (builtin_clz (hi d) - builtin_clz (hi n))" "n < d"
  then show ?thesis using n d by (simp add: udivmod_start_def start_ok_def)
qed

lemma udivmod_start_ok:
  assumes "0 \<le> n" "n < 18446744073709551616" "0 \<le> d" "d < 18446744073709551616" "d \<noteq> 0"
  shows "\<exists>u. udivmod_start n d = cret u \<and> start_ok n d u"
proof -
  have "hi d \<noteq> 0 \<or> lo d \<noteq> 0" using assms(5) halves(1) [of d] by auto
  then show ?thesis
    using start_0 [of n d] start_low_0 [of n d] start_high_0 [of n d] start_both [of n d] assms by blast
qed

lemma udivmod_div_mod:
  assumes "0 \<le> a" "a < 18446744073709551616" "0 \<le> b" "b < 18446744073709551616"
  shows "udivmoddi4 a b = (if b = 0 then cfail Div_Zero else cret (a div b, a mod b))"
proof (cases "b = 0")
  case True
  then show ?thesis by (simp add: udivmoddi4_def udivmod_start_def hi_def lo_def)
next
  case False
  obtain u where u: "udivmod_start a b = cret u" "start_ok a b u" using udivmod_start_ok assms False by blast
  have b: "0 < b" using assms(3) False by simp
  show ?thesis
  proof (cases u)
    case (Done q r)
    then show ?thesis using u False by (simp add: udivmoddi4_def start_ok_def)
  next
    case (Loop q r s)
    then obtain k where k: "s = int k" "k \<le> 64" "q = a mod 2 ^ k * 2 ^ (64 - k)" "r = a div 2 ^ k" "a div 2 ^ k < b"
        "b < 9223372036854775808 \<or> (k = 1 \<and> 9223372036854775808 \<le> a)"
      using u(2) unfolding start_ok_def by auto
    have "a div 2 < b" if "k = 1" using k(5) that by simp
    then have inv: "div_inv a b 0 (udivmod_loop k b (q, r, 0))"
      unfolding k(3,4) using k(6) by (intro div_loop div_init k(2,5) assms b) auto
    obtain q' r' c where l: "udivmod_loop k b (q, r, 0) = (q', r', c)" by (metis prod_cases3)
    then show ?thesis using div_done [OF inv [unfolded l] assms(1,2) b] u(1) Loop k(1) False
      by (simp add: udivmoddi4_def)
  qed
qed

subsection \<open>Signed division\<close>

lemma sign_mask_eq: "- 9223372036854775808 \<le> a \<Longrightarrow> a < 9223372036854775808 \<Longrightarrow> sign_mask a = (if a < 0 then - 1 else 0)"
  by (auto simp: sign_mask_def div_pos_pos_trivial intro: div_eq_minus1)

lemma cond_neg_eq: "cond_neg a 0 = s64 a" "cond_neg a (- 1) = s64 (- a)"
  by (simp_all add: cond_neg_def not_int_def)

lemma s64_u64: "s64 (u64 x) = s64 x" "u64 (s64 x) = u64 x"
  by (simp_all add: s64_def u64_def mod_simps)

lemma cond_neg_abs:
  "- 9223372036854775808 \<le> a \<Longrightarrow> a < 9223372036854775808 \<Longrightarrow> u64 (cond_neg a (sign_mask a)) = \<bar>a\<bar>"
  by (auto simp: sign_mask_eq cond_neg_eq s64_u64 intro!: u64_id)

lemma divdi3_eq:
  assumes "- 9223372036854775808 \<le> a" "a < 9223372036854775808" "- 9223372036854775808 \<le> b" "b < 9223372036854775808" "b \<noteq> 0"
  shows "divdi3 a b = cret (s64 (a sdiv b))"
proof -
  have "udivmoddi4 \<bar>a\<bar> \<bar>b\<bar> = cret (\<bar>a\<bar> div \<bar>b\<bar>, \<bar>a\<bar> mod \<bar>b\<bar>)"
    using assms by (subst udivmod_div_mod) auto
  then have "divdi3 a b = cret (cond_neg (\<bar>a\<bar> div \<bar>b\<bar>) (sign_mask a XOR sign_mask b))"
    using assms by (simp add: divdi3_def Let_def cond_neg_abs)
  moreover have "cond_neg (\<bar>a\<bar> div \<bar>b\<bar>) (sign_mask a XOR sign_mask b) = s64 (a sdiv b)"
    using assms by (cases "a = 0") (auto simp: sign_mask_eq cond_neg_eq signed_divide_int_def sgn_if)
  ultimately show ?thesis by simp
qed

lemma moddi3_eq:
  assumes "- 9223372036854775808 \<le> a" "a < 9223372036854775808" "- 9223372036854775808 \<le> b" "b < 9223372036854775808" "b \<noteq> 0"
  shows "moddi3 a b = cret (a smod b)"
proof -
  have "udivmoddi4 \<bar>a\<bar> \<bar>b\<bar> = cret (\<bar>a\<bar> div \<bar>b\<bar>, \<bar>a\<bar> mod \<bar>b\<bar>)"
    using assms by (subst udivmod_div_mod) auto
  then have m: "moddi3 a b = cret (cond_neg (s64 (\<bar>a\<bar> mod \<bar>b\<bar>)) (sign_mask a))"
    using assms by (simp add: moddi3_def Let_def cond_neg_abs)
  have "\<bar>b\<bar> \<le> 9223372036854775808" "0 < \<bar>b\<bar>" using assms by auto
  then have r: "0 \<le> \<bar>a\<bar> mod \<bar>b\<bar>" "\<bar>a\<bar> mod \<bar>b\<bar> < 9223372036854775808"
    using pos_mod_bound [of "\<bar>b\<bar>" "\<bar>a\<bar>"] pos_mod_sign [of "\<bar>b\<bar>" "\<bar>a\<bar>"] by linarith+
  then have "cond_neg (s64 (\<bar>a\<bar> mod \<bar>b\<bar>)) (sign_mask a) = a smod b"
    using assms(1,2) by (cases "a = 0") (auto simp: sign_mask_eq cond_neg_eq s64_id signed_modulo_int_def sgn_if)
  with m show ?thesis by simp
qed

lemma smod_range: "b \<noteq> 0 \<Longrightarrow> \<bar>a smod b\<bar> < \<bar>b\<bar>" for a b :: int
  using pos_mod_bound [of "\<bar>b\<bar>" "\<bar>a\<bar>"] pos_mod_sign [of "\<bar>b\<bar>" "\<bar>a\<bar>"]
  by (auto simp: signed_modulo_int_def sgn_if)

lemma s64_cong: "u64 x = u64 y \<Longrightarrow> s64 x = s64 y"
  by (metis s64_u64(1))

lemma divmoddi4_eq:
  assumes "- 9223372036854775808 \<le> a" "a < 9223372036854775808" "- 9223372036854775808 \<le> b" "b < 9223372036854775808" "b \<noteq> 0"
  shows "divmoddi4 a b = cret (s64 (a sdiv b), a smod b)"
proof -
  let ?q = "a sdiv b"
  have "u64 (s64 (s64 ?q * b)) = u64 (?q * b)"
    unfolding s64_u64(2) using s64_u64(2) [of ?q] unfolding u64_def by (intro mod_mult_cong) auto
  then have "u64 (a - s64 (s64 ?q * b)) = u64 (a - ?q * b)" unfolding u64_def by (intro mod_diff_cong) auto
  then have r: "s64 (a - s64 (s64 ?q * b)) = s64 (a smod b)"
    unfolding minus_sdiv_mult_eq_smod [symmetric] by (rule s64_cong)
  have "\<bar>a smod b\<bar> < 9223372036854775808"
  proof -
    have "\<bar>b\<bar> \<le> 9223372036854775808" using assms(3,4) by (simp add: abs_le_iff)
    then show ?thesis using smod_range [OF assms(5), of a] by linarith
  qed
  then have "s64 (a smod b) = a smod b" by (intro s64_id) (simp_all only: abs_less_iff, linarith+)
  then show ?thesis using divdi3_eq [OF assms] r by (simp add: divmoddi4_def)
qed

end
