(* ===== verification/Klib_Int64_Count.thy ===== *)
theory Klib_Int64_Count
  imports Klib_Int64_Div
begin

unbundle bit_operations_syntax

text \<open>
  The bit counting routines halve the range in which the leading or trailing one bit lies, from 32 bits
  down to 2; they agree with the compiler's counts for every operand that is not zero.
\<close>

subsection \<open>Which bit leads, which trails\<close>

definition leads :: "int \<Rightarrow> nat \<Rightarrow> bool" where
  "leads x k = (2 ^ k \<le> x \<and> x < 2 ^ Suc k)"

definition trails :: "int \<Rightarrow> nat \<Rightarrow> bool" where
  "trails x k = (0 < x \<and> 2 ^ k dvd x \<and> \<not> 2 ^ Suc k dvd x)"

lemma leads_pos: "leads x k \<Longrightarrow> 0 < x"
  using less_le_trans [of 0 "2 ^ k" x] by (simp add: leads_def)

lemma leads_unique: "leads x i \<Longrightarrow> leads x j \<Longrightarrow> i = j"
proof (rule ccontr)
  assume a: "leads x i" "leads x j" "i \<noteq> j"
  have False if "leads x i" "leads x j" "i < j" for i j
  proof -
    have "(2 :: int) ^ Suc i \<le> 2 ^ j" using that(3) by (intro power_increasing) auto
    then show False using that(1,2) by (auto simp: leads_def)
  qed
  then show False using a by (meson linorder_neqE_nat)
qed

lemma leads_clz: "leads x k \<Longrightarrow> x < 4294967296 \<Longrightarrow> builtin_clz x = 31 - int k \<and> k < 32"
  using clz_bounds [OF leads_pos] leads_unique leads_def by metis

lemma trails_double: "trails x k \<Longrightarrow> trails (2 * x) (Suc k)"
  unfolding trails_def power_Suc [of 2 "Suc k"] power_Suc [of 2 k, symmetric] by auto

lemma trails_trailing: "0 < n \<Longrightarrow> trails (int n) (trailing n)"
proof (induction n rule: trailing.induct)
  case (1 n)
  show ?case
  proof (cases "odd n")
    case False
    then obtain m where m: "n = 2 * m" by auto
    then have "trails (int m) (trailing m)" using 1 by auto
    moreover have "trailing n = Suc (trailing m)" unfolding trailing.simps [of n] using m 1(2) by simp
    ultimately show ?thesis using m trails_double by simp
  qed (use 1(2) in \<open>simp add: trails_def trailing.simps [of n]\<close>)
qed

lemma trails_unique: "trails x i \<Longrightarrow> trails x j \<Longrightarrow> i = j"
  unfolding trails_def by (meson Suc_leI dvd_trans le_imp_power_dvd linorder_neqE_nat)

lemma trails_ctz: "trails x k \<Longrightarrow> builtin_ctz x = int k"
  using trails_trailing [of "nat x"] trails_unique [of x k] by (auto simp: builtin_ctz_def trails_def)

lemma trails_exists: "0 < x \<Longrightarrow> \<exists>k. trails x k"
  using trails_trailing [of "nat x"] by auto

lemma trails_less: "trails x k \<Longrightarrow> x < 2 ^ n \<Longrightarrow> k < n"
proof (rule ccontr)
  assume a: "trails x k" "x < 2 ^ n" "\<not> k < n"
  have "(2 :: int) ^ n \<le> 2 ^ k" using a(3) by (intro power_increasing) auto
  moreover have "2 ^ k \<le> x" using a(1) by (auto simp: trails_def intro: zdvd_imp_le)
  ultimately show False using a(2) by linarith
qed

subsection \<open>Halving the range\<close>

lemma high_mask: "0 \<le> x \<Longrightarrow> x < 2 ^ (2 * w) \<Longrightarrow> x AND push_bit w (mask w) = x div 2 ^ w * 2 ^ w" for x :: int
proof -
  assume x: "0 \<le> x" "x < 2 ^ (2 * w)"
  have "x < 2 ^ w * 2 ^ w" using x(2) by (simp add: mult_2 power_add)
  then have "x div 2 ^ w < 2 ^ w" by (intro div_below) auto
  then have "take_bit w (drop_bit w x) = x div 2 ^ w" using x(1)
    by (simp add: drop_bit_eq_div take_bit_int_eq_self pos_imp_zdiv_nonneg_iff)
  moreover have "x AND push_bit w (mask w) = push_bit w (take_bit w (drop_bit w x))"
    by (rule bit_eqI) (auto simp: bit_simps)
  ultimately show ?thesis by (simp add: push_bit_eq_mult)
qed

lemma lead_step:
  assumes k: "leads x k" "k < 2 * w" and t: "t = none_set x (push_bit w (mask w)) (int w)"
  shows "\<exists>j. leads (shr x (int w - t)) j \<and> j < w \<and> t + int k = int w + int j"
proof -
  have "(2 :: int) ^ Suc k \<le> 2 ^ (2 * w)" using k(2) by (intro power_increasing) auto
  then have m: "x AND push_bit w (mask w) = x div 2 ^ w * 2 ^ w"
    using k(1) leads_pos [OF k(1)] by (intro high_mask) (auto simp: leads_def)
  show ?thesis
  proof (cases "k < w")
    case True
    then have "(2 :: int) ^ Suc k \<le> 2 ^ w" by (intro power_increasing) auto
    then have "x div 2 ^ w = 0" using k(1) leads_pos [OF k(1)] by (simp add: leads_def div_pos_pos_trivial)
    then show ?thesis using t m k(1) True by (simp add: none_set_def shr_def)
  next
    case False
    then have p: "(2 :: int) ^ k = 2 ^ w * 2 ^ (k - w)" by (simp flip: power_add)
    have l: "2 ^ (k - w) \<le> x div 2 ^ w" using k(1) zdiv_mono1 [of "2 ^ k" x "2 ^ w"] p by (simp add: leads_def)
    moreover have "x div 2 ^ w < 2 ^ Suc (k - w)" using k(1) p by (intro div_below) (auto simp: leads_def)
    ultimately have "leads (x div 2 ^ w) (k - w)" by (simp add: leads_def)
    moreover from this have "x div 2 ^ w \<noteq> 0" using leads_pos by fastforce
    ultimately show ?thesis using t m False k(2) by (intro exI [of _ "k - w"]) (auto simp: none_set_def shr_def)
  qed
qed

lemma trail_step:
  assumes k: "trails x k" "k < 2 * w" and t: "t = none_set x (mask w) (int w)"
  shows "\<exists>j. trails (shr x t) j \<and> j < w \<and> int k = t + int j"
proof -
  have m: "x AND mask w = x mod 2 ^ w" by (simp add: take_bit_eq_mask [symmetric] take_bit_eq_mod)
  have iff: "x mod 2 ^ w = 0 \<longleftrightarrow> w \<le> k"
    using k(1) unfolding trails_def by (metis dvd_eq_mod_eq_0 dvd_trans le_imp_power_dvd not_less_eq_eq)
  show ?thesis
  proof (cases "w \<le> k")
    case True
    then have "2 ^ w dvd x" using iff by auto
    then obtain y where y: "x = 2 ^ w * y" by auto
    have "(2 :: int) ^ k = 2 ^ w * 2 ^ (k - w)" "(2 :: int) ^ Suc k = 2 ^ w * 2 ^ Suc (k - w)"
      using True power_add [of "2 :: int" w "k - w"] by auto
    then have "trails y (k - w)" using k(1) y by (auto simp: trails_def zero_less_mult_iff)
    then show ?thesis using t m iff True k(2) y by (intro exI [of _ "k - w"]) (auto simp: none_set_def shr_def)
  next
    case False
    then show ?thesis using t m iff k(1) by (auto simp: none_set_def shr_def)
  qed
qed

lemma masks:
  "push_bit 16 (mask 16) = (0xFFFF0000 :: int)" "push_bit 8 (mask 8) = (0xFF00 :: int)"
  "push_bit 4 (mask 4) = (0xF0 :: int)" "push_bit 2 (mask 2) = (0xC :: int)"
  "mask 16 = (0x0000FFFF :: int)" "mask 8 = (0x00FF :: int)" "mask 4 = (0x0F :: int)" "mask 2 = (0x3 :: int)"
  by (simp_all add: push_bit_eq_mult mask_eq_exp_minus_1)

lemma two_bits: "leads x j \<Longrightarrow> j < 2 \<Longrightarrow> (2 - x) AND - none_set x 2 1 = 1 - int j"
proof -
  assume j: "leads x j" "j < 2"
  have "x = 1" if "j = 0" using j that by (simp add: leads_def)
  moreover have "2 \<le> x \<and> x < 4" if "j = 1" using j that by (simp add: leads_def)
  ultimately consider "j = 0" "x = 1" | "j = 1" "x = 2" | "j = 1" "x = 3" using j(2) by linarith
  then show ?thesis by cases (simp_all add: none_set_def)
qed

lemma low_two_bits: "trails x j \<Longrightarrow> j < 2 \<Longrightarrow> (2 - shr (x AND 3) 1) AND - none_set (x AND 3) 1 1 = int j"
proof -
  assume j: "trails x j" "j < 2"
  have a: "x AND 3 = x mod 4" using and_pow2 [of x 2] by simp
  have "x mod 4 = 1 \<or> x mod 4 = 3" if "j = 0" using j(1) unfolding trails_def that by simp presburger
  moreover have "x mod 4 = 2" if "j = 1" using j(1) unfolding trails_def that by simp presburger
  ultimately consider "j = 0" "x mod 4 = 1" | "j = 0" "x mod 4 = 3" | "j = 1" "x mod 4 = 2" using j(2) by linarith
  then show ?thesis by cases (simp_all add: a none_set_def shr_def)
qed

lemma clz_leads:
  assumes "u32 a \<noteq> 0"
  shows "clzsi2 a = builtin_clz (u32 a)"
proof -
  have x: "0 < u32 a" "u32 a < 4294967296" using assms u32_range [of a] by linarith+
  obtain k where k: "leads (u32 a) k" "k < 2 * 16" using clz_bounds [OF x] unfolding leads_def by auto
  note steps = lead_step [where w = 16, simplified masks] lead_step [where w = 8, simplified masks]
    lead_step [where w = 4, simplified masks] lead_step [where w = 2, simplified masks]
  define t1 where "t1 = none_set (u32 a) 0xFFFF0000 16"
  define x1 where "x1 = shr (u32 a) (16 - t1)"
  obtain k1 where k1: "leads x1 k1" "k1 < 2 * 8" "t1 + int k = 16 + int k1"
    using steps(1) [OF k(1)] k(2) by (auto simp: x1_def t1_def)
  define t2 where "t2 = none_set x1 0xFF00 8"
  define x2 where "x2 = shr x1 (8 - t2)"
  obtain k2 where k2: "leads x2 k2" "k2 < 2 * 4" "t2 + int k1 = 8 + int k2"
    using steps(2) [OF k1(1)] k1(2) by (auto simp: x2_def t2_def)
  define t3 where "t3 = none_set x2 0xF0 4"
  define x3 where "x3 = shr x2 (4 - t3)"
  obtain k3 where k3: "leads x3 k3" "k3 < 2 * 2" "t3 + int k2 = 4 + int k3"
    using steps(3) [OF k2(1)] k2(2) by (auto simp: x3_def t3_def)
  define t4 where "t4 = none_set x3 0xC 2"
  define x4 where "x4 = shr x3 (2 - t4)"
  obtain k4 where k4: "leads x4 k4" "k4 < 2" "t4 + int k3 = 2 + int k4"
    using steps(4) [OF k3(1)] k3(2) by (auto simp: x4_def t4_def)
  have "clzsi2 a = t1 + t2 + t3 + t4 + ((2 - x4) AND - none_set x4 2 1)"
    by (simp add: clzsi2_def Let_def t1_def x1_def t2_def x2_def t3_def x3_def t4_def x4_def)
  then show ?thesis using two_bits [OF k4(1,2)] k1(3) k2(3) k3(3) k4(3) leads_clz [OF k(1) x(2)] by simp
qed

lemma ctz_trails:
  assumes "u32 a \<noteq> 0"
  shows "ctzsi2 a = builtin_ctz (u32 a)"
proof -
  have x: "0 < u32 a" "u32 a < 2 ^ (2 * 16)" using assms u32_range [of a] less_le [of 0 "u32 a"] by simp_all
  obtain k where k: "trails (u32 a) k" "k < 2 * 16" using trails_exists [OF x(1)] trails_less [OF _ x(2)] by auto
  note steps = trail_step [where w = 16, simplified masks] trail_step [where w = 8, simplified masks]
    trail_step [where w = 4, simplified masks] trail_step [where w = 2, simplified masks]
  define t1 where "t1 = none_set (u32 a) 0x0000FFFF 16"
  define x1 where "x1 = shr (u32 a) t1"
  obtain k1 where k1: "trails x1 k1" "k1 < 2 * 8" "int k = t1 + int k1"
    using steps(1) [OF k(1)] k(2) by (auto simp: x1_def t1_def)
  define t2 where "t2 = none_set x1 0x00FF 8"
  define x2 where "x2 = shr x1 t2"
  obtain k2 where k2: "trails x2 k2" "k2 < 2 * 4" "int k1 = t2 + int k2"
    using steps(2) [OF k1(1)] k1(2) by (auto simp: x2_def t2_def)
  define t3 where "t3 = none_set x2 0x0F 4"
  define x3 where "x3 = shr x2 t3"
  obtain k3 where k3: "trails x3 k3" "k3 < 2 * 2" "int k2 = t3 + int k3"
    using steps(3) [OF k2(1)] k2(2) by (auto simp: x3_def t3_def)
  define t4 where "t4 = none_set x3 0x3 2"
  define x4 where "x4 = shr x3 t4"
  obtain k4 where k4: "trails x4 k4" "k4 < 2" "int k3 = t4 + int k4"
    using steps(4) [OF k3(1)] k3(2) by (auto simp: x4_def t4_def)
  have "ctzsi2 a = t1 + t2 + t3 + t4 + ((2 - shr (x4 AND 3) 1) AND - none_set (x4 AND 3) 1 1)"
    by (simp add: ctzsi2_def Let_def t1_def x1_def t2_def x2_def t3_def x3_def t4_def x4_def)
  then show ?thesis using low_two_bits [OF k4(1,2)] k1(3) k2(3) k3(3) k4(3) trails_ctz [OF k(1)] by simp
qed

subsection \<open>Two words\<close>

lemma u32_half: "u32 (hi (u64 a)) = hi (u64 a)" "u32 (lo w) = lo w"
  using hi_range [of "u64 a"] u64_range [of a] halves(2,3) [of w] by (auto intro!: u32_id)

lemma leads_high: "leads (hi w) k \<Longrightarrow> leads w (k + 32)"
  using halves [of w] by (auto simp: leads_def power_add)

lemma clz_double:
  assumes "u64 a \<noteq> 0"
  shows "\<exists>k. leads (u64 a) k \<and> clzdi2 a = 63 - int k"
proof (cases "hi (u64 a) = 0")
  case True
  then have l: "lo (u64 a) = u64 a" "0 < u64 a" "u64 a < 4294967296"
    using halves [of "u64 a"] assms less_le [of 0 "u64 a"] by auto
  then have "u32 (u64 a) = u64 a" using u32_half(2) [of "u64 a"] by simp
  then show ?thesis using clz_bounds [OF l(2,3)] clz_leads [of "u64 a"] assms True l(1)
    by (auto simp: clzdi2_def leads_def)
next
  case False
  have h: "0 < hi (u64 a)" "hi (u64 a) < 4294967296" using False hi_range [of "u64 a"] u64_range [of a] by auto
  obtain k where k: "builtin_clz (hi (u64 a)) = 31 - int k" "leads (hi (u64 a)) k"
    using clz_bounds [OF h] unfolding leads_def by auto
  have "clzdi2 a = builtin_clz (hi (u64 a))" using False clz_leads [of "hi (u64 a)"] u32_half(1) by (simp add: clzdi2_def)
  then show ?thesis using k leads_high by (intro exI [of _ "k + 32"]) auto
qed

lemma ctz_double:
  assumes "u64 a \<noteq> 0"
  shows "ctzdi2 a = builtin_ctz (u64 a)"
proof (cases "lo (u64 a) = 0")
  case True
  then have w: "u64 a = 2 ^ 32 * hi (u64 a)" "hi (u64 a) \<noteq> 0" using halves(1) [of "u64 a"] assms by auto
  then have "0 < hi (u64 a)" using hi_range [OF u64_range, of a] by (simp add: less_le)
  then obtain k where k: "trails (hi (u64 a)) k" using trails_exists by blast
  have "trails (2 ^ n * x) (n + k)" if "trails x k" for n x using that by (induction n) (auto simp: mult.assoc dest: trails_double)
  then have "builtin_ctz (u64 a) = int (32 + k)" using k w(1) trails_ctz by metis
  moreover have "ctzdi2 a = builtin_ctz (hi (u64 a)) + 32"
    using True ctz_trails [of "hi (u64 a)"] u32_half(1) w(2) by (simp add: ctzdi2_def)
  ultimately show ?thesis using trails_ctz [OF k] by simp
next
  case False
  then have "0 < lo (u64 a)" using halves(2) [of "u64 a"] by simp
  then obtain k where k: "trails (lo (u64 a)) k" using trails_exists by blast
  then have k32: "k < 32" using halves(3) [of "u64 a"] by (intro trails_less) auto
  have "(2 :: int) ^ Suc k dvd 2 ^ 32" using k32 by (intro le_imp_power_dvd) auto
  then have d: "2 ^ k dvd hi (u64 a) * 4294967296" "2 ^ Suc k dvd hi (u64 a) * 4294967296"
    using dvd_trans [of "2 ^ k" "2 ^ Suc k"] by (auto intro: dvd_mult dvd_mult_left)
  have "0 < u64 a" using assms u64_range [of a] less_le [of 0 "u64 a"] by auto
  then have "trails (u64 a) k"
    using k d halves(1) [of "u64 a"] unfolding trails_def by (metis dvd_add_right_iff)
  then show ?thesis using trails_ctz [OF k] trails_ctz [of "u64 a" k] False ctz_trails [of "lo (u64 a)"] u32_half(2)
    by (simp add: ctzdi2_def)
qed

end
