(* ===== verification/Klib_Int64_Props.thy ===== *)
theory Klib_Int64_Props
  imports Klib_Int64_Correct Klib_Int64_Count
begin

text \<open>What the routines of \<open>int64.c\<close> promise their callers.\<close>

text \<open>C24. \<open>__udivmoddi4\<close>, \<open>__udivdi3\<close> and \<open>__umoddi3\<close>: for every pair of 64-bit operands the routine divides, through
  whichever of its special cases or its loop it takes; only a zero divisor faults.
\<close>
theorem udivmoddi4_correct:
  assumes "0 \<le> a" "a < 18446744073709551616" "0 \<le> b" "b < 18446744073709551616"
  shows "udivmoddi4 a b = (if b = 0 then cfail Div_Zero else cret (a div b, a mod b)) \<and>
    udivdi3 a b = (if b = 0 then cfail Div_Zero else cret (a div b)) \<and>
    umoddi3 a b = (if b = 0 then cfail Div_Zero else cret (a mod b))"
  using udivmod_div_mod [OF assms] by (auto simp: udivdi3_def umoddi3_def)

theorem udivmoddi4_witness:
  "udivmoddi4 12345678901234567890 6000000000000 = cret (2057613, 901234567890)"
proof -
  have "udivmoddi4 12345678901234567890 6000000000000 =
      cret (12345678901234567890 div 6000000000000, 12345678901234567890 mod 6000000000000)"
    using udivmoddi4_correct [of 12345678901234567890 6000000000000] by simp
  then show ?thesis by simp
qed

text \<open>C25. Signed division truncates towards zero and the remainder has the sign of the dividend, as C wants; the
  one quotient that does not fit, that of the least number by minus one, wraps.
\<close>
theorem signed_division_correct:
  assumes "- 9223372036854775808 \<le> a" "a < 9223372036854775808" "- 9223372036854775808 \<le> b" "b < 9223372036854775808" "b \<noteq> 0"
  shows "divdi3 a b = cret (s64 (a sdiv b)) \<and> moddi3 a b = cret (a smod b) \<and>
    divmoddi4 a b = cret (s64 (a sdiv b), a smod b)"
  using divdi3_eq [OF assms] moddi3_eq [OF assms] divmoddi4_eq [OF assms] by blast

theorem signed_division_witness:
  "divmoddi4 (- 7000000000000) 2000000000000 = cret (- 3, - 1000000000000) \<and>
   divdi3 (- 9223372036854775808) (- 1) = cret (- 9223372036854775808)"
proof -
  have "divmoddi4 (- 7000000000000) 2000000000000 =
      cret (s64 (- 7000000000000 sdiv 2000000000000), - 7000000000000 smod 2000000000000)"
    using signed_division_correct [of "- 7000000000000" 2000000000000] by simp
  moreover have "divdi3 (- 9223372036854775808) (- 1) = cret (s64 (- 9223372036854775808 sdiv (- 1)))"
    using signed_division_correct [of "- 9223372036854775808" "- 1"] by simp
  ultimately show ?thesis by (simp add: signed_divide_int_def signed_modulo_int_def s64_def)
qed

text \<open>For an operand that is not zero, \<open>__clzsi2\<close> and \<open>__clzdi2\<close> place the leading one bit and \<open>__ctzsi2\<close> and
  \<open>__ctzdi2\<close> the trailing one.
\<close>
theorem bit_counts_correct:
  assumes "u32 a \<noteq> 0"
  shows "leads (u32 a) (nat (31 - clzsi2 a)) \<and> trails (u32 a) (nat (ctzsi2 a)) \<and>
    leads (u64 a) (nat (63 - clzdi2 a)) \<and> trails (u64 a) (nat (ctzdi2 a))"
proof -
  have x: "0 < u32 a" "u32 a < 4294967296" using assms u32_range [of a] by (simp_all add: less_le)
  have "u64 a \<noteq> 0" using assms u32_u64 [of a] by (auto simp: u32_def)
  then obtain k where k: "leads (u64 a) k" "clzdi2 a = 63 - int k" using clz_double by blast
  obtain i where i: "leads (u32 a) i" "clzsi2 a = 31 - int i"
    using clz_bounds [OF x] clz_leads [OF assms] unfolding leads_def by auto
  have t: "trails (u32 a) (trailing (nat (u32 a)))" using trails_trailing [of "nat (u32 a)"] x by simp
  have "0 < u64 a" using \<open>u64 a \<noteq> 0\<close> u64_range [of a] by (simp add: less_le)
  then have "trails (u64 a) (trailing (nat (u64 a)))" using trails_trailing [of "nat (u64 a)"] by simp
  then show ?thesis using k i t ctz_trails [OF assms] ctz_double [OF \<open>u64 a \<noteq> 0\<close>] by (simp add: builtin_ctz_def)
qed

theorem bit_counts_witness:
  "leads 40 (nat (31 - clzsi2 40)) \<and> trails 40 (nat (ctzsi2 40)) \<and> clzsi2 40 = 26 \<and> ctzdi2 40 = 3"
proof -
  have "leads 40 (nat (31 - clzsi2 40)) \<and> trails 40 (nat (ctzsi2 40))"
    using bit_counts_correct [of 40] by (simp add: u32_id)
  moreover have "clzsi2 40 = 26" "ctzdi2 40 = 3" by code_simp+
  ultimately show ?thesis by simp
qed

end
