(* ===== verification/Am_Io.thy ===== *)
theory Am_Io
  imports C_Memory
begin

text \<open>
  Port input and output, \<open>abstract-machine/am/src/x86/x86.h\<close>, and memory-mapped registers.  What a device answers is not the program's:
  the hardware is a parameter, a function from the history of accesses (latest first) and the port to the
  value read.  Every access is appended to the history, which is therefore both the state of the devices
  and the program's observable output.
\<close>

datatype event =
    In8 int int
  | In32 int int
  | Out8 int int
  | Out16 int int
  | Out32 int int
  | Rdtsc int
  | Load32 int int
  | Store32 int int

type_synonym history = "event list"

record hardware =
  in8 :: "history \<Rightarrow> int \<Rightarrow> int"
  in32 :: "history \<Rightarrow> int \<Rightarrow> int"
  tsc :: "history \<Rightarrow> int"
  mmio :: "history \<Rightarrow> int \<Rightarrow> int"

definition inb :: "hardware \<Rightarrow> int \<Rightarrow> history \<Rightarrow> int \<times> history" where
  "inb w p h = (let v = in8 w h p mod 256 in (v, In8 p v # h))"

definition inl :: "hardware \<Rightarrow> int \<Rightarrow> history \<Rightarrow> int \<times> history" where
  "inl w p h = (let v = u32 (in32 w h p) in (v, In32 p v # h))"

definition outb :: "int \<Rightarrow> int \<Rightarrow> history \<Rightarrow> history" where
  "outb p v h = Out8 p (v mod 256) # h"

definition outw :: "int \<Rightarrow> int \<Rightarrow> history \<Rightarrow> history" where
  "outw p v h = Out16 p (v mod 65536) # h"

definition outl :: "int \<Rightarrow> int \<Rightarrow> history \<Rightarrow> history" where
  "outl p v h = Out32 p (u32 v) # h"

definition rdtsc :: "hardware \<Rightarrow> history \<Rightarrow> int \<times> history" where
  "rdtsc w h = (let v = u64 (tsc w h) in (v, Rdtsc v # h))"

text \<open>A \<^verbatim>\<open>volatile\<close> 32-bit register in memory.\<close>

definition reg_read :: "hardware \<Rightarrow> int \<Rightarrow> history \<Rightarrow> int \<times> history" where
  "reg_read w a h = (let v = u32 (mmio w h a) in (v, Load32 a v # h))"

definition reg_write :: "int \<Rightarrow> int \<Rightarrow> history \<Rightarrow> history" where
  "reg_write a v h = Store32 a (u32 v) # h"

text \<open>A 16-bit field of a table in memory.\<close>

definition load16 :: "mem \<Rightarrow> int \<Rightarrow> int" where
  "load16 m a = uint (m a) + 256 * uint (m (a + 1))"

end
