(* ===== verification/Am_Disk.thy ===== *)
theory Am_Disk
  imports Am_Io
begin

unbundle bit_operations_syntax

text \<open>
  The disk driver of \<open>abstract-machine/am/src/x86/qemu/ioe.c\<close> (\<open>wait_disk\<close>, \<open>disk_blkio\<close>) and what it makes
  of a disk that follows the ATA PIO protocol: a store of 512-byte blocks.
\<close>

subsection \<open>The driver\<close>

partial_function (option) wait_disk :: "hardware \<Rightarrow> history \<Rightarrow> history option" where
  "wait_disk w h = (let (v, h) = inb w 0x1f7 h in if v AND 0xc0 \<noteq> 0x40 then wait_disk w h else Some h)"

record blkio =
  bio_write :: bool
  bio_buf :: int
  bio_blkno :: int
  bio_blkcnt :: int

text \<open>The register writes that select one block and start a command.\<close>

definition select_block :: "int \<Rightarrow> int \<Rightarrow> history \<Rightarrow> history" where
  "select_block cmd blkno h =
     (let h = outb 0x1f2 1 h;
          h = outb 0x1f3 blkno h;
          h = outb 0x1f4 (blkno div 2 ^ 8) h;
          h = outb 0x1f5 (blkno div 2 ^ 16) h;
          h = outb 0x1f6 (blkno div 2 ^ 24 OR 0xe0) h
      in outb 0x1f7 cmd h)"

fun send_words :: "nat \<Rightarrow> mem \<Rightarrow> int \<Rightarrow> history \<Rightarrow> int \<times> history" where
  "send_words 0 m ptr h = (ptr, h)"
| "send_words (Suc n) m ptr h = send_words n m (ptr + 4) (outl 0x1f0 (load32 m ptr) h)"

fun receive_words :: "nat \<Rightarrow> hardware \<Rightarrow> int \<Rightarrow> mem \<times> history \<Rightarrow> int \<times> mem \<times> history" where
  "receive_words 0 w ptr st = (ptr, st)"
| "receive_words (Suc n) w ptr (m, h) =
     (let (v, h) = inl w 0x1f0 h in receive_words n w (ptr + 4) (store32 m ptr v, h))"

definition disk_block :: "hardware \<Rightarrow> bool \<Rightarrow> int \<Rightarrow> int \<Rightarrow> mem \<times> history \<Rightarrow> (int \<times> mem \<times> history) option" where
  "disk_block w wr blkno ptr = (\<lambda>(m, h).
     Option.bind (wait_disk w h) (\<lambda>h.
     Option.bind (wait_disk w (select_block (if wr then 0x30 else 0x20) blkno h)) (\<lambda>h.
       if wr then let (ptr, h) = send_words 128 m ptr h in Some (ptr, m, h)
       else Some (receive_words 128 w ptr (m, h)))))"

fun disk_loop :: "nat \<Rightarrow> hardware \<Rightarrow> bool \<Rightarrow> int \<Rightarrow> int \<Rightarrow> mem \<times> history \<Rightarrow> (mem \<times> history) option" where
  "disk_loop 0 w wr blkno ptr st = Some st"
| "disk_loop (Suc remain) w wr blkno ptr st =
     Option.bind (disk_block w wr blkno ptr st) (\<lambda>(ptr, st). disk_loop remain w wr (u32 (blkno + 1)) ptr st)"

definition disk_blkio :: "hardware \<Rightarrow> blkio \<Rightarrow> mem \<times> history \<Rightarrow> (mem \<times> history) option" where
  "disk_blkio w bio st =
     disk_loop (nat (u32 (bio_blkcnt bio))) w (bio_write bio) (u32 (bio_blkno bio)) (bio_buf bio) st"

subsection \<open>The device\<close>

text \<open>
  What the ATA protocol makes of a history: the task file registers select a block, command \<open>0x20\<close>
  starts reading it and \<open>0x30\<close> writing it, word by word through the data register.
\<close>

datatype ata_mode = Idle | Reading | Writing

record ata =
  lba0 :: int
  lba1 :: int
  lba2 :: int
  lba3 :: int
  ata_mode :: ata_mode
  ata_index :: nat
  sectors :: "int \<Rightarrow> nat \<Rightarrow> int"

definition ata_lba :: "ata \<Rightarrow> int" where
  "ata_lba a = lba0 a + 2 ^ 8 * lba1 a + 2 ^ 16 * lba2 a + 2 ^ 24 * (lba3 a mod 16)"

definition ata_command :: "int \<Rightarrow> ata \<Rightarrow> ata" where
  "ata_command v a = a\<lparr>ata_mode := (if v = 0x20 then Reading else if v = 0x30 then Writing else Idle), ata_index := 0\<rparr>"

definition ata_put :: "int \<Rightarrow> ata \<Rightarrow> ata" where
  "ata_put v a =
     (if ata_mode a = Writing \<and> ata_index a < 128 then
        a\<lparr>ata_index := Suc (ata_index a),
          sectors := (sectors a)(ata_lba a := (sectors a (ata_lba a))(ata_index a := v))\<rparr>
      else a)"

fun ata_step :: "event \<Rightarrow> ata \<Rightarrow> ata" where
  "ata_step (Out8 p v) a =
     (if p = 0x1f3 then a\<lparr>lba0 := v\<rparr>
      else if p = 0x1f4 then a\<lparr>lba1 := v\<rparr>
      else if p = 0x1f5 then a\<lparr>lba2 := v\<rparr>
      else if p = 0x1f6 then a\<lparr>lba3 := v\<rparr>
      else if p = 0x1f7 then ata_command v a
      else a)"
| "ata_step (Out32 p v) a = (if p = 0x1f0 then ata_put v a else a)"
| "ata_step (In32 p v) a = (if p = 0x1f0 then a\<lparr>ata_index := Suc (ata_index a)\<rparr> else a)"
| "ata_step e a = a"

definition ata_boot :: "(int \<Rightarrow> nat \<Rightarrow> int) \<Rightarrow> ata" where
  "ata_boot s = \<lparr>lba0 = 0, lba1 = 0, lba2 = 0, lba3 = 0, ata_mode = Idle, ata_index = 0, sectors = s\<rparr>"

primrec ata_of :: "(int \<Rightarrow> nat \<Rightarrow> int) \<Rightarrow> history \<Rightarrow> ata" where
  "ata_of s [] = ata_boot s"
| "ata_of s (e # h) = ata_step e (ata_of s h)"

text \<open>
  The hardware has such a disk: after finitely many polls it is ready, and in reading mode the data
  register holds the next word of the selected block.
\<close>

primrec ready_after :: "hardware \<Rightarrow> nat \<Rightarrow> history \<Rightarrow> bool" where
  "ready_after w 0 h = (in8 w h 0x1f7 mod 256 AND 0xc0 = 0x40)"
| "ready_after w (Suc n) h = ready_after w n (In8 0x1f7 (in8 w h 0x1f7 mod 256) # h)"

definition ata_disk :: "hardware \<Rightarrow> (int \<Rightarrow> nat \<Rightarrow> int) \<Rightarrow> bool" where
  "ata_disk w s \<longleftrightarrow> (\<forall>h. \<exists>n. ready_after w n h) \<and>
     (\<forall>h. ata_mode (ata_of s h) = Reading \<longrightarrow> ata_index (ata_of s h) < 128 \<longrightarrow>
        u32 (in32 w h 0x1f0) = u32 (sectors (ata_of s h) (ata_lba (ata_of s h)) (ata_index (ata_of s h))))"

subsection \<open>One block\<close>

lemma wait_disk_ready: "ready_after w n h \<Longrightarrow> \<exists>h'. wait_disk w h = Some h' \<and> ata_of s h' = ata_of s h"
proof (induction n arbitrary: h)
  case 0
  then show ?case by (subst wait_disk.simps) (simp add: inb_def Let_def)
next
  case (Suc n)
  then show ?case by (subst wait_disk.simps) (fastforce simp: inb_def Let_def)
qed

lemma wait_disk_returns: "ata_disk w s \<Longrightarrow> \<exists>h'. wait_disk w h = Some h' \<and> ata_of s h' = ata_of s h"
  using wait_disk_ready unfolding ata_disk_def by blast

lemma lba_top: "0 \<le> x \<Longrightarrow> x < 16 \<Longrightarrow> (x OR 0xe0) mod 256 mod 16 = x" for x :: int
proof -
  assume x: "0 \<le> x" "x < 16"
  then have "x OR 0xe0 = 14 * 16 + x" by (subst or.commute, subst or_low [of 5]) auto
  moreover have "(14 * 16 + x) mod 256 = 14 * 16 + x" using x by (intro mod_pos_pos_trivial) auto
  moreover have "(14 * 16 + x) mod 16 = x" using x by (simp only: mod_mult_self3 mod_pos_pos_trivial)
  ultimately show ?thesis by metis
qed

lemma lba_split: "b mod 256 + 256 * (b div 256 mod 256) + 65536 * (b div 65536 mod 256) + 16777216 * (b div 16777216) = b" for b :: int
proof -
  have "b div 256 = b div 65536 * 256 + b div 256 mod 256" "b div 65536 = b div 16777216 * 256 + b div 65536 mod 256"
    using zdiv_zmult2_eq [of 256 b 256] zdiv_zmult2_eq [of 256 b 65536] by simp_all
  then show ?thesis using div_mult_mod_eq [of b 256] by linarith
qed

lemma ata_command_fields [simp]:
  "ata_lba (ata_command v a) = ata_lba a" "sectors (ata_command v a) = sectors a" "ata_index (ata_command v a) = 0"
  "ata_mode (ata_command v a) = (if v = 0x20 then Reading else if v = 0x30 then Writing else Idle)"
  by (simp_all add: ata_command_def ata_lba_def)

lemma select_block_ata:
  assumes b: "0 \<le> b" "b < 268435456" and cmd: "cmd = 0x20 \<or> cmd = 0x30"
  shows "let a = ata_of s (select_block cmd b h) in ata_lba a = b \<and> ata_index a = 0 \<and>
     ata_mode a = (if cmd = 0x20 then Reading else Writing) \<and> sectors a = sectors (ata_of s h)"
proof -
  have "0 \<le> b div 16777216" "b div 16777216 < 16" using b by (auto simp: pos_imp_zdiv_nonneg_iff intro: div_below)
  then have top: "(b div 16777216 OR 0xe0) mod 256 mod 16 = b div 16777216" by (rule lba_top)
  define v where "v = (b div 16777216 OR 0xe0) mod 256"
  define a where "a = (ata_of s h)\<lparr>lba0 := b mod 256, lba1 := b div 256 mod 256, lba2 := b div 65536 mod 256, lba3 := v\<rparr>"
  have "select_block cmd b h = Out8 0x1f7 cmd # Out8 0x1f6 v # Out8 0x1f5 (b div 65536 mod 256) #
      Out8 0x1f4 (b div 256 mod 256) # Out8 0x1f3 (b mod 256) # Out8 0x1f2 1 # h"
    using cmd by (auto simp: select_block_def outb_def v_def)
  then have "ata_of s (select_block cmd b h) = ata_command cmd a" by (simp add: a_def)
  moreover have "v mod 16 = b div 16777216" using top by (simp only: v_def)
  then have "ata_lba a = b mod 256 + 256 * (b div 256 mod 256) + 65536 * (b div 65536 mod 256) + 16777216 * (b div 16777216)"
    by (simp only: ata_lba_def a_def ata.simps) simp
  then have "ata_lba a = b" using lba_split [of b] by (rule trans)
  moreover have "sectors a = sectors (ata_of s h)" by (simp add: a_def)
  moreover have "cmd \<noteq> 0x20 \<Longrightarrow> cmd = 0x30" using cmd by blast
  ultimately show ?thesis by (simp add: Let_def)
qed

text \<open>The words at \<open>p\<close>, and what sending and receiving them does.\<close>

lemma ata_put_sectors:
  "ata_mode a = Writing \<Longrightarrow> ata_index a < 128 \<Longrightarrow>
   ata_lba (ata_put v a) = ata_lba a \<and> ata_mode (ata_put v a) = Writing \<and> ata_index (ata_put v a) = Suc (ata_index a) \<and>
   sectors (ata_put v a) = (sectors a)(ata_lba a := (sectors a (ata_lba a))(ata_index a := v))"
  by (simp add: ata_put_def ata_lba_def)

lemma send_words_ata:
  assumes "ata_mode (ata_of s h) = Writing" "ata_index (ata_of s h) = k" "ata_lba (ata_of s h) = b" "k + n \<le> 128"
  shows "\<exists>h'. send_words n m p h = (p + 4 * int n, h') \<and>
     sectors (ata_of s h') = (sectors (ata_of s h))(b := (\<lambda>i. if k \<le> i \<and> i < k + n
        then load32 m (p + 4 * (int i - int k)) else sectors (ata_of s h) b i))"
  using assms
proof (induction n arbitrary: p h k)
  case (Suc n)
  define h1 where "h1 = outl 0x1f0 (load32 m p) h"
  have a: "ata_of s h1 = ata_put (load32 m p) (ata_of s h)" by (simp add: h1_def outl_def u32_id)
  have put: "ata_mode (ata_of s h1) = Writing" "ata_index (ata_of s h1) = Suc k" "ata_lba (ata_of s h1) = b"
      "sectors (ata_of s h1) = (sectors (ata_of s h))(b := (sectors (ata_of s h) b)(k := load32 m p))"
    using ata_put_sectors [OF Suc.prems(1), of "load32 m p"] Suc.prems by (simp_all add: a)
  obtain h' where h': "send_words n m (p + 4) h1 = (p + 4 + 4 * int n, h')"
      "sectors (ata_of s h') = (sectors (ata_of s h1))(b := (\<lambda>i. if Suc k \<le> i \<and> i < Suc k + n
        then load32 m (p + 4 + 4 * (int i - int (Suc k))) else sectors (ata_of s h1) b i))"
    using Suc.IH [OF put(1,2,3), of "p + 4"] Suc.prems(4) by (metis add_Suc_shift)
  have "sectors (ata_of s h') = (sectors (ata_of s h))(b := (\<lambda>i. if k \<le> i \<and> i < k + Suc n
        then load32 m (p + 4 * (int i - int k)) else sectors (ata_of s h) b i))"
    unfolding h'(2) put(4) by (intro ext) (auto simp: algebra_simps not_le less_Suc_eq)
  moreover have "send_words (Suc n) m p h = (p + 4 * int (Suc n), h')" using h'(1) by (simp add: h1_def)
  ultimately show ?case by blast
qed (auto simp: fun_eq_iff)

text \<open>\<open>filled m p f n\<close>: the memory \<open>m\<close> with \<open>n\<close> words \<open>f 0\<close>, \<open>f 1\<close>, \<open>...\<close> stored from \<open>p\<close> on.\<close>

primrec filled :: "mem \<Rightarrow> int \<Rightarrow> (nat \<Rightarrow> int) \<Rightarrow> nat \<Rightarrow> mem" where
  "filled m p f 0 = m"
| "filled m p f (Suc n) = filled (store32 m p (f 0)) (p + 4) (\<lambda>i. f (Suc i)) n"

lemma filled_frame: "x < p \<or> p + 4 * int n \<le> x \<Longrightarrow> filled m p f n x = m x"
  by (induction n arbitrary: m p f) (auto simp: store32_frame)

lemma load_filled: "i < n \<Longrightarrow> load32 (filled m p f n) (p + 4 * int i) = u32 (f i)"
proof (induction n arbitrary: m p f i)
  case (Suc n)
  show ?case
  proof (cases i)
    case 0
    have "load32 (filled (store32 m p (f 0)) (p + 4) (\<lambda>i. f (Suc i)) n) p = load32 (store32 m p (f 0)) p"
      by (intro load32_cong filled_frame) auto
    then show ?thesis using 0 by (simp add: load32_store32)
  next
    case (Suc j)
    then show ?thesis using Suc.IH [of j "store32 m p (f 0)" "p + 4" "\<lambda>i. f (Suc i)"] Suc.prems
      by (simp add: algebra_simps)
  qed
qed simp

lemma receive_words_ata:
  assumes d: "ata_disk w s" and "ata_mode (ata_of s h) = Reading" "ata_index (ata_of s h) = k" "ata_lba (ata_of s h) = b" "k + n \<le> 128"
  shows "\<exists>h'. receive_words n w p (m, h) = (p + 4 * int n, filled m p (\<lambda>i. u32 (sectors (ata_of s h) b (k + i))) n, h') \<and>
     sectors (ata_of s h') = sectors (ata_of s h)"
  using assms(2-)
proof (induction n arbitrary: p m h k)
  case (Suc n)
  define v where "v = u32 (in32 w h 0x1f0)"
  define h1 where "h1 = In32 0x1f0 v # h"
  have v: "v = u32 (sectors (ata_of s h) b k)" using d Suc.prems unfolding ata_disk_def v_def by auto
  have h1: "ata_mode (ata_of s h1) = Reading" "ata_index (ata_of s h1) = Suc k" "ata_lba (ata_of s h1) = b"
      "sectors (ata_of s h1) = sectors (ata_of s h)"
    using Suc.prems by (simp_all add: h1_def ata_lba_def)
  have "receive_words (Suc n) w p (m, h) = receive_words n w (p + 4) (store32 m p v, h1)"
    by (simp add: inl_def Let_def v_def h1_def)
  then show ?case using Suc.IH [OF h1(1-3), of "p + 4" "store32 m p v"] Suc.prems(4) h1(4)
    by (simp add: v [symmetric] add.assoc del: receive_words.simps)
qed simp

lemma write_block:
  assumes "ata_disk w s" "0 \<le> b" "b < 268435456"
  shows "\<exists>h'. disk_block w True b p (m, h) = Some (p + 512, m, h') \<and>
     sectors (ata_of s h') = (sectors (ata_of s h))(b := (\<lambda>i. if i < 128 then load32 m (p + 4 * int i) else sectors (ata_of s h) b i))"
proof -
  obtain h1 where h1: "wait_disk w h = Some h1" "ata_of s h1 = ata_of s h" using wait_disk_returns [OF assms(1)] by blast
  obtain h2 where h2: "wait_disk w (select_block 0x30 b h1) = Some h2" "ata_of s h2 = ata_of s (select_block 0x30 b h1)"
    using wait_disk_returns [OF assms(1)] by blast
  have a: "ata_mode (ata_of s h2) = Writing" "ata_index (ata_of s h2) = 0" "ata_lba (ata_of s h2) = b"
      "sectors (ata_of s h2) = sectors (ata_of s h)"
    using select_block_ata [OF assms(2,3), where cmd = "0x30" and s = s and h = h1] h1(2) h2(2) by (auto simp: Let_def)
  then obtain h' where h': "send_words 128 m p h2 = (p + 4 * int 128, h')"
      "sectors (ata_of s h') = (sectors (ata_of s h))(b := (\<lambda>i. if 0 \<le> i \<and> i < 0 + 128
        then load32 m (p + 4 * (int i - int 0)) else sectors (ata_of s h) b i))"
    using send_words_ata [OF a(1-3), of 128 m p] unfolding a(4) by auto
  have "disk_block w True b p (m, h) = Some (p + 512, m, h')"
    using h1(1) h2(1) h'(1) by (simp add: disk_block_def)
  moreover have "sectors (ata_of s h') = (sectors (ata_of s h))(b := (\<lambda>i. if i < 128 then load32 m (p + 4 * int i) else sectors (ata_of s h) b i))"
    unfolding h'(2) by (simp add: fun_eq_iff)
  ultimately show ?thesis by blast
qed

lemma read_block:
  assumes "ata_disk w s" "0 \<le> b" "b < 268435456"
  shows "\<exists>h'. disk_block w False b p (m, h) = Some (p + 512, filled m p (\<lambda>i. u32 (sectors (ata_of s h) b i)) 128, h') \<and>
     sectors (ata_of s h') = sectors (ata_of s h)"
proof -
  obtain h1 where h1: "wait_disk w h = Some h1" "ata_of s h1 = ata_of s h" using wait_disk_returns [OF assms(1)] by blast
  obtain h2 where h2: "wait_disk w (select_block 0x20 b h1) = Some h2" "ata_of s h2 = ata_of s (select_block 0x20 b h1)"
    using wait_disk_returns [OF assms(1)] by blast
  have a: "ata_mode (ata_of s h2) = Reading" "ata_index (ata_of s h2) = 0" "ata_lba (ata_of s h2) = b"
      "sectors (ata_of s h2) = sectors (ata_of s h)"
    using select_block_ata [OF assms(2,3), where cmd = "0x20" and s = s and h = h1] h1(2) h2(2) by (auto simp: Let_def)
  then obtain h' where h': "receive_words 128 w p (m, h2) = (p + 4 * int 128, filled m p (\<lambda>i. u32 (sectors (ata_of s h) b (0 + i))) 128, h')"
      "sectors (ata_of s h') = sectors (ata_of s h)"
    using receive_words_ata [OF assms(1) a(1-3), of 128 p m] unfolding a(4) by auto
  have "disk_block w False b p (m, h) = Some (p + 512, filled m p (\<lambda>i. u32 (sectors (ata_of s h) b i)) 128, h')"
    using h1(1) h2(1) h'(1) by (simp add: disk_block_def)
  then show ?thesis using h'(2) by blast
qed

subsection \<open>Runs of blocks\<close>

text \<open>Word \<open>i\<close> of block \<open>k\<close> of a buffer.\<close>

abbreviation (input) word_at :: "int \<Rightarrow> nat \<Rightarrow> nat \<Rightarrow> int" where
  "word_at p k i \<equiv> p + 512 * int k + 4 * int i"

lemma write_loop:
  assumes d: "ata_disk w s" and b: "0 \<le> b" "b + int n \<le> 268435456"
  shows "\<exists>h'. disk_loop n w True b p (m, h) = Some (m, h') \<and>
     (\<forall>k < n. \<forall>i < 128. sectors (ata_of s h') (b + int k) i = load32 m (word_at p k i)) \<and>
     (\<forall>c. c < b \<or> b + int n \<le> c \<longrightarrow> sectors (ata_of s h') c = sectors (ata_of s h) c)"
  using b
proof (induction n arbitrary: b p h)
  case (Suc n)
  have bb: "b < 268435456" "u32 (b + 1) = b + 1" using Suc.prems by (auto simp: u32_id)
  obtain h1 where h1: "disk_block w True b p (m, h) = Some (p + 512, m, h1)"
      "sectors (ata_of s h1) = (sectors (ata_of s h))(b := (\<lambda>i. if i < 128 then load32 m (p + 4 * int i) else sectors (ata_of s h) b i))"
    using write_block [OF d Suc.prems(1) bb(1)] by blast
  obtain h2 where h2: "disk_loop n w True (b + 1) (p + 512) (m, h1) = Some (m, h2)"
      "\<forall>k < n. \<forall>i < 128. sectors (ata_of s h2) (b + 1 + int k) i = load32 m (word_at (p + 512) k i)"
      "\<forall>c. c < b + 1 \<or> b + 1 + int n \<le> c \<longrightarrow> sectors (ata_of s h2) c = sectors (ata_of s h1) c"
    using Suc.IH [of "b + 1" "p + 512" h1] Suc.prems by auto
  have "sectors (ata_of s h2) (b + int k) i = load32 m (word_at p k i)" if "k < Suc n" "i < 128" for k i
  proof (cases k)
    case 0
    then show ?thesis using h2(3) h1(2) that(2) by simp
  next
    case (Suc j)
    then show ?thesis using h2(2) [rule_format, of j i] that by (simp add: algebra_simps)
  qed
  moreover have "sectors (ata_of s h2) c = sectors (ata_of s h) c" if "c < b \<or> b + int (Suc n) \<le> c" for c
    using h2(3) [rule_format, of c] h1(2) that by auto
  moreover have "disk_loop (Suc n) w True b p (m, h) = Some (m, h2)" using h1(1) h2(1) bb(2) by simp
  ultimately show ?case by blast
qed simp

lemma read_loop:
  assumes d: "ata_disk w s" and b: "0 \<le> b" "b + int n \<le> 268435456"
  shows "\<exists>m' h'. disk_loop n w False b p (m, h) = Some (m', h') \<and>
     (\<forall>k < n. \<forall>i < 128. load32 m' (word_at p k i) = u32 (sectors (ata_of s h) (b + int k) i)) \<and>
     (\<forall>x. x < p \<or> p + 512 * int n \<le> x \<longrightarrow> m' x = m x) \<and> sectors (ata_of s h') = sectors (ata_of s h)"
  using b
proof (induction n arbitrary: b p m h)
  case (Suc n)
  have bb: "b < 268435456" "u32 (b + 1) = b + 1" using Suc.prems by (auto simp: u32_id)
  let ?m = "filled m p (\<lambda>i. u32 (sectors (ata_of s h) b i)) 128"
  obtain h1 where h1: "disk_block w False b p (m, h) = Some (p + 512, ?m, h1)" "sectors (ata_of s h1) = sectors (ata_of s h)"
    using read_block [OF d Suc.prems(1) bb(1)] by blast
  obtain m2 h2 where h2: "disk_loop n w False (b + 1) (p + 512) (?m, h1) = Some (m2, h2)"
      "\<forall>k < n. \<forall>i < 128. load32 m2 (word_at (p + 512) k i) = u32 (sectors (ata_of s h) (b + 1 + int k) i)"
      "\<forall>x. x < p + 512 \<or> p + 512 + 512 * int n \<le> x \<longrightarrow> m2 x = ?m x" "sectors (ata_of s h2) = sectors (ata_of s h)"
    using Suc.IH [of "b + 1" "p + 512" ?m h1] Suc.prems h1(2) by auto
  have "load32 m2 (word_at p k i) = u32 (sectors (ata_of s h) (b + int k) i)" if "k < Suc n" "i < 128" for k i
  proof (cases k)
    case 0
    have "load32 m2 (p + 4 * int i) = load32 ?m (p + 4 * int i)" using h2(3) that(2) by (intro load32_cong) auto
    then show ?thesis using load_filled [OF that(2)] 0 by (simp add: u32_id)
  next
    case (Suc j)
    then show ?thesis using h2(2) [rule_format, of j i] that by (simp add: algebra_simps)
  qed
  moreover have "m2 x = m x" if "x < p \<or> p + 512 * int (Suc n) \<le> x" for x
    using h2(3) filled_frame [of x p 128 m] that by auto
  moreover have "disk_loop (Suc n) w False b p (m, h) = Some (m2, h2)" using h1(1) h2(1) bb(2) by simp
  ultimately show ?case using h2(4) by blast
qed simp

subsection \<open>The block store\<close>

lemma byte_digit:
  fixes a b x y :: int
  assumes "a + 256 * x = b + 256 * y" "0 \<le> a" "a < 256" "0 \<le> b" "b < 256"
  shows "a = b" "x = y"
proof -
  have "(a + 256 * x) mod 256 = a" "(b + 256 * y) mod 256 = b" using assms(2-5) by simp_all
  then show "a = b" using assms(1) by simp
  then show "x = y" using assms(1) by simp
qed

lemma load32_eq_bytes:
  assumes "load32 m a = load32 m' b" "0 \<le> j" "j < 4"
  shows "m (a + j) = m' (b + j)"
proof -
  define d where "d = (\<lambda>(m :: mem) a j. uint (m (a + j)))"
  have r: "0 \<le> d m a j" "d m a j < 256" for m a j using byte_range by (simp_all add: d_def)
  have l: "load32 m a = d m a 0 + 256 * (d m a 1 + 256 * (d m a 2 + 256 * d m a 3))" for m a
    by (simp add: load32_def d_def)
  note e0 = assms(1) [unfolded l]
  note d0 = byte_digit [OF e0 r r]
  note d1 = byte_digit [OF d0(2) r r]
  note d2 = byte_digit [OF d1(2) r r]
  have "m (a + i) = m' (b + i)" if "d m a i = d m' b i" for i using that by (simp add: d_def word_uint_eq_iff)
  moreover have "j = 0 \<or> j = 1 \<or> j = 2 \<or> j = 3" using assms(2,3) by linarith
  ultimately show ?thesis using d0(1) d1(1) d2 by metis
qed

lemma byte_in_block:
  assumes "0 \<le> j" "j < 512 * int n"
  obtains k i r where "k < n" "i < 128" "0 \<le> r" "r < 4" "\<And>p. p + j = word_at p k i + r"
proof
  have q: "0 \<le> j div 512" "0 \<le> j mod 512" "0 \<le> j mod 512 div 4" using assms(1) by (auto simp: pos_imp_zdiv_nonneg_iff)
  show "nat (j div 512) < n" using div_below [of 512 j "int n"] assms q(1) by linarith
  show "nat (j mod 512 div 4) < 128" using div_below [of 4 "j mod 512" 128] q(3) by simp
  show "0 \<le> j mod 4" "j mod 4 < 4" by simp_all
  have "j mod 512 mod 4 = j mod 4" by (simp add: mod_mod_cancel)
  then have "j = 512 * (j div 512) + (4 * (j mod 512 div 4) + j mod 4)"
    using mult_div_mod_eq [of 512 j] mult_div_mod_eq [of 4 "j mod 512"] by linarith
  then show "p + j = word_at p (nat (j div 512)) (nat (j mod 512 div 4)) + j mod 4" for p using q by simp
qed

lemma blkio_write:
  assumes "ata_disk w s" "0 \<le> b" "0 \<le> n" "b + n \<le> 268435456"
  obtains h' where "disk_blkio w \<lparr>bio_write = True, bio_buf = p, bio_blkno = b, bio_blkcnt = n\<rparr> (m, h) = Some (m, h')"
    "\<And>k i. k < nat n \<Longrightarrow> i < 128 \<Longrightarrow> sectors (ata_of s h') (b + int k) i = load32 m (word_at p k i)"
    "\<And>c. c < b \<or> b + n \<le> c \<Longrightarrow> sectors (ata_of s h') c = sectors (ata_of s h) c"
proof -
  have u: "u32 n = n" "u32 b = b" using assms by (auto intro!: u32_id)
  obtain h' where "disk_loop (nat n) w True b p (m, h) = Some (m, h')"
      "\<forall>k < nat n. \<forall>i < 128. sectors (ata_of s h') (b + int k) i = load32 m (word_at p k i)"
      "\<forall>c. c < b \<or> b + int (nat n) \<le> c \<longrightarrow> sectors (ata_of s h') c = sectors (ata_of s h) c"
    using write_loop [OF assms(1), of b "nat n" p m h] assms(2-4) by auto
  then show thesis using u assms(3) by (intro that [of h']) (auto simp: disk_blkio_def)
qed

lemma blkio_read:
  assumes "ata_disk w s" "0 \<le> b" "0 \<le> n" "b + n \<le> 268435456"
  obtains m' h' where "disk_blkio w \<lparr>bio_write = False, bio_buf = p, bio_blkno = b, bio_blkcnt = n\<rparr> (m, h) = Some (m', h')"
    "\<And>k i. k < nat n \<Longrightarrow> i < 128 \<Longrightarrow> load32 m' (word_at p k i) = u32 (sectors (ata_of s h) (b + int k) i)"
    "\<And>x. x < p \<or> p + 512 * n \<le> x \<Longrightarrow> m' x = m x" "sectors (ata_of s h') = sectors (ata_of s h)"
proof -
  have u: "u32 n = n" "u32 b = b" using assms by (auto intro!: u32_id)
  obtain m' h' where "disk_loop (nat n) w False b p (m, h) = Some (m', h')"
      "\<forall>k < nat n. \<forall>i < 128. load32 m' (word_at p k i) = u32 (sectors (ata_of s h) (b + int k) i)"
      "\<forall>x. x < p \<or> p + 512 * int (nat n) \<le> x \<longrightarrow> m' x = m x" "sectors (ata_of s h') = sectors (ata_of s h)"
    using read_loop [OF assms(1), of b "nat n" p m h] assms(2-4) by auto
  then show thesis using u assms(3) by (intro that [of m' h']) (auto simp: disk_blkio_def)
qed

text \<open>A disk with given contents, ready on every other poll.\<close>

definition disk_with :: "(int \<Rightarrow> nat \<Rightarrow> int) \<Rightarrow> hardware" where
  "disk_with s = \<lparr>in8 = (\<lambda>h p. case h of In8 _ _ # _ \<Rightarrow> 0x50 | _ \<Rightarrow> 0xd0),
     in32 = (\<lambda>h p. let a = ata_of s h in u32 (sectors a (ata_lba a) (ata_index a))), tsc = (\<lambda>h. 0), mmio = (\<lambda>h a. 0)\<rparr>"

lemma disk_with: "ata_disk (disk_with s) s"
proof -
  have "ready_after (disk_with s) 1 h" for h by (simp add: disk_with_def)
  then have "\<exists>n. ready_after (disk_with s) n h" for h by blast
  moreover have "u32 (in32 (disk_with s) h 0x1f0) =
      u32 (sectors (ata_of s h) (ata_lba (ata_of s h)) (ata_index (ata_of s h)))" for h
    by (simp add: disk_with_def Let_def u32_id)
  ultimately show ?thesis unfolding ata_disk_def by blast
qed

abbreviation (input) slow_disk :: hardware where
  "slow_disk \<equiv> disk_with (\<lambda>_ _. 0)"

lemmas slow_disk = disk_with [of "\<lambda>_ _. 0"]

text \<open>C26. On a disk that follows the ATA protocol \<open>disk_blkio\<close> is a block store: a write returns and puts the
  buffer's bytes into exactly the named blocks, a read returns and puts exactly the blocks' bytes into
  the buffer, and a read leaves the disk as it is.\<close>

theorem disk_blkio_correct:
  assumes "ata_disk w s" "0 \<le> b" "0 \<le> n" "b + n \<le> 268435456"
  shows "(\<exists>h'. disk_blkio w \<lparr>bio_write = True, bio_buf = p, bio_blkno = b, bio_blkcnt = n\<rparr> (m, h) = Some (m, h') \<and>
       (\<forall>k < nat n. \<forall>i < 128. sectors (ata_of s h') (b + int k) i = load32 m (p + 512 * int k + 4 * int i)) \<and>
       (\<forall>c. c < b \<or> b + n \<le> c \<longrightarrow> sectors (ata_of s h') c = sectors (ata_of s h) c)) \<and>
     (\<exists>m' h'. disk_blkio w \<lparr>bio_write = False, bio_buf = p, bio_blkno = b, bio_blkcnt = n\<rparr> (m, h) = Some (m', h') \<and>
       (\<forall>k < nat n. \<forall>i < 128. load32 m' (p + 512 * int k + 4 * int i) = u32 (sectors (ata_of s h) (b + int k) i)) \<and>
       (\<forall>x. x < p \<or> p + 512 * n \<le> x \<longrightarrow> m' x = m x) \<and> sectors (ata_of s h') = sectors (ata_of s h))"
  by (rule conjI; rule blkio_write [OF assms, of p m h] blkio_read [OF assms, of p m h]; blast)

theorem disk_blkio_correct_witness:
  "\<exists>h'. disk_blkio slow_disk \<lparr>bio_write = True, bio_buf = 4096, bio_blkno = 7, bio_blkcnt = 1\<rparr> (\<lambda>x. word_of_int x, []) =
     Some (\<lambda>x. word_of_int x, h') \<and> sectors (ata_of (\<lambda>_ _. 0) h') 7 1 = 0x07060504"
proof -
  have "load32 (\<lambda>x. word_of_int x) 4100 = 0x07060504" by (simp add: load32_def uint_byte)
  then show ?thesis using disk_blkio_correct [OF slow_disk, of 7 1 4096 "\<lambda>x. word_of_int x" "[]"] by fastforce
qed

text \<open>Blocks that were written are read back byte for byte, into any buffer and whatever happened to the
  memory in between.\<close>

lemma disk_write_read:
  assumes "ata_disk w s" "0 \<le> b" "0 \<le> n" "b + n \<le> 268435456"
  shows "\<exists>h1. disk_blkio w \<lparr>bio_write = True, bio_buf = src, bio_blkno = b, bio_blkcnt = n\<rparr> (m, h) = Some (m, h1) \<and>
     (\<forall>m2. \<exists>m3 h3. disk_blkio w \<lparr>bio_write = False, bio_buf = dst, bio_blkno = b, bio_blkcnt = n\<rparr> (m2, h1) = Some (m3, h3) \<and>
        (\<forall>j \<in> {0..<512 * n}. m3 (dst + j) = m (src + j)) \<and> (\<forall>x. x \<notin> {dst..<dst + 512 * n} \<longrightarrow> m3 x = m2 x))"
proof (rule blkio_write [OF assms, of src m h])
  fix h1
  assume wr: "disk_blkio w \<lparr>bio_write = True, bio_buf = src, bio_blkno = b, bio_blkcnt = n\<rparr> (m, h) = Some (m, h1)"
    and blocks: "\<And>k i. k < nat n \<Longrightarrow> i < 128 \<Longrightarrow> sectors (ata_of s h1) (b + int k) i = load32 m (word_at src k i)"
  have "\<exists>m3 h3. disk_blkio w \<lparr>bio_write = False, bio_buf = dst, bio_blkno = b, bio_blkcnt = n\<rparr> (m2, h1) = Some (m3, h3) \<and>
        (\<forall>j \<in> {0..<512 * n}. m3 (dst + j) = m (src + j)) \<and> (\<forall>x. x \<notin> {dst..<dst + 512 * n} \<longrightarrow> m3 x = m2 x)" for m2
  proof (rule blkio_read [OF assms, of dst m2 h1])
    fix m3 h3
    assume rd: "disk_blkio w \<lparr>bio_write = False, bio_buf = dst, bio_blkno = b, bio_blkcnt = n\<rparr> (m2, h1) = Some (m3, h3)"
      and words: "\<And>k i. k < nat n \<Longrightarrow> i < 128 \<Longrightarrow> load32 m3 (word_at dst k i) = u32 (sectors (ata_of s h1) (b + int k) i)"
      and rest: "\<And>x. x < dst \<or> dst + 512 * n \<le> x \<Longrightarrow> m3 x = m2 x"
    have "m3 (dst + j) = m (src + j)" if j: "j \<in> {0..<512 * n}" for j
    proof (rule byte_in_block [of j "nat n"])
      fix k i r assume a: "k < nat n" "i < 128" "0 \<le> r" "r < 4" "\<And>p. p + j = word_at p k i + r"
      have "load32 m3 (word_at dst k i) = load32 m (word_at src k i)"
        using words [OF a(1,2)] blocks [OF a(1,2)] by (simp add: u32_id)
      then show ?thesis using load32_eq_bytes a(3,4) unfolding a(5) by blast
    qed (use j in auto)
    then show ?thesis using rd rest by auto
  qed
  then show ?thesis using wr by blast
qed

theorem disk_write_read_witness:
  "\<exists>h1 m3 h3. disk_blkio slow_disk \<lparr>bio_write = True, bio_buf = 4096, bio_blkno = 7, bio_blkcnt = 2\<rparr> (\<lambda>x. word_of_int x, []) =
       Some (\<lambda>x. word_of_int x, h1) \<and>
     disk_blkio slow_disk \<lparr>bio_write = False, bio_buf = 8192, bio_blkno = 7, bio_blkcnt = 2\<rparr> (\<lambda>x. 0, h1) = Some (m3, h3) \<and>
     m3 8200 = 8 \<and> m3 8191 = 0"
proof -
  obtain h1 where h1: "disk_blkio slow_disk \<lparr>bio_write = True, bio_buf = 4096, bio_blkno = 7, bio_blkcnt = 2\<rparr> (\<lambda>x. word_of_int x, []) =
       Some (\<lambda>x. word_of_int x, h1)"
    and "\<forall>m2. \<exists>m3 h3. disk_blkio slow_disk \<lparr>bio_write = False, bio_buf = 8192, bio_blkno = 7, bio_blkcnt = 2\<rparr> (m2, h1) = Some (m3, h3) \<and>
        (\<forall>j \<in> {0..<512 * 2}. m3 (8192 + j) = word_of_int (4096 + j)) \<and> (\<forall>x. x \<notin> {8192..<8192 + 512 * 2} \<longrightarrow> m3 x = m2 x)"
    using disk_write_read [OF slow_disk, of 7 2 4096 "\<lambda>x. word_of_int x" "[]" 8192] by auto
  then obtain m3 h3 where rd: "disk_blkio slow_disk \<lparr>bio_write = False, bio_buf = 8192, bio_blkno = 7, bio_blkcnt = 2\<rparr> (\<lambda>x. 0, h1) = Some (m3, h3)"
      "\<forall>j \<in> {0..<512 * 2}. m3 (8192 + j) = word_of_int (4096 + j)" "\<forall>x. x \<notin> {8192..<8192 + 512 * 2} \<longrightarrow> m3 x = 0"
    by meson
  have "m3 (8192 + 8) = word_of_int (4096 + 8)" using rd(2) by (rule bspec) simp
  moreover have "word_of_int (4096 + 8) = (8 :: 8 word)" by simp
  ultimately show ?thesis using h1 rd(1,3) by auto
qed

end
