(* ===== verification/Am_Timer.thy ===== *)
theory Am_Timer
  imports Am_Io
begin

unbundle bit_operations_syntax

text \<open>
  The timer of \<open>abstract-machine/am/src/x86/qemu/ioe.c\<close>: the calendar read from the real-time clock (a
  register is selected through port \<open>0x70\<close> and read, in binary coded decimal, from port \<open>0x71\<close>), and the
  up-time counted by the time stamp counter.
\<close>

subsection \<open>The driver\<close>

record rtc =
  year :: int
  month :: int
  day :: int
  hour :: int
  minute :: int
  second :: int

definition read_rtc :: "hardware \<Rightarrow> int \<Rightarrow> history \<Rightarrow> int \<times> history" where
  "read_rtc w reg h =
     (let h = outb 0x70 reg h; (ret, h) = inb w 0x71 h in ((ret AND 0xf) + ret div 2 ^ 4 * 10, h))"

text \<open>
  \<open>read_rtc_async\<close> makes its six calls in the designated initializers of one structure, and C leaves their order
  open.  The order is a parameter: \<open>ev h\<close> lists the registers in the order in which an evaluation after the history
  \<open>h\<close> reads them.
\<close>

type_synonym eval_order = "history \<Rightarrow> int list"

definition rtc_order :: "int list \<Rightarrow> bool" where
  "rtc_order rs \<longleftrightarrow> distinct rs \<and> set rs = {0, 2, 4, 7, 8, 9}"

fun read_fields :: "hardware \<Rightarrow> int list \<Rightarrow> history \<Rightarrow> (int \<Rightarrow> int) \<times> history" where
  "read_fields w [] h = (\<lambda>_. 0, h)"
| "read_fields w (r # rs) h = (let (v, h) = read_rtc w r h; (f, h) = read_fields w rs h in (f(r := v), h))"

definition read_rtc_async :: "eval_order \<Rightarrow> hardware \<Rightarrow> history \<Rightarrow> rtc \<times> history" where
  "read_rtc_async ev w h =
     (let (f, h) = read_fields w (ev h) h
      in (\<lparr>year = f 9 + 2000, month = f 8, day = f 7, hour = f 4, minute = f 2, second = f 0\<rparr>, h))"

definition text_order :: eval_order where
  "text_order h = [0, 2, 4, 7, 8, 9]"

text \<open>The delay between the two readings touches no device.\<close>

partial_function (option) wait_sec :: "eval_order \<Rightarrow> hardware \<Rightarrow> history \<Rightarrow> (rtc \<times> history) option" where
  "wait_sec ev w h =
     (let (t0, h) = read_rtc_async ev w h; (t1, h) = read_rtc_async ev w h
      in if second t0 \<noteq> second t1 then Some (t1, h) else wait_sec ev w h)"

partial_function (option) estimate_freq :: "eval_order \<Rightarrow> hardware \<Rightarrow> history \<Rightarrow> (int \<times> history) option" where
  "estimate_freq ev w h =
     Option.bind (wait_sec ev w h) (\<lambda>(rtc1, h).
     case rdtsc w h of (tsc1, h) \<Rightarrow>
     Option.bind (wait_sec ev w h) (\<lambda>(rtc2, h).
     case rdtsc w h of (tsc2, h) \<Rightarrow>
       let t1 = u64 (minute rtc1 * 60 + second rtc1); t2 = u64 (minute rtc2 * 60 + second rtc2)
       in if t1 \<ge> t2 then estimate_freq ev w h
          else Some (u32 (u64 (tsc2 - tsc1) div 2 ^ 20 div (t2 - t1)), h)))"

partial_function (option) timer_rtc :: "eval_order \<Rightarrow> hardware \<Rightarrow> history \<Rightarrow> (rtc \<times> history) option" where
  "timer_rtc ev w h =
     (let (rtc, h) = read_rtc_async ev w h; (tmp, h) = read_rtc w 0 h
      in if tmp \<noteq> second rtc then timer_rtc ev w h else Some (rtc, h))"

record timer =
  boot_date :: rtc
  freq_mhz :: int
  uptsc :: int

definition timer_init :: "eval_order \<Rightarrow> hardware \<Rightarrow> history \<Rightarrow> (timer \<times> history) option" where
  "timer_init ev w h =
     Option.bind (estimate_freq ev w h) (\<lambda>(f, h).
     Option.bind (timer_rtc ev w h) (\<lambda>(d, h).
       let (t, h) = rdtsc w h in Some (\<lparr>boot_date = d, freq_mhz = f, uptsc = t\<rparr>, h)))"

definition timer_uptime :: "hardware \<Rightarrow> timer \<Rightarrow> history \<Rightarrow> (int \<times> history) cres" where
  "timer_uptime w t h =
     (let (now, h) = rdtsc w h
      in if freq_mhz t = 0 then cfail Div_Zero else cret (u64 (now - uptsc t) div freq_mhz t, h))"

subsection \<open>The clock\<close>

text \<open>
  The device: the last value written to port \<open>0x70\<close> selects the register.  The time, in seconds, after
  \<open>n\<close> accesses is \<open>clock n\<close>; \<open>cal\<close> is the calendar, with two digits of the year.
\<close>

fun rtc_index :: "history \<Rightarrow> int" where
  "rtc_index [] = 0"
| "rtc_index (Out8 p v # h) = (if p = 0x70 then v else rtc_index h)"
| "rtc_index (e # h) = rtc_index h"

definition bcd :: "int \<Rightarrow> int" where
  "bcd x = 16 * (x div 10) + x mod 10"

definition rtc_field :: "rtc \<Rightarrow> int \<Rightarrow> int" where
  "rtc_field t r =
     (if r = 0 then second t else if r = 2 then minute t else if r = 4 then hour t
      else if r = 7 then day t else if r = 8 then month t else year t)"

definition rtc_device :: "hardware \<Rightarrow> (int \<Rightarrow> rtc) \<Rightarrow> (nat \<Rightarrow> int) \<Rightarrow> bool" where
  "rtc_device w cal clock \<longleftrightarrow>
     (\<forall>h. rtc_index h \<in> {0, 2, 4, 7, 8, 9} \<longrightarrow>
        in8 w h 0x71 mod 256 = bcd (rtc_field (cal (clock (length h))) (rtc_index h))) \<and>
     (\<forall>t r. 0 \<le> rtc_field (cal t) r \<and> rtc_field (cal t) r < 100) \<and>
     (\<forall>t. second (cal t) = t mod 60) \<and> mono clock"

lemma bcd_digits: "0 \<le> x \<Longrightarrow> x < 100 \<Longrightarrow> (bcd x AND 0xf) + bcd x div 2 ^ 4 * 10 = x"
proof -
  assume x: "0 \<le> x" "x < 100"
  have m: "0 \<le> x mod 10" "x mod 10 < 16" using pos_mod_bound [of 10 x] by auto
  have "bcd x AND 0xf = bcd x mod 2 ^ 4"
    using take_bit_eq_mask [of 4 "bcd x"] by (simp add: take_bit_eq_mod mask_eq_exp_minus_1)
  also have "\<dots> = x mod 10" using m by (simp add: bcd_def)
  finally have "bcd x AND 0xf = x mod 10" .
  moreover have "bcd x div 2 ^ 4 = x div 10" using m by (simp add: bcd_def)
  ultimately show ?thesis by simp
qed

lemma read_rtc_reads:
  assumes "rtc_device w cal clock" "r \<in> {0, 2, 4, 7, 8, 9}"
  shows "\<exists>h'. read_rtc w r h = (rtc_field (cal (clock (length h + 1))) r, h') \<and> length h' = length h + 2"
proof -
  let ?h = "Out8 0x70 r # h" and ?x = "rtc_field (cal (clock (length h + 1))) r"
  have "rtc_index ?h = r" by simp
  then have "in8 w ?h 0x71 mod 256 = bcd ?x" using assms unfolding rtc_device_def by (metis length_Cons Suc_eq_plus1)
  moreover have "0 \<le> ?x" "?x < 100" using assms(1) unfolding rtc_device_def by blast+
  moreover have "outb 0x70 r h = ?h" using assms(2) by (auto simp: outb_def)
  ultimately show ?thesis using bcd_digits by (auto simp: read_rtc_def inb_def Let_def)
qed

lemma read_fields_reads:
  assumes "rtc_device w cal clock" "distinct rs" "set rs \<subseteq> {0, 2, 4, 7, 8, 9}"
  shows "\<exists>f h'. read_fields w rs h = (f, h') \<and> length h' = length h + 2 * length rs \<and>
     (\<forall>i < length rs. f (rs ! i) = rtc_field (cal (clock (length h + 2 * i + 1))) (rs ! i))"
  using assms(2,3)
proof (induction rs arbitrary: h)
  case (Cons r rs)
  obtain h1 where h1: "read_rtc w r h = (rtc_field (cal (clock (length h + 1))) r, h1)" "length h1 = length h + 2"
    using read_rtc_reads [OF assms(1), of r h] Cons.prems(2) by auto
  obtain f h2 where f: "read_fields w rs h1 = (f, h2)" "length h2 = length h1 + 2 * length rs"
    "\<forall>i < length rs. f (rs ! i) = rtc_field (cal (clock (length h1 + 2 * i + 1))) (rs ! i)"
    using Cons.IH [of h1] Cons.prems by auto
  have "(f(r := rtc_field (cal (clock (length h + 1))) r)) ((r # rs) ! i) =
      rtc_field (cal (clock (length h + 2 * i + 1))) ((r # rs) ! i)" if "i < length (r # rs)" for i
  proof (cases i)
    case (Suc j)
    then have "rs ! j \<noteq> r" using that Cons.prems(1) by (auto simp: in_set_conv_nth)
    then show ?thesis using that Suc f(3) h1(2) by simp
  qed simp
  then show ?case using h1 f(1,2) by simp
qed simp

lemma rtc_order_length: "rtc_order rs \<Longrightarrow> length rs = 6"
  using distinct_card [of rs] by (simp add: rtc_order_def)

text \<open>Every field is read once, at the register's place in the order.\<close>

lemma read_rtc_async_reads:
  assumes dev: "rtc_device w cal clock" and ord: "rtc_order (ev h)"
  shows "\<exists>r h' (at :: int \<Rightarrow> nat). read_rtc_async ev w h = (r, h') \<and> length h' = length h + 12 \<and>
     (\<forall>x. length h + 1 \<le> at x \<and> at x \<le> length h + 11) \<and> (hd (ev h) = 0 \<longrightarrow> at 0 = length h + 1) \<and>
     r = \<lparr>year = year (cal (clock (at 9))) + 2000, month = month (cal (clock (at 8))), day = day (cal (clock (at 7))),
          hour = hour (cal (clock (at 4))), minute = minute (cal (clock (at 2))), second = second (cal (clock (at 0)))\<rparr>"
proof -
  let ?rs = "ev h" and ?n = "length h"
  have rs: "distinct ?rs" "set ?rs = {0, 2, 4, 7, 8, 9}" "length ?rs = 6"
    using ord rtc_order_length [OF ord] by (auto simp: rtc_order_def)
  obtain f h' where f: "read_fields w ?rs h = (f, h')" "length h' = ?n + 2 * length ?rs"
    "\<forall>i < length ?rs. f (?rs ! i) = rtc_field (cal (clock (?n + 2 * i + 1))) (?rs ! i)"
    using read_fields_reads [OF dev rs(1), of h] rs(2) by auto
  have "\<exists>i < 6. x \<in> set ?rs \<longrightarrow> f x = rtc_field (cal (clock (?n + 2 * i + 1))) x \<and> (?rs ! i = x)" for x
  proof (cases "x \<in> set ?rs")
    case True
    then obtain i where "i < length ?rs" "?rs ! i = x" by (auto simp: in_set_conv_nth)
    then show ?thesis using f(3) rs(3) by (intro exI [of _ i]) auto
  qed (intro exI [of _ 0], simp)
  then obtain pos where pos: "\<And>x. pos x < 6"
    "\<And>x. x \<in> set ?rs \<Longrightarrow> f x = rtc_field (cal (clock (?n + 2 * pos x + 1))) x \<and> ?rs ! pos x = x" by metis
  define at where "at = (\<lambda>x. ?n + 2 * pos x + 1)"
  have fx: "f x = rtc_field (cal (clock (at x))) x" if "x \<in> {0, 2, 4, 7, 8, 9}" for x
    using pos(2) [of x] that by (simp add: at_def rs(2))
  have "at 0 = ?n + 1" if "hd ?rs = 0"
  proof -
    have "?rs ! pos 0 = 0" "?rs ! 0 = 0" using pos(2) [of 0] that rs by (cases ?rs; simp)+
    then show ?thesis using nth_eq_iff_index_eq [OF rs(1), of "pos 0" 0] pos(1) [of 0] rs(3) by (simp add: at_def)
  qed
  moreover have "?n + 1 \<le> at x \<and> at x \<le> ?n + 11" for x using pos(1) [of x] by (simp add: at_def)
  ultimately show ?thesis using f(1,2) rs(3) fx
    by (intro exI [of _ "fst (read_rtc_async ev w h)"] exI [of _ h'] exI [of _ at]) (simp add: read_rtc_async_def rtc_field_def)
qed

text \<open>The calendar as the driver reports it.\<close>

definition rtc_of :: "(int \<Rightarrow> rtc) \<Rightarrow> int \<Rightarrow> rtc" where
  "rtc_of cal t = (cal t)\<lparr>year := year (cal t) + 2000\<rparr>"

lemma same_second: "a \<le> b \<Longrightarrow> b \<le> a + 1 \<Longrightarrow> b mod 60 = a mod 60 \<longleftrightarrow> b = a" for a b :: int
proof -
  assume "a \<le> b" "b \<le> a + 1"
  moreover have "(a + 1) mod 60 \<noteq> a mod 60" by (simp add: mod_eq_dvd_iff)
  ultimately have "b = a \<or> b = a + 1 \<and> (a + 1) mod 60 \<noteq> a mod 60" by linarith
  then show ?thesis by auto
qed

text \<open>One round: fourteen accesses, and the result when the seconds agree.\<close>

lemma timer_rtc_round:
  assumes dev: "rtc_device w cal clock" and ord: "rtc_order (ev h)" and slow: "clock (length h + 14) \<le> clock (length h) + 1"
  shows "\<exists>r h' k. length h' = length h + 14 \<and> length h + 1 \<le> k \<and> k \<le> length h + 11 \<and>
     second r = second (cal (clock k)) \<and>
     (hd (ev h) = 0 \<longrightarrow> clock (length h + 13) = clock k \<longrightarrow> r = rtc_of cal (clock k)) \<and>
     timer_rtc ev w h = (if clock (length h + 13) = clock k then Some (r, h') else timer_rtc ev w h')"
proof -
  let ?n = "length h"
  have mono: "mono clock" and sec: "\<And>t. second (cal t) = t mod 60" using dev unfolding rtc_device_def by blast+
  have le: "clock i \<le> clock j" if "i \<le> j" for i j using mono that by (rule monoD)
  obtain r h1 and at :: "int \<Rightarrow> nat" where r: "read_rtc_async ev w h = (r, h1)" "length h1 = ?n + 12"
    "\<And>x. ?n + 1 \<le> at x \<and> at x \<le> ?n + 11" "hd (ev h) = 0 \<longrightarrow> at 0 = ?n + 1"
    "r = \<lparr>year = year (cal (clock (at 9))) + 2000, month = month (cal (clock (at 8))), day = day (cal (clock (at 7))),
       hour = hour (cal (clock (at 4))), minute = minute (cal (clock (at 2))), second = second (cal (clock (at 0)))\<rparr>"
    using read_rtc_async_reads [OF dev, of ev h, OF ord] by blast
  obtain h2 where h2: "read_rtc w 0 h1 = (second (cal (clock (?n + 13))), h2)" "length h2 = ?n + 14"
    using read_rtc_reads [OF dev, of 0 h1] r(2) by (auto simp: rtc_field_def eval_nat_numeral)
  have a0: "?n + 1 \<le> at 0" "at 0 \<le> ?n + 11" using r(3) by auto
  then have "clock (?n + 13) \<le> clock (at 0) + 1" using slow le [of ?n "at 0"] le [of "?n + 13" "?n + 14"] by simp
  then have "clock (?n + 13) mod 60 = clock (at 0) mod 60 \<longleftrightarrow> clock (?n + 13) = clock (at 0)"
    using le [of "at 0" "?n + 13"] a0 by (intro same_second) simp_all
  then have iff: "second (cal (clock (?n + 13))) = second r \<longleftrightarrow> clock (?n + 13) = clock (at 0)"
    unfolding r(5) rtc.simps sec .
  have "r = rtc_of cal (clock (at 0))" if "hd (ev h) = 0" "clock (?n + 13) = clock (at 0)"
  proof -
    have "clock (at x) = clock (at 0)" for x
      using le [of "at 0" "at x"] le [of "at x" "?n + 13"] r(3) [of x] r(4) that by force
    from this [of 9] this [of 8] this [of 7] this [of 4] this [of 2] show ?thesis
      by (cases "cal (clock (at 0))") (simp add: r(5) rtc_of_def)
  qed
  moreover have "second r = second (cal (clock (at 0)))" by (simp add: r(5))
  ultimately show ?thesis using r(1) h2 iff a0 by (subst timer_rtc.simps) auto
qed

text \<open>A clock for the witness: a second every 28 accesses, starting just before midnight.\<close>

definition demo_cal :: "int \<Rightarrow> rtc" where
  "demo_cal t = \<lparr>year = 26, month = 5, day = 17 + (t div 86400) mod 2, hour = t div 3600 mod 24, minute = t div 60 mod 60, second = t mod 60\<rparr>"

definition demo_clock :: "nat \<Rightarrow> int" where
  "demo_clock n = 86399 + (int n + 20) div 28"

definition demo_rtc :: hardware where
  "demo_rtc = \<lparr>in8 = (\<lambda>h p. bcd (rtc_field (demo_cal (demo_clock (length h))) (rtc_index h))), in32 = (\<lambda>h p. 0), tsc = (\<lambda>h. 0), mmio = (\<lambda>h a. 0)\<rparr>"

lemma demo_rtc: "rtc_device demo_rtc demo_cal demo_clock"
proof -
  have "0 \<le> rtc_field (demo_cal t) r \<and> rtc_field (demo_cal t) r < 100" for t r
    using pos_mod_bound [of 60 t] pos_mod_bound [of 60 "t div 60"] pos_mod_bound [of 24 "t div 3600"] pos_mod_bound [of 2 "t div 86400"]
      pos_mod_sign [of 2 "t div 86400"]
    by (auto simp: rtc_field_def demo_cal_def)
  moreover from this have "bcd (rtc_field (demo_cal t) r) mod 256 = bcd (rtc_field (demo_cal t) r)" for t r
  proof -
    let ?x = "rtc_field (demo_cal t) r"
    have x: "0 \<le> ?x" "?x < 100" by (simp_all add: \<open>\<And>t r. 0 \<le> rtc_field (demo_cal t) r \<and> rtc_field (demo_cal t) r < 100\<close>)
    then have "0 \<le> ?x div 10" "?x div 10 < 10" "0 \<le> ?x mod 10" "?x mod 10 < 10" by (auto intro: div_below)
    then show ?thesis by (auto simp: bcd_def)
  qed
  moreover have "mono demo_clock" by (intro monoI) (auto simp: demo_clock_def intro: zdiv_mono1)
  ultimately show ?thesis unfolding rtc_device_def by (auto simp: demo_rtc_def demo_cal_def)
qed

text \<open>
  The order matters.  If the compiler reads the fields in the order of the structure's members, \<open>second\<close> last, the
  second reading of the seconds proves nothing about the fields before: on this clock the date returned is
  the 17th at 23:00:00, an hour and more before the time at which \<open>timer_rtc\<close> is called.
\<close>

lemma timer_rtc_torn:
  "\<exists>h. timer_rtc (\<lambda>_. [9, 8, 7, 4, 2, 0]) demo_rtc [] =
     Some (\<lparr>year = 2026, month = 5, day = 17, hour = 23, minute = 0, second = 0\<rparr>, h)"
proof -
  let ?rs = "[9, 8, 7, 4, 2, 0] :: int list"
  obtain f h where f: "read_fields demo_rtc ?rs [] = (f, h)" "length h = 12"
    "\<forall>i < length ?rs. f (?rs ! i) = rtc_field (demo_cal (demo_clock (2 * i + 1))) (?rs ! i)"
    using read_fields_reads [OF demo_rtc, of ?rs "[]"] by (auto simp del: read_fields.simps)
  have "f (?rs ! i) = rtc_field (demo_cal (demo_clock (2 * i + 1))) (?rs ! i)" if "i < 6" for i using f(3) that by simp
  from this [of 0] this [of 1] this [of 2] this [of 3] this [of 4] this [of 5]
  have fs: "f 9 = 26" "f 8 = 5" "f 7 = 17" "f 4 = 23" "f 2 = 0" "f 0 = 0"
    by (simp_all add: rtc_field_def demo_cal_def demo_clock_def)
  obtain h' where "read_rtc demo_rtc 0 h = (0, h')"
    using read_rtc_reads [OF demo_rtc, of 0 h] f(2) by (auto simp: rtc_field_def demo_cal_def demo_clock_def)
  then show ?thesis using f(1) fs by (subst timer_rtc.simps) (simp add: read_rtc_async_def)
qed

text \<open>C27. On a clock that advances by at most a second in 28 accesses \<open>timer_rtc\<close> returns after at most two rounds, in
  whatever order the compiler reads the six fields, with the second of a moment between its call and its return; and
  if it reads the second first, the date is never torn: all six fields are those of that one
  moment, even across midnight.\<close>

theorem timer_rtc_correct:
  assumes "rtc_device w cal clock" "\<And>k. clock (k + 28) \<le> clock k + 1" "\<And>g. rtc_order (ev g)"
  shows "\<exists>r h' k. timer_rtc ev w h = Some (r, h') \<and> length h \<le> k \<and> k \<le> length h' \<and> length h' \<le> length h + 28 \<and>
     second r = second (cal (clock k)) \<and> ((\<forall>g. hd (ev g) = 0) \<longrightarrow> r = rtc_of cal (clock k))"
proof -
  have mono: "clock i \<le> clock j" if "i \<le> j" for i j using assms(1) that unfolding rtc_device_def by (auto dest: monoD)
  have slow: "clock (length g + 14) \<le> clock (length g) + 1" for g :: history
    using assms(2) [of "length g"] mono [of "length g + 14" "length g + 28"] by simp
  note round = timer_rtc_round [where ev = ev, OF assms(1) assms(3) slow]
  obtain r1 h1 k1 where h1: "length h1 = length h + 14" "length h + 1 \<le> k1" "k1 \<le> length h + 11" "second r1 = second (cal (clock k1))"
      "hd (ev h) = 0 \<longrightarrow> clock (length h + 13) = clock k1 \<longrightarrow> r1 = rtc_of cal (clock k1)"
      "timer_rtc ev w h = (if clock (length h + 13) = clock k1 then Some (r1, h1) else timer_rtc ev w h1)"
    using round [of h] by blast
  obtain r2 h2 k2 where h2: "length h2 = length h1 + 14" "length h1 + 1 \<le> k2" "k2 \<le> length h1 + 11" "second r2 = second (cal (clock k2))"
      "hd (ev h1) = 0 \<longrightarrow> clock (length h1 + 13) = clock k2 \<longrightarrow> r2 = rtc_of cal (clock k2)"
      "timer_rtc ev w h1 = (if clock (length h1 + 13) = clock k2 then Some (r2, h2) else timer_rtc ev w h2)"
    using round [of h1] by blast
  show ?thesis
  proof (cases "clock (length h + 13) = clock k1")
    case True
    then show ?thesis using h1 by (intro exI [of _ r1] exI [of _ h1] exI [of _ k1]) simp
  next
    case False
    then have "clock (length h1 + 13) = clock k2"
      using assms(2) [of "length h"] mono [of "length h" k1] mono [of k1 "length h + 13"] mono [of "length h + 13" k2]
        mono [of k2 "length h1 + 13"] mono [of "length h1 + 13" "length h + 28"] h1(1-3) h2(2,3) by simp
    then show ?thesis using h1 h2 False by (intro exI [of _ r2] exI [of _ h2] exI [of _ k2]) simp
  qed
qed

theorem timer_rtc_correct_witness:
  "\<exists>h' k. timer_rtc text_order demo_rtc [] = Some (rtc_of demo_cal (demo_clock k), h') \<and> k \<le> length h' \<and> length h' \<le> 28"
proof -
  have "demo_clock (k + 28) \<le> demo_clock k + 1" for k by (simp add: demo_clock_def)
  moreover have "rtc_order (text_order g)" "hd (text_order g) = 0" for g by (auto simp: rtc_order_def text_order_def)
  ultimately show ?thesis using timer_rtc_correct [OF demo_rtc, of text_order "[]"] by auto
qed

text \<open>
  The up-time is called microseconds, but the frequency is counted in units of \<^term>\<open>2 ^ 20 :: int\<close> per second:
  after \<open>n\<close> seconds of a counter of \<open>f\<close> ticks a second at least \<open>n * 2 ^ 20\<close> are reported.
\<close>

lemma uptime_fast:
  assumes "timer_uptime w \<lparr>boot_date = d, freq_mhz = f div 2 ^ 20, uptsc = 0\<rparr> h = cret (us, h')"
    and "u64 (tsc w h) = f * n" "0 \<le> f * n" "0 \<le> n" "f * n < 2 ^ 64" "2 ^ 20 \<le> f"
  shows "n * 2 ^ 20 \<le> us"
proof -
  have q: "0 < f div 2 ^ 20" using assms(6) by (simp add: pos_imp_zdiv_pos_iff)
  have us: "us = f * n div (f div 2 ^ 20)"
    using assms(1,2,3,5) q by (auto simp: timer_uptime_def rdtsc_def Let_def u64_id)
  have "f div 2 ^ 20 * 2 ^ 20 \<le> f" using mult_div_mod_eq [of "2 ^ 20" f] pos_mod_sign [of "2 ^ 20" f] by simp
  then have "n * (f div 2 ^ 20 * 2 ^ 20) \<le> n * f" using assms(4) by (rule mult_left_mono)
  then have "(f div 2 ^ 20) * (n * 2 ^ 20) \<le> f * n" by (simp add: ac_simps)
  then have "(f div 2 ^ 20) * (n * 2 ^ 20) div (f div 2 ^ 20) \<le> f * n div (f div 2 ^ 20)" using q by (intro zdiv_mono1)
  then show ?thesis using q us by simp
qed

end
