(* ===== verification/Am_Gpu.thy ===== *)
theory Am_Gpu
  imports C_Memory
begin

text \<open>
  The frame buffer of \<open>abstract-machine/am/src/x86/qemu/ioe.c\<close>: three bytes, blue, green and red, for each
  pixel, row by row.  Screen coordinates are C \<^verbatim>\<open>int\<close>s, and so is all arithmetic on them; an overflow,
  undefined in C, wraps here.
\<close>

subsection \<open>The driver\<close>

definition R :: "int \<Rightarrow> int" where
  "R p = p div 2 ^ 16 mod 256"

definition G :: "int \<Rightarrow> int" where
  "G p = p div 2 ^ 8 mod 256"

definition B :: "int \<Rightarrow> int" where
  "B p = p mod 256"

text \<open>\<^verbatim>\<open>*px = (struct pixel) { .r = R(p), .g = G(p), .b = B(p) }\<close>\<close>

definition put_pixel :: "mem \<Rightarrow> int \<Rightarrow> int \<Rightarrow> mem" where
  "put_pixel m px p = store8 (store8 (store8 m px (B p)) (px + 1) (G p)) (px + 2) (R p)"

record gpu_display =
  disp_w :: int
  disp_h :: int
  fb :: int

record fbdraw =
  draw_x :: int
  draw_y :: int
  draw_pixels :: int
  draw_w :: int
  draw_h :: int

definition gpu_init :: "mem \<Rightarrow> gpu_display" where
  "gpu_init m =
     \<lparr>disp_w = uint (m 0x4012) + 256 * uint (m 0x4013), disp_h = uint (m 0x4014) + 256 * uint (m 0x4015),
      fb = load32 m 0x4028\<rparr>"

fun draw_row :: "nat \<Rightarrow> int \<Rightarrow> int \<Rightarrow> mem \<Rightarrow> mem" where
  "draw_row 0 pixels px m = m"
| "draw_row (Suc n) pixels px m = draw_row n (pixels + 4) (px + 3) (put_pixel m px (load32 m pixels))"

fun draw_rows :: "nat \<Rightarrow> gpu_display \<Rightarrow> int \<Rightarrow> int \<Rightarrow> int \<Rightarrow> int \<Rightarrow> int \<Rightarrow> int \<Rightarrow> mem \<Rightarrow> mem" where
  "draw_rows 0 d x y j w len pixels m = m"
| "draw_rows (Suc n) d x y j w len pixels m =
     draw_rows n d x y (j + 1) w len (pixels + 4 * w)
       (if s32 (y + j) < disp_h d
        then draw_row (nat len) pixels (fb d + 3 * s32 (x + s32 (s32 (j + y) * disp_w d))) m else m)"

definition gpu_fbdraw :: "gpu_display \<Rightarrow> fbdraw \<Rightarrow> mem \<Rightarrow> mem" where
  "gpu_fbdraw d draw m =
     (let x = draw_x draw; y = draw_y draw; w = draw_w draw; h = draw_h draw;
          len = (if s32 (x + w) \<ge> disp_w d then s32 (disp_w d - x) else w)
      in draw_rows (nat h) d x y 0 w len (draw_pixels draw) m)"

subsection \<open>What is on the screen\<close>

text \<open>The address of a pixel, and the pixel there.\<close>

definition pixel_at :: "gpu_display \<Rightarrow> int \<Rightarrow> int \<Rightarrow> int" where
  "pixel_at d X Y = fb d + 3 * (X + Y * disp_w d)"

definition screen :: "gpu_display \<Rightarrow> mem \<Rightarrow> int \<Rightarrow> int \<Rightarrow> int \<times> int \<times> int" where
  "screen d m X Y = (let p = pixel_at d X Y in (uint (m (p + 2)), uint (m (p + 1)), uint (m p)))"

definition frame :: "gpu_display \<Rightarrow> int set" where
  "frame d = {fb d..<fb d + 3 * (disp_w d * disp_h d)}"

definition rgb :: "int \<Rightarrow> int \<times> int \<times> int" where
  "rgb p = (R p, G p, B p)"

lemma put_pixel_outside: "x < px \<or> px + 3 \<le> x \<Longrightarrow> put_pixel m px p x = m x"
  by (auto simp: put_pixel_def)

lemma put_pixel_reads:
  "uint (put_pixel m px p px) = B p" "uint (put_pixel m px p (px + 1)) = G p" "uint (put_pixel m px p (px + 2)) = R p"
  by (simp_all add: put_pixel_def uint_byte R_def G_def B_def)

lemma draw_row_outside: "x < px \<or> px + 3 * int n \<le> x \<Longrightarrow> draw_row n pixels px m x = m x"
  by (induction n arbitrary: pixels px m) (auto simp: put_pixel_outside)

lemma draw_row_reads:
  assumes "i < n" "pixels + 4 * int n \<le> px \<or> px + 3 * int n \<le> pixels"
  shows "let q = px + 3 * int i; p = load32 m (pixels + 4 * int i); m' = draw_row n pixels px m
     in uint (m' q) = B p \<and> uint (m' (q + 1)) = G p \<and> uint (m' (q + 2)) = R p"
  using assms
proof (induction n arbitrary: i pixels px m)
  case (Suc n)
  let ?m = "put_pixel m px (load32 m pixels)"
  show ?case
  proof (cases i)
    case 0
    have "draw_row n (pixels + 4) (px + 3) ?m x = ?m x" if "x < px + 3" for x using that by (simp add: draw_row_outside)
    then show ?thesis using 0 put_pixel_reads [of m px "load32 m pixels"] by (simp add: Let_def)
  next
    case (Suc j)
    have "load32 ?m (pixels + 4 * int i) = load32 m (pixels + 4 * int i)"
      using Suc.prems Suc by (intro load32_cong put_pixel_outside) auto
    moreover have "j < n" "pixels + 4 + 4 * int n \<le> px + 3 \<or> px + 3 + 3 * int n \<le> pixels + 4"
      using Suc.prems Suc by auto
    ultimately show ?thesis using Suc.IH [of j "pixels + 4" "px + 3" ?m] Suc by (simp add: Let_def algebra_simps)
  qed
qed simp

text \<open>A row lies in the frame, and meets the pixels of its own screen positions only.\<close>

lemma row_start: "0 \<le> y \<Longrightarrow> 0 \<le> x \<Longrightarrow> x < disp_w d \<Longrightarrow> fb d \<le> pixel_at d x y" for d :: gpu_display
  by (simp add: pixel_at_def)

lemma rows_ordered: "y < z \<Longrightarrow> 0 \<le> w \<Longrightarrow> y * w + w \<le> z * w" for y z w :: int
  using mult_right_mono [of "y + 1" z w] by (simp add: algebra_simps)

lemma row_in_frame:
  assumes "0 \<le> x" "x + len \<le> disp_w d" "0 \<le> y" "y < disp_h d" "0 < len"
  shows "fb d \<le> pixel_at d x y" "pixel_at d x y + 3 * len \<le> fb d + 3 * (disp_w d * disp_h d)"
  using rows_ordered [of y "disp_h d" "disp_w d"] assms by (simp_all add: pixel_at_def mult.commute)

lemma row_apart:
  assumes "0 \<le> x" "x + len \<le> disp_w d" "0 \<le> X" "X < disp_w d" "Y \<noteq> y \<or> X < x \<or> x + len \<le> X" "0 < len"
  shows "pixel_at d X Y + 3 \<le> pixel_at d x y \<or> pixel_at d x y + 3 * len \<le> pixel_at d X Y"
proof -
  consider "Y = y" | "Y < y" | "y < Y" by linarith
  then show ?thesis
  proof cases
    case 1
    then show ?thesis using assms(5) by (auto simp: pixel_at_def)
  next
    case 2
    then show ?thesis using rows_ordered [of Y y "disp_w d"] assms by (simp add: pixel_at_def)
  next
    case 3
    then show ?thesis using rows_ordered [of y Y "disp_w d"] assms by (simp add: pixel_at_def)
  qed
qed

definition apart_frame :: "gpu_display \<Rightarrow> int \<Rightarrow> int \<Rightarrow> bool" where
  "apart_frame d a n \<longleftrightarrow> a + n \<le> fb d \<or> fb d + 3 * (disp_w d * disp_h d) \<le> a"

lemma draw_row_screen:
  assumes x: "0 \<le> x" "x + len \<le> disp_w d" and y: "0 \<le> y" "y < disp_h d" and len: "len \<le> w"
    and src: "apart_frame d pixels (4 * w)" and X: "0 \<le> X" "X < disp_w d"
  shows "screen d (draw_row (nat len) pixels (pixel_at d x y) m) X Y =
     (if Y = y \<and> x \<le> X \<and> X < x + len then rgb (load32 m (pixels + 4 * (X - x))) else screen d m X Y)"
proof (cases "0 < len")
  case True
  note inside = row_in_frame [OF x y True]
  show ?thesis
  proof (cases "Y = y \<and> x \<le> X \<and> X < x + len")
    case hit: True
    have q: "pixel_at d x y + 3 * int (nat (X - x)) = pixel_at d X Y" using hit by (simp add: pixel_at_def)
    have n: "int (nat (X - x)) = X - x" using hit by simp
    have lt: "nat (X - x) < nat len" using hit by simp
    have ap: "pixels + 4 * int (nat len) \<le> pixel_at d x y \<or> pixel_at d x y + 3 * int (nat len) \<le> pixels"
      using src inside len True by (auto simp: apart_frame_def)
    show ?thesis
      using draw_row_reads [OF lt ap, of m] hit unfolding Let_def q unfolding n by (simp add: Let_def screen_def rgb_def)
  next
    case False
    then have "pixel_at d X Y + 3 \<le> pixel_at d x y \<or> pixel_at d x y + 3 * len \<le> pixel_at d X Y"
      using row_apart [OF x X, of Y y] True by auto
    then have "draw_row (nat len) pixels (pixel_at d x y) m z = m z" if "pixel_at d X Y \<le> z" "z < pixel_at d X Y + 3" for z
      using that True by (intro draw_row_outside) auto
    then show ?thesis using False by (auto simp: screen_def Let_def)
  qed
qed auto

lemma draw_row_frame:
  assumes "0 \<le> x" "x + len \<le> disp_w d" "0 \<le> y" "y < disp_h d" "z \<notin> frame d"
  shows "draw_row (nat len) pixels (pixel_at d x y) m z = m z"
proof (cases "0 < len")
  case True
  then show ?thesis
    using row_in_frame [OF assms(1-4) True] assms(5)
    by (intro draw_row_outside) (auto simp: frame_def)
qed simp

text \<open>The rows without overflow: \<open>draw_rows\<close> draws them when the coordinates are in range.\<close>

fun exact_rows :: "nat \<Rightarrow> gpu_display \<Rightarrow> int \<Rightarrow> int \<Rightarrow> int \<Rightarrow> int \<Rightarrow> int \<Rightarrow> mem \<Rightarrow> mem" where
  "exact_rows 0 d x Y w len pixels m = m"
| "exact_rows (Suc n) d x Y w len pixels m =
     exact_rows n d x (Y + 1) w len (pixels + 4 * w)
       (if Y < disp_h d then draw_row (nat len) pixels (pixel_at d x Y) m else m)"

lemma draw_rows_exact:
  assumes "0 \<le> x" "x + len \<le> disp_w d" "0 \<le> disp_w d" "disp_w d * disp_h d < 2 ^ 31" "0 \<le> y" "0 \<le> j" "y + j + int n < 2 ^ 31"
  shows "draw_rows n d x y j w len pixels m = exact_rows n d x (y + j) w len pixels m"
  using assms(6,7)
proof (induction n arbitrary: j pixels m)
  case (Suc n)
  let ?Y = "y + j" and ?W = "disp_w d"
  have y: "s32 ?Y = ?Y" "s32 (j + y) = ?Y" using Suc.prems assms(5) by (simp_all add: s32_id add.commute)
  have row: "draw_row (nat len) pixels (fb d + 3 * s32 (x + s32 (?Y * ?W))) m = draw_row (nat len) pixels (pixel_at d x ?Y) m"
    if Y: "?Y < disp_h d"
  proof (cases "0 < len")
    case True
    have "?Y * ?W + ?W \<le> disp_h d * ?W" by (rule rows_ordered [OF Y assms(3)])
    moreover have "0 \<le> ?Y * ?W" using Suc.prems assms(3,5) by simp
    ultimately have "s32 (?Y * ?W) = ?Y * ?W" "s32 (x + ?Y * ?W) = x + ?Y * ?W"
      using assms(1,2,4) True by (auto intro!: s32_id simp: mult.commute)
    then show ?thesis by (simp add: pixel_at_def)
  qed simp
  have "draw_rows n d x y (j + 1) w len p m' = exact_rows n d x (?Y + 1) w len p m'" for p m'
    using Suc.IH [of "j + 1"] Suc.prems by (simp add: add.assoc)
  then show ?case using row by (simp add: y)
qed simp

lemma exact_rows_screen:
  assumes x: "0 \<le> x" "x + len \<le> disp_w d" and len: "len \<le> w" "0 \<le> w" and X: "0 \<le> X" "X < disp_w d" and Y: "Y < disp_h d"
    and y: "0 \<le> y" and src: "apart_frame d pixels (4 * (w * int n))"
  shows "screen d (exact_rows n d x y w len pixels m) X Y =
     (if y \<le> Y \<and> Y < y + int n \<and> x \<le> X \<and> X < x + len then rgb (load32 m (pixels + 4 * ((Y - y) * w + (X - x)))) else screen d m X Y)
   \<and> (\<forall>z. z \<notin> frame d \<longrightarrow> exact_rows n d x y w len pixels m z = m z)"
  using y src
proof (induction n arbitrary: y pixels m)
  case (Suc n)
  let ?m = "if y < disp_h d then draw_row (nat len) pixels (pixel_at d x y) m else m"
  have unroll: "exact_rows (Suc n) d x y w len pixels m = exact_rows n d x (y + 1) w len (pixels + 4 * w) ?m"
    by simp
  have src: "apart_frame d (pixels + 4 * w) (4 * (w * int n))" "apart_frame d pixels (4 * w)"
  proof -
    have w: "w * int (Suc n) = w + w * int n" "0 \<le> w * int n" using len(2) by (simp_all add: distrib_left)
    show "apart_frame d (pixels + 4 * w) (4 * (w * int n))"
      using Suc.prems(2) w len(2) unfolding apart_frame_def by linarith
    show "apart_frame d pixels (4 * w)" using Suc.prems(2) w unfolding apart_frame_def by linarith
  qed
  have row: "screen d ?m X Y = (if Y = y \<and> x \<le> X \<and> X < x + len then rgb (load32 m (pixels + 4 * (X - x))) else screen d m X Y)"
    using draw_row_screen [OF x Suc.prems(1) _ len(1) src(2) X, of m Y] Y by auto
  have rest: "?m z = m z" if "z \<notin> frame d" for z using draw_row_frame [OF x Suc.prems(1) _ that] by auto
  note ih = Suc.IH [of "y + 1" "pixels + 4 * w" ?m]
  have load: "load32 ?m a = load32 m a" if "pixels \<le> a" "a + 4 \<le> pixels + 4 * (w * int (Suc n))" for a
    using that Suc.prems(2) by (intro load32_cong rest) (auto simp: frame_def apart_frame_def)
  show ?case
  proof (cases "y < Y \<and> Y < y + int (Suc n) \<and> x \<le> X \<and> X < x + len")
    case True
    have "(Y - y) * w + w \<le> int (Suc n) * w" using rows_ordered [of "Y - y" "int (Suc n)" w] True len(2) by auto
    moreover have "0 \<le> (Y - y) * w" using True len(2) by simp
    ultimately have src_pixel: "load32 ?m (pixels + 4 * ((Y - y) * w + (X - x))) = load32 m (pixels + 4 * ((Y - y) * w + (X - x)))"
      using True len(1) by (intro load) (simp_all add: mult.commute)
    have addr: "pixels + 4 * w + 4 * ((Y - (y + 1)) * w + (X - x)) = pixels + 4 * ((Y - y) * w + (X - x))"
      by (simp add: algebra_simps)
    have "y + 1 \<le> Y \<and> Y < y + 1 + int n \<and> x \<le> X \<and> X < x + len" using True by auto
    then have "screen d (exact_rows n d x (y + 1) w len (pixels + 4 * w) ?m) X Y = rgb (load32 m (pixels + 4 * ((Y - y) * w + (X - x))))"
      using ih [unfolded addr src_pixel] src(1) Suc.prems(1) by simp
    moreover have "exact_rows n d x (y + 1) w len (pixels + 4 * w) ?m z = m z" if "z \<notin> frame d" for z
      using ih src(1) Suc.prems(1) rest [OF that] that by simp
    ultimately show ?thesis unfolding unroll using True by simp
  next
    case False
    then show ?thesis unfolding unroll using ih src(1) Suc.prems(1) row rest by auto
  qed
qed auto

text \<open>C28. \<open>gpu_fbdraw\<close> with a corner on or right of and below the screen's (\<open>x\<close> and \<open>y\<close> not negative) copies the part
  of the picture that is on the screen, clipped at the right and lower edges, leaves all other pixels and writes nothing
  outside the frame buffer, provided that the far corner of the picture and the number of pixels of the screen are C
  \<^verbatim>\<open>int\<close>s, and that the picture is not in the frame buffer.\<close>

theorem gpu_fbdraw_correct:
  assumes "0 \<le> draw_x g" "0 \<le> draw_y g" "0 \<le> draw_w g" "0 \<le> draw_h g"
    and "draw_x g + draw_w g < 2 ^ 31" "draw_y g + draw_h g < 2 ^ 31" "disp_w d * disp_h d < 2 ^ 31"
    and "draw_pixels g + 4 * (draw_w g * draw_h g) \<le> fb d \<or> fb d + 3 * (disp_w d * disp_h d) \<le> draw_pixels g"
    and "0 \<le> X" "X < disp_w d" "0 \<le> Y" "Y < disp_h d"
  shows "screen d (gpu_fbdraw d g m) X Y =
       (if draw_x g \<le> X \<and> X < draw_x g + draw_w g \<and> draw_y g \<le> Y \<and> Y < draw_y g + draw_h g
        then rgb (load32 m (draw_pixels g + 4 * ((Y - draw_y g) * draw_w g + (X - draw_x g)))) else screen d m X Y) \<and>
     (\<forall>z. z \<notin> frame d \<longrightarrow> gpu_fbdraw d g m z = m z)"
proof -
  let ?len = "if draw_x g + draw_w g \<ge> disp_w d then disp_w d - draw_x g else draw_w g"
  have len: "draw_x g + ?len \<le> disp_w d" "?len \<le> draw_w g" by auto
  have "disp_w d * 1 \<le> disp_w d * disp_h d" using assms(9-12) by (intro mult_left_mono) auto
  then have W: "disp_w d < 2 ^ 31" using assms(7) by simp
  have "s32 (draw_x g + draw_w g) = draw_x g + draw_w g" "s32 (disp_w d - draw_x g) = disp_w d - draw_x g"
    using assms(1,3,5,9,10) W by (auto intro!: s32_id)
  moreover have "draw_rows (nat (draw_h g)) d (draw_x g) (draw_y g) 0 (draw_w g) ?len p m =
      exact_rows (nat (draw_h g)) d (draw_x g) (draw_y g) (draw_w g) ?len p m" for p
    using draw_rows_exact [OF assms(1) len(1) _ assms(7,2), of 0 "nat (draw_h g)"] assms(4,6,9,10) by simp
  ultimately have "gpu_fbdraw d g m = exact_rows (nat (draw_h g)) d (draw_x g) (draw_y g) (draw_w g) ?len (draw_pixels g) m"
    by (cases "disp_w d \<le> draw_x g + draw_w g") (simp_all add: gpu_fbdraw_def Let_def)
  with exact_rows_screen [OF assms(1) len assms(3,9,10,12,2), of "draw_pixels g" "nat (draw_h g)" m]
  show ?thesis using assms(4,8,10) by (auto simp: apart_frame_def)
qed

theorem gpu_fbdraw_correct_witness:
  "screen \<lparr>disp_w = 4, disp_h = 2, fb = 1000\<rparr> (gpu_fbdraw \<lparr>disp_w = 4, disp_h = 2, fb = 1000\<rparr>
     \<lparr>draw_x = 3, draw_y = 1, draw_pixels = 8, draw_w = 2, draw_h = 2\<rparr> (\<lambda>a. word_of_int a)) 3 1 = (10, 9, 8)"
  using gpu_fbdraw_correct [of "\<lparr>draw_x = 3, draw_y = 1, draw_pixels = 8, draw_w = 2, draw_h = 2\<rparr>"
      "\<lparr>disp_w = 4, disp_h = 2, fb = 1000\<rparr>" 3 1 "\<lambda>a. word_of_int a"]
  by (simp add: rgb_def R_def G_def B_def load32_def uint_byte)

end
