(* ===== verification/Am_Lapic.thy ===== *)
theory Am_Lapic
  imports Am_Io
begin

unbundle bit_operations_syntax

text \<open>
  The interrupt controllers, \<open>abstract-machine/am/src/x86/qemu/ioe.c\<close> from line 333: the local controller of
  a processor, whose registers are memory words from \<open>lapic\<close> on, and the I/O controller with its index and
  data registers and the redirection table behind them.
\<close>

subsection \<open>The local controller\<close>

definition lapicw :: "hardware \<Rightarrow> int \<Rightarrow> int \<Rightarrow> int \<Rightarrow> history \<Rightarrow> history" where
  "lapicw w lapic index value h = snd (reg_read w (lapic + 4 * (0x20 div 4)) (reg_write (lapic + 4 * index) value h))"

partial_function (option) wait_delivered :: "hardware \<Rightarrow> int \<Rightarrow> history \<Rightarrow> history option" where
  "wait_delivered w lapic h =
     (let (v, h) = reg_read w (lapic + 0x300) h in if v AND 0x1000 \<noteq> 0 then wait_delivered w lapic h else Some h)"

definition percpu_initlapic :: "hardware \<Rightarrow> int \<Rightarrow> history \<Rightarrow> history option" where
  "percpu_initlapic w lapic h =
     (let h = lapicw w lapic (0xF0 div 4) (0x100 OR (32 + 31)) h;
          h = lapicw w lapic (0x3E0 div 4) 0xB h;
          h = lapicw w lapic (0x320 div 4) (0x20000 OR (32 + 0)) h;
          h = lapicw w lapic (0x380 div 4) 10000000 h;
          h = lapicw w lapic (0x350 div 4) 0x10000 h;
          h = lapicw w lapic (0x360 div 4) 0x10000 h;
          (v, h) = reg_read w (lapic + 0x30) h;
          h = (if (v div 2 ^ 16 AND 0xFF) \<ge> 4 then lapicw w lapic (0x340 div 4) 0x10000 h else h);
          h = lapicw w lapic (0x370 div 4) (32 + 19) h;
          h = lapicw w lapic (0x280 div 4) 0 h;
          h = lapicw w lapic (0x280 div 4) 0 h;
          h = lapicw w lapic (0xB0 div 4) 0 h;
          h = lapicw w lapic (0x310 div 4) 0 h;
          h = lapicw w lapic (0x300 div 4) (0x80000 OR 0x500 OR 0x8000) h
      in Option.bind (wait_delivered w lapic h) (\<lambda>h. Some (lapicw w lapic (0x80 div 4) 0 h)))"

definition lapic_eoi :: "hardware \<Rightarrow> int \<Rightarrow> history \<Rightarrow> history" where
  "lapic_eoi w lapic h = (if lapic \<noteq> 0 then lapicw w lapic (0xB0 div 4) 0 h else h)"

text \<open>Starting another processor: the warm reset vector in memory, and the \<^verbatim>\<open>INIT\<close> and \<^verbatim>\<open>STARTUP\<close> messages.\<close>

definition lapic_bootap :: "hardware \<Rightarrow> int \<Rightarrow> int \<Rightarrow> int \<Rightarrow> mem \<times> history \<Rightarrow> mem \<times> history" where
  "lapic_bootap w lapic apicid addr = (\<lambda>(m, h).
     let h = outb 0x70 0xF h;
         h = outb 0x71 0x0A h;
         m = store8 (store8 m 0x467 0) 0x468 0;
         m = store8 (store8 m 0x469 (addr div 2 ^ 4)) 0x46A (addr div 2 ^ 4 div 256);
         h = lapicw w lapic (0x310 div 4) (apicid * 2 ^ 24) h;
         h = lapicw w lapic (0x300 div 4) (0x500 OR 0x8000 OR 0x4000) h;
         h = lapicw w lapic (0x300 div 4) (0x500 OR 0x8000) h;
         h = lapicw w lapic (0x310 div 4) (apicid * 2 ^ 24) h;
         h = lapicw w lapic (0x300 div 4) (0x600 OR addr div 2 ^ 12) h;
         h = lapicw w lapic (0x310 div 4) (apicid * 2 ^ 24) h;
         h = lapicw w lapic (0x300 div 4) (0x600 OR addr div 2 ^ 12) h
     in (m, h))"

text \<open>\<open>cpu_current\<close> of \<open>mpe.c\<close> is the controller's identification register.\<close>

definition cpu_current :: "hardware \<Rightarrow> int \<Rightarrow> history \<Rightarrow> int \<times> history" where
  "cpu_current w lapic h = (let (v, h) = reg_read w (lapic + 4 * 8) h in (v div 2 ^ 24, h))"

subsection \<open>The I/O controller\<close>

definition ioapicread :: "hardware \<Rightarrow> int \<Rightarrow> history \<Rightarrow> int \<times> history" where
  "ioapicread w reg h = reg_read w (0xFEC00000 + 16) (reg_write 0xFEC00000 reg h)"

definition ioapicwrite :: "int \<Rightarrow> int \<Rightarrow> history \<Rightarrow> history" where
  "ioapicwrite reg data h = reg_write (0xFEC00000 + 16) data (reg_write 0xFEC00000 reg h)"

fun mask_entries :: "nat list \<Rightarrow> history \<Rightarrow> history" where
  "mask_entries [] h = h"
| "mask_entries (i # is) h =
     mask_entries is (ioapicwrite (0x10 + 2 * int i + 1) 0 (ioapicwrite (0x10 + 2 * int i) (0x10000 OR (32 + int i)) h))"

definition ioapic_init :: "hardware \<Rightarrow> history \<Rightarrow> history" where
  "ioapic_init w h =
     (let (v, h) = ioapicread w 1 h; maxintr = v div 2 ^ 16 AND 0xFF
      in mask_entries [0..<Suc (nat maxintr)] h)"

definition ioapic_enable :: "int \<Rightarrow> int \<Rightarrow> history \<Rightarrow> history" where
  "ioapic_enable irq cpunum h = ioapicwrite (0x10 + 2 * irq + 1) (cpunum * 2 ^ 24) (ioapicwrite (0x10 + 2 * irq) (32 + irq) h)"

text \<open>The interrupt part of \<open>__am_percpu_initirq\<close> in \<open>cte.c\<close>.\<close>

definition enable_devices :: "history \<Rightarrow> history" where
  "enable_devices h = ioapic_enable 4 0 (ioapic_enable 1 0 h)"

subsection \<open>The redirection table\<close>

text \<open>The device: a word written to the data register goes to the register selected by the index register.\<close>

fun ioapic_index :: "history \<Rightarrow> int" where
  "ioapic_index [] = 0"
| "ioapic_index (Store32 a v # h) = (if a = 0xFEC00000 then v else ioapic_index h)"
| "ioapic_index (e # h) = ioapic_index h"

fun ioapic_regs :: "(int \<Rightarrow> int) \<Rightarrow> history \<Rightarrow> int \<Rightarrow> int" where
  "ioapic_regs f [] = f"
| "ioapic_regs f (Store32 a v # h) =
     (if a = 0xFEC00010 then (ioapic_regs f h)(ioapic_index h := v) else ioapic_regs f h)"
| "ioapic_regs f (e # h) = ioapic_regs f h"

text \<open>Entry \<open>i\<close>: its vector, whether it is masked, and the processor it goes to.\<close>

definition routed :: "(int \<Rightarrow> int) \<Rightarrow> nat \<Rightarrow> int \<times> bool \<times> int" where
  "routed regs i =
     (let lo = regs (0x10 + 2 * int i); hi = regs (0x10 + 2 * int i + 1)
      in (lo AND 0xFF, lo AND 0x10000 \<noteq> 0, hi div 2 ^ 24))"

lemma ioapicwrite_regs:
  "0 \<le> r \<Longrightarrow> r < 4294967296 \<Longrightarrow> ioapic_regs f (ioapicwrite r v h) = (ioapic_regs f h)(r := u32 v)"
  by (simp add: ioapicwrite_def reg_write_def u32_id)

lemma mask_entries_regs:
  assumes "distinct is" "\<forall>i \<in> set is. i < 256"
  shows "ioapic_regs f (mask_entries is h) r =
     (if \<exists>i \<in> set is. r = 0x10 + 2 * int i then 0x10000 OR (32 + (r - 0x10) div 2)
      else if \<exists>i \<in> set is. r = 0x10 + 2 * int i + 1 then 0 else ioapic_regs f h r)"
  using assms
proof (induction "is" arbitrary: h)
  case (Cons i "is")
  have "0 \<le> 0x10000 OR (32 + int i)" by simp
  moreover have "0x10000 OR (32 + int i) = 0x10000 + (32 + int i)" using Cons.prems(2) by (intro or_low [of 16]) auto
  ultimately have "u32 (0x10000 OR (32 + int i)) = 0x10000 OR (32 + int i)" using Cons.prems(2) by (intro u32_id) auto
  then show ?case using Cons by (auto simp: ioapicwrite_regs) presburger+
qed simp

lemma low_byte: "x AND 0xFF = x mod 256" for x :: int
  using take_bit_eq_mask [of 8 x] by (simp add: take_bit_eq_mod mask_eq_exp_minus_1)

lemma mask_bit: "x AND 0x10000 \<noteq> 0 \<longleftrightarrow> odd (x div 65536)" for x :: int
  using and_exp_eq_0_iff_not_bit [of x 16] by (simp add: bit_iff_odd)

lemma masked_entry:
  assumes "i < 256"
  shows "(0x10000 OR (32 + int i)) AND 0xFF = (32 + int i) mod 256" "(0x10000 OR (32 + int i)) AND 0x10000 \<noteq> 0"
proof -
  have "0x10000 OR (32 + int i) = 0x10000 + (32 + int i)" using assms by (intro or_low [of 16]) auto
  then have e: "0x10000 OR (32 + int i) = 256 * 256 + (32 + int i)" by simp
  show "(0x10000 OR (32 + int i)) AND 0xFF = (32 + int i) mod 256"
    unfolding e low_byte by (simp only: mod_mult_self3)
  have "(256 * 256 + (32 + int i)) div 65536 = 1" using assms by simp
  then show "(0x10000 OR (32 + int i)) AND 0x10000 \<noteq> 0" unfolding e mask_bit by simp
qed

text \<open>After \<open>__am_ioapic_init\<close> and \<open>__am_percpu_initirq\<close> the I/O controller delivers the keyboard and the serial
  line, and nothing else: line \<open>i\<close> has the vector \<open>32 + i\<close> and goes to the boot processor, and every line
  but 1 and 4 is masked.\<close>

lemma ioapic_routing:
  assumes "i \<le> nat (fst (ioapicread w 1 h) div 2 ^ 16 AND 0xFF) \<or> i = 1 \<or> i = 4"
  shows "routed (ioapic_regs f (enable_devices (ioapic_init w h))) i = ((32 + int i) mod 256, i \<noteq> 1 \<and> i \<noteq> 4, 0)"
proof -
  obtain v h1 where v: "ioapicread w 1 h = (v, h1)" by (cases "ioapicread w 1 h") auto
  define n where "n = nat (v div 2 ^ 16 AND 0xFF)"
  have "n < 256" by (simp add: n_def low_byte nat_less_iff)
  define g where "g = ioapic_regs f (mask_entries [0..<Suc n] h1)"
  have g: "g r = (if \<exists>i \<in> set [0..<Suc n]. r = 0x10 + 2 * int i then 0x10000 OR (32 + (r - 0x10) div 2)
      else if \<exists>i \<in> set [0..<Suc n]. r = 0x10 + 2 * int i + 1 then 0 else ioapic_regs f h1 r)" for r
    unfolding g_def using \<open>n < 256\<close> by (intro mask_entries_regs) auto
  have init: "ioapic_init w h = mask_entries [0..<Suc n] h1" unfolding ioapic_init_def v n_def by (simp add: Let_def)
  have regs: "ioapic_regs f (enable_devices (ioapic_init w h)) = g(18 := 33, 19 := 0, 24 := 36, 25 := 0)"
    by (simp add: enable_devices_def ioapic_enable_def ioapicwrite_regs init g_def u32_id)
  show ?thesis
  proof (cases "i = 1 \<or> i = 4")
    case True
    then show ?thesis unfolding regs routed_def by (auto simp: low_byte mask_bit)
  next
    case False
    then have i: "i \<le> n" "i < 256" using assms v \<open>n < 256\<close> by (auto simp: n_def)
    have "0x10 + 2 * int i \<noteq> 18" "0x10 + 2 * int i \<noteq> 24" using False by auto
    moreover have "0x10 + 2 * int i \<noteq> 19" "0x10 + 2 * int i \<noteq> 25" by presburger+
    moreover have "0x10 + 2 * int i + 1 \<noteq> 19" "0x10 + 2 * int i + 1 \<noteq> 25" using False by auto
    moreover have "0x10 + 2 * int i + 1 \<noteq> 18" "0x10 + 2 * int i + 1 \<noteq> 24" by presburger+
    moreover have "g (0x10 + 2 * int i) = 0x10000 OR (32 + int i)" using i(1) unfolding g by auto
    moreover have "0x10 + 2 * int i + 1 \<noteq> 0x10 + 2 * int j" for j by presburger
    then have "g (0x10 + 2 * int i + 1) = 0" using i(1) unfolding g by auto
    ultimately show ?thesis using False masked_entry [OF i(2)] unfolding regs routed_def by (simp add: Let_def)
  qed
qed

end
