(* ===== verification/Am_Input.thy ===== *)
theory Am_Input
  imports Am_Io
begin

unbundle bit_operations_syntax

text \<open>
  The serial line and the keyboard of \<open>abstract-machine/am/src/x86/qemu/ioe.c\<close>, with the key codes of
  \<open>abstract-machine/am/include/amdev.h\<close>.
\<close>

subsection \<open>The serial line\<close>

definition uart_init :: "hardware \<Rightarrow> history \<Rightarrow> history" where
  "uart_init w h =
     (let h = outb (0x3f8 + 2) 0 h;
          h = outb (0x3f8 + 3) 0x80 h;
          h = outb (0x3f8 + 0) (115200 div 9600) h;
          h = outb (0x3f8 + 1) 0 h;
          h = outb (0x3f8 + 3) 0x03 h;
          h = outb (0x3f8 + 4) 0 h;
          h = outb (0x3f8 + 1) 0x01 h;
          (_, h) = inb w (0x3f8 + 2) h;
          (_, h) = inb w (0x3f8 + 0) h
      in h)"

definition uart_tx :: "int \<Rightarrow> history \<Rightarrow> history" where
  "uart_tx data h = outb 0x3f8 data h"

text \<open>The byte received, as a signed character, or -1.\<close>

definition uart_rx :: "hardware \<Rightarrow> history \<Rightarrow> int \<times> history" where
  "uart_rx w h =
     (let (st, h) = inb w (0x3f8 + 5) h
      in if st AND 0x1 \<noteq> 0 then let (v, h) = inb w 0x3f8 h in (sint (word_of_int v :: 8 word), h) else (- 1, h))"

subsection \<open>The keyboard\<close>

text \<open>The enumeration: the code of a key is its position, with \<^verbatim>\<open>AM_KEY_NONE\<close> zero.\<close>

definition AM_KEYS :: "string list" where
  "AM_KEYS = [
     ''NONE'', ''ESCAPE'', ''F1'', ''F2'', ''F3'', ''F4'', ''F5'', ''F6'', ''F7'', ''F8'', ''F9'', ''F10'',
     ''F11'', ''F12'', ''GRAVE'', ''1'', ''2'', ''3'', ''4'', ''5'', ''6'', ''7'', ''8'', ''9'', ''0'',
     ''MINUS'', ''EQUALS'', ''BACKSPACE'', ''TAB'', ''Q'', ''W'', ''E'', ''R'', ''T'', ''Y'', ''U'', ''I'',
     ''O'', ''P'', ''LEFTBRACKET'', ''RIGHTBRACKET'', ''BACKSLASH'', ''CAPSLOCK'', ''A'', ''S'', ''D'', ''F'',
     ''G'', ''H'', ''J'', ''K'', ''L'', ''SEMICOLON'', ''APOSTROPHE'', ''RETURN'', ''LSHIFT'', ''Z'', ''X'',
     ''C'', ''V'', ''B'', ''N'', ''M'', ''COMMA'', ''PERIOD'', ''SLASH'', ''RSHIFT'', ''LCTRL'',
     ''APPLICATION'', ''LALT'', ''SPACE'', ''RALT'', ''RCTRL'', ''UP'', ''DOWN'', ''LEFT'', ''RIGHT'',
     ''INSERT'', ''DELETE'', ''HOME'', ''END'', ''PAGEUP'', ''PAGEDOWN'']"

fun key_position :: "string list \<Rightarrow> string \<Rightarrow> int" where
  "key_position [] k = 0"
| "key_position (n # ns) k = (if n = k then 0 else key_position ns k + 1)"

definition AM_KEY :: "string \<Rightarrow> int" where
  "AM_KEY k = key_position AM_KEYS k"

text \<open>The table, filled in the order of the initializers: of two for one index the later one counts.\<close>

definition key_inits :: "(nat \<times> string) list" where
  "key_inits = [
     (0x01, ''ESCAPE''), (0x02, ''1''), (0x03, ''2''), (0x04, ''3''), (0x05, ''4''), (0x06, ''5''),
     (0x07, ''6''), (0x08, ''7''), (0x09, ''8''), (0x0a, ''9''), (0x0b, ''0''), (0x0c, ''MINUS''),
     (0x0d, ''EQUALS''), (0x0e, ''BACKSPACE''), (0x0f, ''TAB''), (0x10, ''Q''), (0x11, ''W''), (0x12, ''E''),
     (0x13, ''R''), (0x14, ''T''), (0x15, ''Y''), (0x16, ''U''), (0x17, ''I''), (0x18, ''O''), (0x19, ''P''),
     (0x1a, ''LEFTBRACKET''), (0x1b, ''RIGHTBRACKET''), (0x1c, ''RETURN''), (0x1d, ''LCTRL''), (0x1e, ''A''),
     (0x1f, ''S''), (0x20, ''D''), (0x21, ''F''), (0x22, ''G''), (0x23, ''H''), (0x24, ''J''), (0x25, ''K''),
     (0x26, ''L''), (0x27, ''SEMICOLON''), (0x28, ''APOSTROPHE''), (0x29, ''GRAVE''), (0x2a, ''LSHIFT''),
     (0x2b, ''BACKSLASH''), (0x2c, ''Z''), (0x2d, ''X''), (0x2e, ''C''), (0x2f, ''V''), (0x30, ''B''),
     (0x31, ''N''), (0x32, ''M''), (0x33, ''COMMA''), (0x34, ''PERIOD''), (0x35, ''SLASH''),
     (0x36, ''RSHIFT''), (0x38, ''LALT''), (0x38, ''RALT''), (0x39, ''SPACE''), (0x3a, ''CAPSLOCK''),
     (0x3b, ''F1''), (0x3c, ''F2''), (0x3d, ''F3''), (0x3e, ''F4''), (0x3f, ''F5''), (0x40, ''F6''),
     (0x41, ''F7''), (0x42, ''F8''), (0x43, ''F9''), (0x44, ''F10''), (0x48, ''INSERT''), (0x4b, ''HOME''),
     (0x4d, ''END''), (0x50, ''DELETE''), (0x57, ''F11''), (0x58, ''F12''), (0x5b, ''APPLICATION'')]"

definition keylut :: "int list" where
  "keylut = foldl (\<lambda>l (i, k). l[i := AM_KEY k]) (replicate 128 0) key_inits"

definition input_keybrd :: "hardware \<Rightarrow> history \<Rightarrow> (bool \<times> int) \<times> history" where
  "input_keybrd w h =
     (let (st, h) = inb w 0x64 h
      in if st AND 0x1 \<noteq> 0 then
           let (v, h) = inb w 0x60 h; code = v AND 0xff
           in ((code < 128, keylut ! nat (code AND 0x7f)), h)
         else ((False, 0), h))"

lemma keylut_list: "keylut = [0, 1, 15, 16, 17, 18, 19, 20, 21, 22, 23, 24, 25, 26, 27, 28, 29, 30, 31, 32, 33, 34, 35, 36, 37, 38, 39, 40, 54, 67, 43, 44,
     45, 46, 47, 48, 49, 50, 51, 52, 53, 14, 55, 41, 56, 57, 58, 59, 60, 61, 62, 63, 64, 65, 66, 0, 71, 70, 42, 2, 3, 4, 5, 6,
     7, 8, 9, 10, 11, 0, 0, 0, 77, 0, 0, 79, 0, 80, 0, 0, 78, 0, 0, 0, 0, 0, 0, 12, 13, 0, 0, 68, 0, 0, 0, 0,
     0, 0, 0, 0, 0, 0, 0, 0, 0, 0, 0, 0, 0, 0, 0, 0, 0, 0, 0, 0, 0, 0, 0, 0, 0, 0, 0, 0, 0, 0, 0, 0]"
  by code_simp

text \<open>
  Every scan code has a key of the enumeration, and pressing and releasing a key report the same one.  Index
  \<open>0x38\<close> has two initializers: the left Alt key is reported as the right one, and no code reports it.
\<close>

lemma keylut_facts:
  "length keylut = 128" "keylut ! 0x38 = 71" "AM_KEY ''RALT'' = 71" "AM_KEY ''LALT'' \<notin> set keylut"
  "list_all (\<lambda>k. 0 \<le> k \<and> k \<le> 82) keylut"
  unfolding keylut_list by code_simp+

lemma key_release:
  assumes "in8 w h 0x64 mod 256 AND 0x1 \<noteq> 0" "in8 w' h' 0x64 mod 256 AND 0x1 \<noteq> 0"
    and "in8 w (In8 0x64 (in8 w h 0x64 mod 256) # h) 0x60 mod 256 = c" "c < 128"
    and "in8 w' (In8 0x64 (in8 w' h' 0x64 mod 256) # h') 0x60 mod 256 = c + 128"
  shows "fst (input_keybrd w h) = (True, keylut ! nat c) \<and> fst (input_keybrd w' h') = (False, keylut ! nat c)"
proof -
  have c: "0 \<le> c" using assms(3) by auto
  have m: "x AND 0xff = x mod 256" "x AND 0x7f = x mod 128" for x :: int
    using take_bit_eq_mask [of 8 x] take_bit_eq_mask [of 7 x] by (simp_all add: take_bit_eq_mod mask_eq_exp_minus_1)
  show ?thesis using assms c by (simp add: input_keybrd_def inb_def Let_def m)
qed

end
