(* ===== verification/Am_Cte.thy ===== *)
theory Am_Cte
  imports Am_Lapic Am_Vme
begin

unbundle bit_operations_syntax

text \<open>
  Interrupts and contexts on \<open>x86_64-qemu\<close>: \<open>__am_irq_handle\<close>, \<open>cte_init\<close> and \<open>kcontext\<close> of
  \<open>abstract-machine/am/src/x86/qemu/cte.c\<close> and \<open>ucontext\<close> of \<open>vme.c\<close>.  Contexts and trap frames are bytes in
  memory with the layout of \<open>struct Context\<close> in \<open>arch/x86_64-qemu.h\<close> and \<open>struct trap_frame\<close> in
  \<open>x86-qemu.h\<close>; the assembly stubs that push and pop them are not C and are left out.  The kernel's handler
  is a parameter.
\<close>

subsection \<open>Contexts in memory\<close>

record Context =
  cr3 :: int
  rax :: int
  rbx :: int
  rcx :: int
  rdx :: int
  rbp :: int
  rsi :: int
  rdi :: int
  r8 :: int
  r9 :: int
  r10 :: int
  r11 :: int
  r12 :: int
  r13 :: int
  r14 :: int
  r15 :: int
  rip :: int
  cs :: int
  rflags :: int
  rsp :: int
  ss :: int
  rsp0 :: int

definition context_size :: int where
  "context_size = 176"

definition load_context :: "mem \<Rightarrow> int \<Rightarrow> Context" where
  "load_context m p =
     \<lparr>cr3 = load64 m p, rax = load64 m (p + 8), rbx = load64 m (p + 16), rcx = load64 m (p + 24), rdx = load64 m (p + 32),
      rbp = load64 m (p + 40), rsi = load64 m (p + 48), rdi = load64 m (p + 56), r8 = load64 m (p + 64), r9 = load64 m (p + 72),
      r10 = load64 m (p + 80), r11 = load64 m (p + 88), r12 = load64 m (p + 96), r13 = load64 m (p + 104),
      r14 = load64 m (p + 112), r15 = load64 m (p + 120), rip = load64 m (p + 128), cs = load64 m (p + 136),
      rflags = load64 m (p + 144), rsp = load64 m (p + 152), ss = load64 m (p + 160), rsp0 = load64 m (p + 168)\<rparr>"

text \<open>Assignments to one field.\<close>

definition set_cr3 :: "mem \<Rightarrow> int \<Rightarrow> int \<Rightarrow> mem" where
  "set_cr3 m p v = store64 m p v"

definition set_gpr1 :: "mem \<Rightarrow> int \<Rightarrow> int \<Rightarrow> mem" where
  "set_gpr1 m p v = store64 m (p + 56) v"

definition set_gpr2 :: "mem \<Rightarrow> int \<Rightarrow> int \<Rightarrow> mem" where
  "set_gpr2 m p v = store64 m (p + 48) v"

definition set_rip :: "mem \<Rightarrow> int \<Rightarrow> int \<Rightarrow> mem" where
  "set_rip m p v = store64 m (p + 128) v"

definition set_cs :: "mem \<Rightarrow> int \<Rightarrow> int \<Rightarrow> mem" where
  "set_cs m p v = store64 m (p + 136) v"

definition set_rflags :: "mem \<Rightarrow> int \<Rightarrow> int \<Rightarrow> mem" where
  "set_rflags m p v = store64 m (p + 144) v"

definition set_rsp :: "mem \<Rightarrow> int \<Rightarrow> int \<Rightarrow> mem" where
  "set_rsp m p v = store64 m (p + 152) v"

definition set_ss :: "mem \<Rightarrow> int \<Rightarrow> int \<Rightarrow> mem" where
  "set_ss m p v = store64 m (p + 160) v"

definition set_rsp0 :: "mem \<Rightarrow> int \<Rightarrow> int \<Rightarrow> mem" where
  "set_rsp0 m p v = store64 m (p + 168) v"

lemmas context_setters = set_cr3_def set_gpr1_def set_gpr2_def set_rip_def set_cs_def set_rflags_def set_rsp_def
  set_ss_def set_rsp0_def

text \<open>\<^verbatim>\<open>*ctx = (Context) { 0 }\<close>\<close>

definition clear_context :: "mem \<Rightarrow> int \<Rightarrow> mem" where
  "clear_context m p = (\<lambda>x. if p \<le> x \<and> x < p + context_size then 0 else m x)"

lemma load64_clear: "p \<le> a \<Longrightarrow> a + 8 \<le> p + context_size \<Longrightarrow> load64 (clear_context m p) a = 0"
  by (simp add: load64_def load32_def clear_context_def context_size_def)

text \<open>How a setter changes the context it is applied to.\<close>

lemma load_set_context [simp]:
  "load_context (set_cr3 m p v) p = (load_context m p)\<lparr>cr3 := u64 v\<rparr>"
  "load_context (set_gpr1 m p v) p = (load_context m p)\<lparr>rdi := u64 v\<rparr>"
  "load_context (set_gpr2 m p v) p = (load_context m p)\<lparr>rsi := u64 v\<rparr>"
  "load_context (set_rip m p v) p = (load_context m p)\<lparr>rip := u64 v\<rparr>"
  "load_context (set_cs m p v) p = (load_context m p)\<lparr>cs := u64 v\<rparr>"
  "load_context (set_rflags m p v) p = (load_context m p)\<lparr>rflags := u64 v\<rparr>"
  "load_context (set_rsp m p v) p = (load_context m p)\<lparr>rsp := u64 v\<rparr>"
  "load_context (set_ss m p v) p = (load_context m p)\<lparr>ss := u64 v\<rparr>"
  "load_context (set_rsp0 m p v) p = (load_context m p)\<lparr>rsp0 := u64 v\<rparr>"
  by (simp_all add: load_context_def context_setters load64_store64 load_store_mixed)

lemma load_clear_context [simp]:
  "load_context (clear_context m p) p =
     \<lparr>cr3 = 0, rax = 0, rbx = 0, rcx = 0, rdx = 0, rbp = 0, rsi = 0, rdi = 0, r8 = 0, r9 = 0, r10 = 0, r11 = 0, r12 = 0,
      r13 = 0, r14 = 0, r15 = 0, rip = 0, cs = 0, rflags = 0, rsp = 0, ss = 0, rsp0 = 0\<rparr>"
  by (simp add: load_context_def load64_clear context_size_def)

lemma set_context_outside:
  assumes "x < p \<or> p + context_size \<le> x"
  shows "set_cr3 m p v x = m x" "set_gpr1 m p v x = m x" "set_gpr2 m p v x = m x" "set_rip m p v x = m x"
    "set_cs m p v x = m x" "set_rflags m p v x = m x" "set_rsp m p v x = m x" "set_ss m p v x = m x"
    "set_rsp0 m p v x = m x" "clear_context m p x = m x"
  using assms by (auto simp: context_setters context_size_def clear_context_def store64_frame)

subsection \<open>New contexts\<close>

definition KSEL :: "int \<Rightarrow> int" where
  "KSEL seg = seg * 2 ^ 3 OR 0"

definition USEL :: "int \<Rightarrow> int" where
  "USEL seg = seg * 2 ^ 3 OR 3"

text \<open>\<open>start\<close> stands for the address of \<^verbatim>\<open>__am_kcontext_start\<close>.\<close>

definition kcontext :: "int \<Rightarrow> int \<times> int \<Rightarrow> int \<Rightarrow> int \<Rightarrow> mem \<Rightarrow> mem \<times> int" where
  "kcontext start kstack entry arg m =
     (let ctx = snd kstack - context_size;
          m = clear_context m ctx;
          m = set_cs m ctx (KSEL 1);
          m = set_rip m ctx start;
          m = set_rflags m ctx 0x200;
          m = set_rsp m ctx (snd kstack);
          m = set_gpr1 m ctx arg;
          m = set_gpr2 m ctx entry
      in (m, ctx))"

definition ucontext :: "int \<Rightarrow> int \<times> int \<Rightarrow> int \<Rightarrow> mem \<Rightarrow> mem \<times> int" where
  "ucontext as kstack entry m =
     (let ctx = snd kstack - context_size;
          m = clear_context m ctx;
          m = set_cs m ctx (USEL 3);
          m = set_ss m ctx (USEL 4);
          m = set_rip m ctx entry;
          m = set_rflags m ctx 0x200;
          m = set_rsp m ctx (snd uvm_area);
          m = set_rsp0 m ctx (snd kstack);
          m = set_cr3 m ctx (load64 m (as_ptr as))
      in (m, ctx))"

end
