(* ===== verification/Am_Irq.thy ===== *)
theory Am_Irq
  imports Am_Cte
begin

unbundle bit_operations_syntax

text \<open>
  The C side of an interrupt: \<open>__am_irq_handle\<close> of \<open>abstract-machine/am/src/x86/qemu/cte.c\<close> completes the
  context in the trap frame, names the event, asks the kernel for the context to go on with, and hands
  that one to \<^verbatim>\<open>__am_iret\<close>.
\<close>

subsection \<open>Events\<close>

datatype event_kind =
  EVENT_NULL | EVENT_YIELD | EVENT_SYSCALL | EVENT_PAGEFAULT | EVENT_ERROR | EVENT_IRQ_TIMER | EVENT_IRQ_IODEV

record Event =
  event :: event_kind
  cause :: int
  ref :: int
  msg :: string

definition irq_event :: "int \<Rightarrow> int \<Rightarrow> int \<Rightarrow> Event" where
  "irq_event irq errcode cr2 =
     (let ev = (\<lambda>k s. \<lparr>event = k, cause = 0, ref = 0, msg = s\<rparr>)
      in if irq = 32 + 0 then ev EVENT_IRQ_TIMER ''timer interrupt (lapic)''
         else if irq = 32 + 1 then ev EVENT_IRQ_IODEV ''I/O device IRQ1 (keyboard)''
         else if irq = 32 + 4 then ev EVENT_IRQ_IODEV ''I/O device IRQ4 (COM1)''
         else if irq = 0x80 then ev EVENT_SYSCALL ''int $0x80 system call''
         else if irq = 0x81 then ev EVENT_YIELD ''int $0x81 yield''
         else if irq = 0 then ev EVENT_ERROR ''DE #0 divide by zero''
         else if irq = 6 then ev EVENT_ERROR ''UD #6 invalid opcode''
         else if irq = 7 then ev EVENT_ERROR ''NM #7 coprocessor error''
         else if irq = 8 then ev EVENT_ERROR ''DF #8 double fault''
         else if irq = 10 then ev EVENT_ERROR ''TS #10 invalid TSS''
         else if irq = 11 then ev EVENT_ERROR ''NP #11 segment/gate not present''
         else if irq = 12 then ev EVENT_ERROR ''SS #12 stack fault''
         else if irq = 13 then ev EVENT_ERROR ''GP #13, general protection fault''
         else if irq = 14 then
           let e = ev EVENT_PAGEFAULT ''PF #14, page fault, @cause: PROT_XXX'';
               e = (if errcode AND 0x1 \<noteq> 0 then e\<lparr>cause := cause e OR MMAP_NONE\<rparr> else e);
               e = (if errcode AND 0x2 \<noteq> 0 then e\<lparr>cause := cause e OR MMAP_WRITE\<rparr> else e\<lparr>cause := cause e OR 1\<rparr>)
           in e\<lparr>ref := cr2\<rparr>
         else (ev EVENT_ERROR ''unrecognized interrupt/exception'')\<lparr>cause := errcode\<rparr>)"

subsection \<open>The handler\<close>

text \<open>What the processor holds beside the context: \<^verbatim>\<open>CR2\<close>, \<^verbatim>\<open>CR3\<close> and the stack pointer in its task state segment.\<close>

record cpu =
  cr2 :: int
  cr3_reg :: int
  tss_rsp0 :: int

definition save_context :: "cpu \<Rightarrow> int \<Rightarrow> mem \<Rightarrow> mem" where
  "save_context c tf m =
     (let m = set_rip m tf (load64 m (tf + 192));
          m = set_cs m tf (load64 m (tf + 200));
          m = set_rflags m tf (load64 m (tf + 208));
          m = set_rsp m tf (load64 m (tf + 216));
          m = set_rsp0 m tf (tss_rsp0 c);
          m = set_ss m tf (load64 m (tf + 224))
      in set_cr3 m tf (cr3_reg c))"

text \<open>The result: memory and kernel state, the processor's registers, and the context passed to \<^verbatim>\<open>__am_iret\<close>.\<close>

definition irq_handle ::
    "hardware \<Rightarrow> int \<Rightarrow> (Event \<Rightarrow> int \<Rightarrow> mem \<times> 'k \<Rightarrow> ((mem \<times> 'k) \<times> int) cres) \<Rightarrow> int \<Rightarrow>
     mem \<times> 'k \<Rightarrow> cpu \<Rightarrow> history \<Rightarrow> ((mem \<times> 'k) \<times> cpu \<times> history \<times> Context) cres" where
  "irq_handle w lapic user_handler tf = (\<lambda>(m, k) c h.
     let m = save_context c tf m;
         irq = load64 m (tf + 176);
         h = (if 32 + 0 \<le> irq \<and> irq < 32 + 32 then lapic_eoi w lapic h else h);
         ev = irq_event irq (load64 m (tf + 184)) (cr2 c)
     in cbind (user_handler ev tf (m, k)) (\<lambda>((m, k), ret).
          if ret = 0 then cfail Panic
          else
            let c = (if load64 m ret \<noteq> 0 then c\<lparr>cr3_reg := load64 m ret, tss_rsp0 := load64 m (ret + 168)\<rparr> else c)
            in cret ((m, k), c, h, load_context m ret)))"

text \<open>\<open>ienabled\<close> and \<open>iset\<close> on the flags register: \<^verbatim>\<open>sti\<close> and \<^verbatim>\<open>cli\<close> set and clear \<^verbatim>\<open>FL_IF\<close>.\<close>

definition ienabled :: "int \<Rightarrow> bool" where
  "ienabled efl \<longleftrightarrow> efl AND 0x200 \<noteq> 0"

definition iset :: "bool \<Rightarrow> int \<Rightarrow> int" where
  "iset enable efl = (if enable then efl OR 0x200 else efl AND NOT 0x200)"

lemma ienabled_iset: "ienabled (iset b efl) = b"
proof -
  have "ienabled x = bit x 9" for x using and_exp_eq_0_iff_not_bit [of x 9] by (simp add: ienabled_def)
  moreover have "bit (0x200 :: int) 9" by (simp add: bit_iff_odd)
  ultimately show ?thesis by (simp add: iset_def bit_or_iff bit_and_iff bit_not_iff)
qed

text \<open>\<open>iset\<close> leaves every other flag alone.\<close>

lemma iset_other_flags: "iset b efl AND NOT 0x200 = efl AND NOT 0x200"
  by (rule bit_eqI) (auto simp: iset_def bit_simps)

subsection \<open>Switching contexts\<close>

text \<open>The state in which the interrupt found the program.\<close>

definition interrupted :: "cpu \<Rightarrow> int \<Rightarrow> mem \<Rightarrow> Context" where
  "interrupted c tf m =
     (load_context m tf)\<lparr>cr3 := cr3_reg c, rip := load64 m (tf + 192), cs := load64 m (tf + 200),
       rflags := load64 m (tf + 208), rsp := load64 m (tf + 216), ss := load64 m (tf + 224), rsp0 := tss_rsp0 c\<rparr>"

definition cpu_ok :: "cpu \<Rightarrow> bool" where
  "cpu_ok c \<longleftrightarrow> 0 < cr3_reg c \<and> cr3_reg c < 2 ^ 64 \<and> 0 \<le> tss_rsp0 c \<and> tss_rsp0 c < 2 ^ 64"

lemma frame_fields:
  "d \<in> {176, 184, 192, 200, 208, 216, 224} \<Longrightarrow> load64 (set_rip m p v) (p + d) = load64 m (p + d)"
  "d \<in> {176, 184, 192, 200, 208, 216, 224} \<Longrightarrow> load64 (set_cs m p v) (p + d) = load64 m (p + d)"
  "d \<in> {176, 184, 192, 200, 208, 216, 224} \<Longrightarrow> load64 (set_rflags m p v) (p + d) = load64 m (p + d)"
  "d \<in> {176, 184, 192, 200, 208, 216, 224} \<Longrightarrow> load64 (set_rsp m p v) (p + d) = load64 m (p + d)"
  "d \<in> {176, 184, 192, 200, 208, 216, 224} \<Longrightarrow> load64 (set_rsp0 m p v) (p + d) = load64 m (p + d)"
  "d \<in> {176, 184, 192, 200, 208, 216, 224} \<Longrightarrow> load64 (set_ss m p v) (p + d) = load64 m (p + d)"
  "d \<in> {176, 184, 192, 200, 208, 216, 224} \<Longrightarrow> load64 (set_cr3 m p v) (p + d) = load64 m (p + d)"
  by (auto intro!: load64_cong simp: set_context_outside context_size_def)

lemma load_save_context:
  assumes "cpu_ok c"
  shows "load_context (save_context c tf m) tf = interrupted c tf m"
    and "load64 (save_context c tf m) (tf + 176) = load64 m (tf + 176)"
    and "load64 (save_context c tf m) (tf + 184) = load64 m (tf + 184)"
  using assms by (simp_all add: save_context_def Let_def frame_fields interrupted_def cpu_ok_def u64_id)

lemma load_context_cong:
  assumes "\<And>x. p \<le> x \<Longrightarrow> x < p + context_size \<Longrightarrow> m x = m' x"
  shows "load_context m p = load_context m' p"
proof -
  have "load64 m (p + d) = load64 m' (p + d)" if "0 \<le> d" "d + 8 \<le> 176" for d
    using that assms by (intro load64_cong) (auto simp: context_size_def)
  from this [of 0] this show ?thesis by (simp add: load_context_def)
qed

lemma context_fields: "load64 m p = cr3 (load_context m p)" "load64 m (p + 168) = rsp0 (load_context m p)"
  by (simp_all add: load_context_def)

text \<open>C29. A context that an interrupt saved is resumed exactly: whenever the kernel, in this interrupt or in any
  later one on whatever trap frame, returns a pointer to a context whose bytes are still those that were
  saved, the program goes on with the registers, the address space and the kernel stack it was
  interrupted with.\<close>

theorem context_resumed:
  assumes "cpu_ok c" and "tf \<noteq> 0"
    and "user_handler (irq_event (load64 m2 (tf2 + 176)) (load64 m2 (tf2 + 184)) (cr2 c2)) tf2 (save_context c2 tf2 m2, k2) =
      cret ((m3, k3), tf)"
    and "cpu_ok c2" and "\<And>x. tf \<le> x \<Longrightarrow> x < tf + context_size \<Longrightarrow> m3 x = save_context c tf m x"
  shows "\<exists>h3. irq_handle w lapic user_handler tf2 (m2, k2) c2 h2 =
    cret ((m3, k3), c2\<lparr>cr3_reg := cr3_reg c, tss_rsp0 := tss_rsp0 c\<rparr>, h3, interrupted c tf m)"
proof -
  have ctx: "load_context m3 tf = interrupted c tf m"
    using load_context_cong [of tf m3 "save_context c tf m"] assms(5) load_save_context(1) [OF assms(1)] by simp
  then have "load64 m3 tf = cr3_reg c" "load64 m3 (tf + 168) = tss_rsp0 c"
    using context_fields [of m3 tf] by (simp_all add: interrupted_def)
  moreover have "cr3_reg c \<noteq> 0" using assms(1) by (simp add: cpu_ok_def)
  ultimately show ?thesis
    using assms(2,3) ctx load_save_context(2,3) [OF assms(4)] by (simp add: irq_handle_def Let_def)
qed

text \<open>An interrupt at 4096 whose handler returns the context it was given.\<close>

definition demo_cpu :: cpu where
  "demo_cpu = \<lparr>cr2 = 0, cr3_reg = 0x1000, tss_rsp0 = 0x9000\<rparr>"

definition idle_hardware :: hardware where
  "idle_hardware = \<lparr>in8 = (\<lambda>h p. 0), in32 = (\<lambda>h p. 0), tsc = (\<lambda>h. 0), mmio = (\<lambda>h a. 0)\<rparr>"

theorem context_resumed_witness:
  "\<exists>h3. irq_handle idle_hardware 0xFEE00000 (\<lambda>ev ctx (m, k :: nat). cret ((m, Suc k), ctx)) 4096 (\<lambda>_. 7, 0) demo_cpu [] =
     cret ((save_context demo_cpu 4096 (\<lambda>_. 7), 1), demo_cpu, h3, interrupted demo_cpu 4096 (\<lambda>_. 7))"
proof -
  have ok: "cpu_ok demo_cpu" by (simp add: cpu_ok_def demo_cpu_def)
  show ?thesis
    using context_resumed [OF ok, of 4096 "\<lambda>ev ctx (m, k). cret ((m, Suc k), ctx)" "\<lambda>_. 7" 4096 demo_cpu 0
        "save_context demo_cpu 4096 (\<lambda>_. 7)" 1 "\<lambda>_. 7" idle_hardware "0xFEE00000" "[]"] ok by simp
qed

definition zero_context :: Context where
  "zero_context = \<lparr>cr3 = 0, rax = 0, rbx = 0, rcx = 0, rdx = 0, rbp = 0, rsi = 0, rdi = 0, r8 = 0, r9 = 0, r10 = 0, r11 = 0,
     r12 = 0, r13 = 0, r14 = 0, r15 = 0, rip = 0, cs = 0, rflags = 0, rsp = 0, ss = 0, rsp0 = 0\<rparr>"

lemma irq_handle_answer:
  assumes "\<And>ev. user_handler ev tf (save_context c tf m, k) = cret ((m', k'), p)" "p \<noteq> 0"
  shows "\<exists>h'. irq_handle w lapic user_handler tf (m, k) c h = cret ((m', k'),
     if load64 m' p \<noteq> 0 then c\<lparr>cr3_reg := load64 m' p, tss_rsp0 := load64 m' (p + 168)\<rparr> else c, h', load_context m' p)"
  using assms by (simp add: irq_handle_def Let_def)

lemma kcontext_loads:
  assumes "0 \<le> hi" "hi < 2 ^ 64" "0 \<le> entry" "entry < 2 ^ 64" "0 \<le> arg" "arg < 2 ^ 64" "0 \<le> start" "start < 2 ^ 64"
  shows "load_context (fst (kcontext start (lo, hi) entry arg m)) (hi - context_size) =
    zero_context\<lparr>cs := 8, rip := start, rflags := 0x200, rsp := hi, rdi := arg, rsi := entry\<rparr>"
  using assms by (simp add: kcontext_def Let_def zero_context_def KSEL_def u64_id)

lemma ucontext_loads:
  assumes "0 \<le> hi" "hi < 2 ^ 64" "0 \<le> entry" "entry < 2 ^ 64" "as_ptr as + 8 \<le> hi - context_size \<or> hi \<le> as_ptr as"
  shows "load_context (fst (ucontext as (lo, hi) entry m)) (hi - context_size) =
    zero_context\<lparr>cr3 := load64 m (as_ptr as), cs := 27, ss := 35, rip := entry, rflags := 0x200,
      rsp := 0x108000000000, rsp0 := hi\<rparr>"
proof -
  let ?p = "hi - context_size"
  have same: "load64 (set_rsp0 (set_rsp (set_rflags (set_rip (set_ss (set_cs (clear_context m ?p) ?p a) ?p b) ?p e) ?p f) ?p g) ?p i)
      (as_ptr as) = load64 m (as_ptr as)" for a b e f g i
    using assms(5) by (intro load64_cong) (auto simp: set_context_outside)
  show ?thesis
    using assms by (simp add: ucontext_def Let_def same zero_context_def USEL_def uvm_area_def vm_areas_def u64_id)
qed

lemma new_context_frame:
  assumes "x < hi - context_size \<or> hi \<le> x"
  shows "fst (kcontext start (lo, hi) entry arg m) x = m x" "fst (ucontext as (lo, hi) entry m) x = m x"
  using assms by (auto simp: kcontext_def ucontext_def Let_def set_context_outside)

lemma new_context_ptr: "snd (kcontext start (lo, hi) entry arg m) = hi - context_size"
  "snd (ucontext as (lo, hi) entry m) = hi - context_size"
  by (simp_all add: kcontext_def ucontext_def Let_def)

text \<open>C30. When the kernel answers an interrupt with a new kernel context, the processor goes on at the start stub
  with the entry function and its argument in the first two registers, on the new stack, in kernel mode
  with interrupts enabled and in the address space it was in; with a new user context it goes on at the
  user entry in user mode on the user stack, in the context's address space and with the kernel stack
  for its next interrupt.  Building either writes only the topmost bytes of the kernel stack.\<close>

theorem new_context_runs:
  assumes "context_size < hi" "hi < 2 ^ 64" "0 \<le> entry" "entry < 2 ^ 64" "0 \<le> arg" "arg < 2 ^ 64" "0 \<le> start" "start < 2 ^ 64"
    and "as_ptr as + 8 \<le> hi - context_size \<or> hi \<le> as_ptr as"
    and "load64 (save_context c tf m) (as_ptr as) = pt" "pt \<noteq> 0"
  shows "(\<exists>m' h'. irq_handle w lapic (\<lambda>ev ctx (m, k). case kcontext start (lo, hi) entry arg m of (m, p) \<Rightarrow> cret ((m, k), p)) tf (m, k) c h =
         cret ((m', k), c, h', zero_context\<lparr>cs := 8, rip := start, rflags := 0x200, rsp := hi, rdi := arg, rsi := entry\<rparr>) \<and>
       (\<forall>x. x < hi - context_size \<or> hi \<le> x \<longrightarrow> m' x = save_context c tf m x)) \<and>
     (\<exists>m' h'. irq_handle w lapic (\<lambda>ev ctx (m, k). case ucontext as (lo, hi) entry m of (m, p) \<Rightarrow> cret ((m, k), p)) tf (m, k) c h =
         cret ((m', k), c\<lparr>cr3_reg := pt, tss_rsp0 := hi\<rparr>, h', zero_context\<lparr>cr3 := pt, cs := 27, ss := 35, rip := entry,
            rflags := 0x200, rsp := 0x108000000000, rsp0 := hi\<rparr>) \<and>
       (\<forall>x. x < hi - context_size \<or> hi \<le> x \<longrightarrow> m' x = save_context c tf m x))"
proof -
  let ?s = "save_context c tf m" and ?p = "hi - context_size"
  have hi: "0 \<le> hi" "?p \<noteq> 0" using assms(1) by (auto simp: context_size_def)
  note kc = kcontext_loads [OF hi(1) assms(2-8), of lo ?s] and uc = ucontext_loads [OF hi(1) assms(2-4,9), of lo ?s]
  obtain mk where mk: "kcontext start (lo, hi) entry arg ?s = (mk, ?p)" using new_context_ptr(1) by (metis prod.collapse)
  obtain mu where mu: "ucontext as (lo, hi) entry ?s = (mu, ?p)" using new_context_ptr(2) by (metis prod.collapse)
  have "load64 mk ?p = 0" "load64 mu ?p = pt" "load64 mu (?p + 168) = hi"
    using context_fields [of mk ?p] context_fields [of mu ?p] kc uc assms(10) by (simp_all add: mk mu zero_context_def)
  note loads = this kc [unfolded mk fst_conv] uc [unfolded mu fst_conv assms(10)]
  have frame: "mk x = ?s x" "mu x = ?s x" if "x < ?p \<or> hi \<le> x" for x
    using new_context_frame [OF that] by (metis mk mu fst_conv)+
  let ?hk = "\<lambda>(ev :: Event) (ctx :: int) (m, k). case kcontext start (lo, hi) entry arg m of (m, p) \<Rightarrow> cret ((m, k), p)"
  let ?hu = "\<lambda>(ev :: Event) (ctx :: int) (m, k). case ucontext as (lo, hi) entry m of (m, p) \<Rightarrow> cret ((m, k), p)"
  obtain hk where hk: "irq_handle w lapic ?hk tf (m, k) c h = cret ((mk, k), c, hk, load_context mk ?p)"
    using irq_handle_answer [of ?hk tf c m k mk k ?p w lapic h] hi(2) loads(1) by (auto simp: mk)
  obtain hu where hu: "irq_handle w lapic ?hu tf (m, k) c h = cret ((mu, k), c\<lparr>cr3_reg := pt, tss_rsp0 := hi\<rparr>, hu, load_context mu ?p)"
    using irq_handle_answer [of ?hu tf c m k mu k ?p w lapic h] hi(2) loads(2,3) assms(11) by (auto simp: mu)
  show ?thesis using hk hu frame unfolding loads(4,5) by blast
qed

theorem new_context_runs_witness:
  "\<exists>m' h'. irq_handle idle_hardware 0 (\<lambda>ev ctx (m, k :: nat). case kcontext 0x100 (4096, 8192) 0x200 42 m of (m, p) \<Rightarrow> cret ((m, k), p))
     20000 (\<lambda>_. 1, 0) demo_cpu [] =
     cret ((m', 0), demo_cpu, h', zero_context\<lparr>cs := 8, rip := 0x100, rflags := 0x200, rsp := 8192, rdi := 42, rsi := 0x200\<rparr>)"
proof -
  have "load64 (save_context demo_cpu 20000 (\<lambda>_. 1)) (as_ptr 30000) = load64 (\<lambda>_. 1) (as_ptr 30000)"
    by (intro load64_cong) (simp add: save_context_def Let_def set_context_outside context_size_def as_ptr_def)
  then have "load64 (save_context demo_cpu 20000 (\<lambda>_. 1)) (as_ptr 30000) \<noteq> 0" by (simp add: load64_def load32_def)
  then show ?thesis
    using new_context_runs [where hi = 8192 and entry = "0x200" and arg = 42 and start = "0x100" and as = 30000 and c = demo_cpu
        and tf = 20000 and m = "\<lambda>_. 1" and lo = 4096 and k = "0 :: nat" and h = "[]" and w = idle_hardware and lapic = 0]
    by (auto simp: context_size_def as_ptr_def)
qed

end
