(* ===== verification/Am_Idt.thy ===== *)
theory Am_Idt
  imports C_Memory
begin

unbundle bit_operations_syntax

text \<open>
  The interrupt descriptor table: the gate descriptors and the list of interrupts of
  \<open>abstract-machine/am/src/x86/x86.h\<close> and \<open>cte_init\<close> of \<open>am/src/x86/qemu/cte.c\<close>.  The addresses of the assembly
  stubs are parameters.
\<close>

subsection \<open>Gates\<close>

record GateDesc64 =
  off_15_0 :: int
  gate_cs :: int
  isv :: int
  zero1 :: int
  gate_type :: int
  zero2 :: int
  dpl :: int
  present :: int
  off_31_16 :: int
  off_63_32 :: int
  rsv :: int

definition GATE64 :: "int \<Rightarrow> int \<Rightarrow> int \<Rightarrow> int \<Rightarrow> GateDesc64" where
  "GATE64 ty sel entry d =
     \<lparr>off_15_0 = entry AND 0xffff, gate_cs = sel, isv = 0, zero1 = 0, gate_type = ty, zero2 = 0, dpl = d, present = 1,
      off_31_16 = entry div 2 ^ 16 AND 0xffff, off_63_32 = entry div 2 ^ 32, rsv = 0\<rparr>"

abbreviation (input) DPL_KERN :: int where "DPL_KERN \<equiv> 0"
abbreviation (input) DPL_USER :: int where "DPL_USER \<equiv> 3"
abbreviation (input) STS_TG :: int where "STS_TG \<equiv> 0xf"
abbreviation (input) SEG_KCODE :: int where "SEG_KCODE \<equiv> 1"

definition IRQS :: "(nat \<times> int) list" where
  "IRQS = [
     (0, DPL_KERN), (1, DPL_KERN), (2, DPL_KERN), (3, DPL_KERN), (4, DPL_KERN), (5, DPL_KERN), (6,
     DPL_KERN), (7, DPL_KERN), (8, DPL_KERN), (9, DPL_KERN), (10, DPL_KERN), (11, DPL_KERN), (12,
     DPL_KERN), (13, DPL_KERN), (14, DPL_KERN), (15, DPL_KERN), (16, DPL_KERN), (19, DPL_KERN), (31,
     DPL_KERN), (32, DPL_KERN), (33, DPL_KERN), (34, DPL_KERN), (35, DPL_KERN), (36, DPL_KERN), (37,
     DPL_KERN), (38, DPL_KERN), (39, DPL_KERN), (40, DPL_KERN), (41, DPL_KERN), (42, DPL_KERN), (43,
     DPL_KERN), (44, DPL_KERN), (45, DPL_KERN), (46, DPL_KERN), (47, DPL_KERN), (128, DPL_USER), (129,
     DPL_USER)]"

fun install :: "(nat \<Rightarrow> int) \<Rightarrow> (nat \<times> int) list \<Rightarrow> GateDesc64 list \<Rightarrow> GateDesc64 list" where
  "install irq [] idt = idt"
| "install irq ((n, d) # is) idt = install irq is (idt[n := GATE64 STS_TG (SEG_KCODE * 2 ^ 3 OR DPL_KERN) (irq n) d])"

text \<open>The processor and the handler, zero for \<^verbatim>\<open>NULL\<close>, are checked first; \<open>idt\<close> and \<open>user_handler\<close> are the globals.\<close>

definition cte_init :: "int \<Rightarrow> int \<Rightarrow> (nat \<Rightarrow> int) \<Rightarrow> int \<Rightarrow> (GateDesc64 list \<times> int) cres" where
  "cte_init cpu irqall irq handler =
     (if cpu \<noteq> 0 then cfail Panic
      else if handler = 0 then cfail Panic
      else cret (install irq IRQS (replicate 256 (GATE64 STS_TG (SEG_KCODE * 2 ^ 3 OR DPL_KERN) irqall DPL_KERN)), handler))"

subsection \<open>Where an interrupt goes\<close>

definition gate_entry :: "GateDesc64 \<Rightarrow> int" where
  "gate_entry g = off_15_0 g + 2 ^ 16 * off_31_16 g + 2 ^ 32 * off_63_32 g"

lemma gate_entry_GATE64: "gate_entry (GATE64 ty sel entry d) = entry"
proof -
  have m: "x AND 0xffff = x mod 65536" for x :: int
    using take_bit_eq_mask [of 16 x] by (simp add: take_bit_eq_mod mask_eq_exp_minus_1)
  have "entry div 65536 = entry div 4294967296 * 65536 + entry div 65536 mod 65536"
    using zdiv_zmult2_eq [of 65536 entry 65536] by simp
  then have "entry mod 65536 + 65536 * (entry div 65536 mod 65536) + 4294967296 * (entry div 4294967296) = entry"
    using div_mult_mod_eq [of entry 65536] by linarith
  then show ?thesis by (simp add: gate_entry_def GATE64_def m)
qed

lemma install_nth:
  assumes "distinct (map fst is)" "i < length idt" "\<forall>(j, d) \<in> set is. j < length idt"
  shows "install irq is idt ! i = (case map_of is i of None \<Rightarrow> idt ! i
     | Some d \<Rightarrow> GATE64 STS_TG (SEG_KCODE * 2 ^ 3 OR DPL_KERN) (irq i) d)"
  using assms
proof (induction "is" arbitrary: idt)
  case (Cons x "is")
  obtain j d where x: "x = (j, d)" by (cases x)
  show ?case
  proof (cases "j = i")
    case True
    then have "map_of is i = None" using Cons.prems(1) by (simp add: x map_of_eq_None_iff)
    then show ?thesis using Cons True by (simp add: x)
  next
    case False
    then show ?thesis using Cons by (auto simp: x split: option.split)
  qed
qed simp

lemma install_length [simp]: "length (install irq is idt) = length idt"
  by (induction irq "is" idt rule: install.induct) auto

lemma IRQS_facts:
  "distinct (map fst IRQS)" "\<forall>(j, d) \<in> set IRQS. j < 256" "\<forall>(j, d) \<in> set IRQS. d = (if j = 128 \<or> j = 129 then 3 else 0)"
  "128 \<in> fst ` set IRQS" "129 \<in> fst ` set IRQS"
  by (simp_all add: IRQS_def)

text \<open>C31. After \<open>cte_init\<close> every interrupt the system knows enters at its own stub and every other vector at the
  common one, all through present trap gates into the kernel's code segment, and user programs can raise
  only the two software interrupts, 128 and 129.\<close>

theorem cte_init_gates:
  assumes "handler \<noteq> 0" "i < 256"
  shows "\<exists>idt. cte_init 0 irqall irq handler = cret (idt, handler) \<and> length idt = 256 \<and>
    gate_entry (idt ! i) = (if i \<in> fst ` set IRQS then irq i else irqall) \<and>
    gate_type (idt ! i) = 0xf \<and> present (idt ! i) = 1 \<and> gate_cs (idt ! i) = 8 \<and>
    dpl (idt ! i) = (if i = 128 \<or> i = 129 then 3 else 0)"
proof -
  let ?idt = "install irq IRQS (replicate 256 (GATE64 STS_TG (SEG_KCODE * 2 ^ 3 OR DPL_KERN) irqall DPL_KERN))"
  have nth: "?idt ! i = (case map_of IRQS i of None \<Rightarrow> GATE64 STS_TG 8 irqall DPL_KERN | Some d \<Rightarrow> GATE64 STS_TG 8 (irq i) d)"
    using install_nth [OF IRQS_facts(1), of i "replicate 256 (GATE64 STS_TG (SEG_KCODE * 2 ^ 3 OR DPL_KERN) irqall DPL_KERN)" irq]
      IRQS_facts(2) assms(2) by (auto split: option.split)
  show ?thesis
  proof (cases "map_of IRQS i")
    case None
    then have "i \<notin> fst ` set IRQS" by (simp add: map_of_eq_None_iff)
    then show ?thesis using None nth assms IRQS_facts(4,5)
      by (auto simp: cte_init_def gate_entry_GATE64) (auto simp: GATE64_def)
  next
    case (Some d)
    then have "(i, d) \<in> set IRQS" by (rule map_of_SomeD)
    then have "i \<in> fst ` set IRQS" "d = (if i = 128 \<or> i = 129 then 3 else 0)" using IRQS_facts(3) by (force, blast)
    then show ?thesis using Some nth assms
      by (auto simp: cte_init_def gate_entry_GATE64) (auto simp: GATE64_def)
  qed
qed

theorem cte_init_gates_witness:
  "\<exists>idt. cte_init 0 0x5000 (\<lambda>i. 0x6000 + 16 * int i) 0x7000 = cret (idt, 0x7000) \<and> gate_entry (idt ! 14) = 0x60e0 \<and> dpl (idt ! 14) = 0"
  using cte_init_gates [of "0x7000" 14 "0x5000" "\<lambda>i. 0x6000 + 16 * int i"] by (auto simp: IRQS_def)

end
