(* ===== verification/Am_Gdt.thy ===== *)
theory Am_Gdt
  imports Am_Cte
begin

unbundle bit_operations_syntax

text \<open>
  Segment descriptors, \<open>abstract-machine/am/src/x86/x86.h\<close>, and the table of a processor,
  \<open>__am_percpu_initgdt\<close> of \<open>am/src/x86/qemu/trm.c\<close>.
\<close>

record SegDesc =
  lim_15_0 :: int
  base_15_0 :: int
  base_23_16 :: int
  seg_type :: int
  seg_s :: int
  seg_dpl :: int
  seg_p :: int
  lim_19_16 :: int
  seg_avl :: int
  seg_l :: int
  seg_db :: int
  seg_g :: int
  base_31_24 :: int

text \<open>The compiler stores into a bit field of \<open>n\<close> bits modulo \<open>2 ^ n\<close>.\<close>

definition SEG16 :: "int \<Rightarrow> int \<Rightarrow> int \<Rightarrow> int \<Rightarrow> SegDesc" where
  "SEG16 ty base lim d =
     \<lparr>lim_15_0 = lim AND 0xffff, base_15_0 = base AND 0xffff, base_23_16 = base div 2 ^ 16 AND 0xff, seg_type = ty, seg_s = 0,
      seg_dpl = d, seg_p = 1, lim_19_16 = lim div 2 ^ 16 mod 16, seg_avl = 0, seg_l = 0, seg_db = 1, seg_g = 0,
      base_31_24 = base div 2 ^ 24 mod 256\<rparr>"

definition SEG64 :: "int \<Rightarrow> int \<Rightarrow> SegDesc" where
  "SEG64 ty d =
     \<lparr>lim_15_0 = 0, base_15_0 = 0, base_23_16 = 0, seg_type = ty, seg_s = 1, seg_dpl = d, seg_p = 1, lim_19_16 = 0,
      seg_avl = 0, seg_l = 1, seg_db = 0, seg_g = 0, base_31_24 = 0\<rparr>"

text \<open>The table in use before the call is zero apart from the entries that are assigned; the result is with the task selector.\<close>

definition percpu_initgdt :: "SegDesc list \<Rightarrow> int \<Rightarrow> (SegDesc list \<times> int) cres" where
  "percpu_initgdt gdt tss =
     (let gdt = gdt[1 := SEG64 (0x8 OR 0x2) 0];
          gdt = gdt[2 := SEG64 0x2 0];
          gdt = gdt[3 := SEG64 (0x8 OR 0x2) 3];
          gdt = gdt[4 := SEG64 0x2 3];
          gdt = gdt[5 := SEG16 0x9 tss (104 - 1) 0]
      in if tss div 2 ^ 32 \<noteq> 0 then cfail Panic else cret (gdt, KSEL 5))"

text \<open>The segment a selector names, and its requested privilege.\<close>

definition selected :: "SegDesc list \<Rightarrow> int \<Rightarrow> SegDesc" where
  "selected gdt sel = gdt ! nat (sel div 8)"

definition seg_base :: "SegDesc \<Rightarrow> int" where
  "seg_base g = base_15_0 g + 2 ^ 16 * base_23_16 g + 2 ^ 24 * base_31_24 g"

lemma base_bytes: "0 \<le> b \<Longrightarrow> b < 4294967296 \<Longrightarrow>
    b mod 65536 + 65536 * (b div 65536 mod 256) + 16777216 * (b div 16777216 mod 256) = b" for b :: int
proof -
  assume b: "0 \<le> b" "b < 4294967296"
  have "b div 16777216 < 256" "0 \<le> b div 16777216" using b by (auto simp: pos_imp_zdiv_nonneg_iff intro: div_below)
  then have "b div 16777216 mod 256 = b div 16777216" by simp
  moreover have "b div 65536 = b div 16777216 * 256 + b div 65536 mod 256" using zdiv_zmult2_eq [of 256 b 65536] by simp
  ultimately show ?thesis using div_mult_mod_eq [of b 65536] by linarith
qed

lemma field_masks: "x AND 0xffff = x mod 65536" "x AND 0xff = x mod 256" for x :: int
  using take_bit_eq_mask [of 16 x] take_bit_eq_mask [of 8 x] by (simp_all add: take_bit_eq_mod mask_eq_exp_minus_1)

text \<open>What the processor reads from a descriptor: a present 64-bit code segment (type bit 3 executable, \<open>l\<close> set and \<open>d\<close> clear),
  a present writable data segment (type bit 3 clear, bit 1 writable), and a present available task state segment.\<close>

definition code64_seg :: "SegDesc \<Rightarrow> bool" where
  "code64_seg g \<longleftrightarrow> seg_p g = 1 \<and> seg_s g = 1 \<and> seg_type g AND 8 = 8 \<and> seg_l g = 1 \<and> seg_db g = 0"

definition data_seg :: "SegDesc \<Rightarrow> bool" where
  "data_seg g \<longleftrightarrow> seg_p g = 1 \<and> seg_s g = 1 \<and> seg_type g AND 8 = 0 \<and> seg_type g AND 2 = 2"

definition task_seg :: "SegDesc \<Rightarrow> int \<Rightarrow> int \<Rightarrow> bool" where
  "task_seg g base lim \<longleftrightarrow> seg_p g = 1 \<and> seg_s g = 0 \<and> seg_type g = 9 \<and> seg_dpl g = 0 \<and> seg_base g = base \<and>
     lim_15_0 g + 2 ^ 16 * lim_19_16 g = lim \<and> seg_g g = 0"

text \<open>C32. The table fits the contexts: the code and stack selectors that \<open>kcontext\<close> and \<open>ucontext\<close> put into a new
  context name present 64-bit code and writable data segments whose descriptor privilege is the privilege the selector
  asks for, 0 for the kernel and 3 for the user, and the task selector names an available task state segment at the
  processor's, of 104 bytes.\<close>

theorem contexts_fit_gdt:
  assumes "length gdt = 7" "0 \<le> tss" "tss < 2 ^ 32" "0 \<le> hi" "hi < 2 ^ 64"
  shows "\<exists>g tr. percpu_initgdt gdt tss = cret (g, tr) \<and>
    (let kcs = cs (load_context (fst (kcontext start (lo, hi) entry arg m)) (hi - context_size));
         u = load_context (fst (ucontext as (lo, hi) entry m)) (hi - context_size)
     in code64_seg (selected g kcs) \<and> kcs mod 4 = 0 \<and> seg_dpl (selected g kcs) = 0 \<and>
        code64_seg (selected g (cs u)) \<and> cs u mod 4 = 3 \<and> seg_dpl (selected g (cs u)) = 3 \<and>
        data_seg (selected g (ss u)) \<and> ss u mod 4 = 3 \<and> seg_dpl (selected g (ss u)) = 3) \<and>
    task_seg (selected g tr) tss 103 \<and> length g = 7"
proof -
  have "tss div 2 ^ 32 = 0" using assms(2,3) by (simp add: div_pos_pos_trivial)
  moreover have "cs (load_context (fst (kcontext start (lo, hi) entry arg m)) (hi - context_size)) = 8"
    "cs (load_context (fst (ucontext as (lo, hi) entry m)) (hi - context_size)) = 27"
    "ss (load_context (fst (ucontext as (lo, hi) entry m)) (hi - context_size)) = 35"
    by (simp_all add: kcontext_def ucontext_def Let_def KSEL_def USEL_def u64_id)
  moreover have "code64_seg (SEG64 0xA d)" "data_seg (SEG64 2 d)" "seg_dpl (SEG64 ty d) = d" for ty d
    by (simp_all add: code64_seg_def data_seg_def SEG64_def)
  moreover have "task_seg (SEG16 0x9 tss (104 - 1) 0) tss 103"
    using base_bytes [of tss] assms(2,3) by (simp add: task_seg_def seg_base_def SEG16_def field_masks)
  ultimately show ?thesis using assms(1) by (simp add: percpu_initgdt_def Let_def selected_def KSEL_def)
qed

theorem contexts_fit_gdt_witness:
  "\<exists>g tr. percpu_initgdt (replicate 7 (SEG64 0 0)) 0x8000 = cret (g, tr) \<and>
     seg_dpl (selected g (cs (load_context (fst (ucontext 0 (0, 8192) 0 (\<lambda>_. 0))) (8192 - context_size)))) = 3 \<and>
     seg_l (selected g (cs (load_context (fst (ucontext 0 (0, 8192) 0 (\<lambda>_. 0))) (8192 - context_size)))) = 1 \<and>
     seg_base (selected g tr) = 0x8000"
  using contexts_fit_gdt [where gdt = "replicate 7 (SEG64 0 0)" and tss = "0x8000" and hi = 8192 and lo = 0 and as = 0
      and start = 0 and entry = 0 and arg = 0 and m = "\<lambda>_. 0"] by (auto simp: Let_def code64_seg_def task_seg_def)

end
