(* ===== verification/Am_Mpe.thy ===== *)
theory Am_Mpe
  imports Spinlock
begin

text \<open>
  Starting the other processors, \<open>mpe_init\<close> and \<open>othercpu_entry\<close> of \<open>abstract-machine/am/src/x86/qemu/mpe.c\<close>:
  the boot processor starts them one after the other, and each reports through \<open>ap_ready\<close> when it has
  set itself up.  The boot code uses one boot record for all of them, so no two may start at a time.
  The processors run concurrently: a step is one access to the boot record or to \<open>ap_ready\<close>, or one call on a processor.
\<close>

subsection \<open>The protocol\<close>

text \<open>
  The boot processor is at the loop test with \<^verbatim>\<open>cpu = n\<close>, is about to start \<open>n\<close>, spins for it, or has called the user's entry.
  Another processor waits to be started, runs \<^verbatim>\<open>__am_percpu_init\<close>, has done so, has reported it with its
  exchange but not yet called the entry, or has called it.
\<close>

datatype bsp_pc = Next nat | Boot nat | Spin nat | BspEntered

datatype ap_pc = Off | Initializing | Initialized | Reported | ApEntered

record mpe_sys =
  ap_ready :: int
  is_ap :: bool
  bsp :: bsp_pc
  aps :: "nat \<Rightarrow> ap_pc"

definition init_mpe_sys :: mpe_sys where
  "init_mpe_sys = \<lparr>ap_ready = 0, is_ap = False, bsp = Next 1, aps = (\<lambda>_. Off)\<rparr>"

inductive mpe_step :: "nat \<Rightarrow> mpe_sys \<Rightarrow> mpe_sys \<Rightarrow> bool" for ncpu where
  set_is_ap: "bsp s = Next n \<Longrightarrow> n < ncpu \<Longrightarrow> mpe_step ncpu s (s\<lparr>is_ap := True, bsp := Boot n\<rparr>)"
| boot_ap: "bsp s = Boot n \<Longrightarrow> mpe_step ncpu s (s\<lparr>bsp := Spin n, aps := (aps s)(n := Initializing)\<rparr>)"
| spin: "bsp s = Spin n \<Longrightarrow> atomic_xchg (ap_ready s) 0 = (old, new) \<Longrightarrow> old \<noteq> 1 \<Longrightarrow>
    mpe_step ncpu s (s\<lparr>ap_ready := new\<rparr>)"
| spin_done: "bsp s = Spin n \<Longrightarrow> atomic_xchg (ap_ready s) 0 = (old, new) \<Longrightarrow> old = 1 \<Longrightarrow>
    mpe_step ncpu s (s\<lparr>ap_ready := new, bsp := Next (n + 1)\<rparr>)"
| bsp_enter: "bsp s = Next n \<Longrightarrow> \<not> n < ncpu \<Longrightarrow> mpe_step ncpu s (s\<lparr>bsp := BspEntered\<rparr>)"
| percpu_init: "aps s i = Initializing \<Longrightarrow> mpe_step ncpu s (s\<lparr>aps := (aps s)(i := Initialized)\<rparr>)"
| report: "aps s i = Initialized \<Longrightarrow> atomic_xchg (ap_ready s) 1 = (old, new) \<Longrightarrow>
    mpe_step ncpu s (s\<lparr>ap_ready := new, aps := (aps s)(i := Reported)\<rparr>)"
| ap_enter: "aps s i = Reported \<Longrightarrow> mpe_step ncpu s (s\<lparr>aps := (aps s)(i := ApEntered)\<rparr>)"

inductive mpe_reachable :: "nat \<Rightarrow> mpe_sys \<Rightarrow> bool" for ncpu where
  mpe_start: "mpe_reachable ncpu init_mpe_sys"
| mpe_next: "mpe_reachable ncpu s \<Longrightarrow> mpe_step ncpu s t \<Longrightarrow> mpe_reachable ncpu t"

subsection \<open>The invariant\<close>

text \<open>A processor is up when it has set itself up and said so.\<close>

definition up :: "ap_pc \<Rightarrow> bool" where
  "up p \<longleftrightarrow> p = Reported \<or> p = ApEntered"

lemma up_simps [simp]: "\<not> up Off" "\<not> up Initializing" "\<not> up Initialized" "up Reported" "up ApEntered"
  by (simp_all add: up_def)

text \<open>Processors below the one being started are up, those above are off.\<close>

definition mpe_inv :: "nat \<Rightarrow> mpe_sys \<Rightarrow> bool" where
  "mpe_inv ncpu s \<longleftrightarrow> (case bsp s of
      Next n \<Rightarrow> 1 \<le> n \<and> n \<le> max 1 ncpu \<and> ap_ready s = 0 \<and> (1 < n \<longrightarrow> is_ap s) \<and>
        (\<forall>i. if 1 \<le> i \<and> i < n then up (aps s i) else aps s i = Off)
    | Boot n \<Rightarrow> 1 \<le> n \<and> n < ncpu \<and> ap_ready s = 0 \<and> is_ap s \<and>
        (\<forall>i. if 1 \<le> i \<and> i < n then up (aps s i) else aps s i = Off)
    | Spin n \<Rightarrow> 1 \<le> n \<and> n < ncpu \<and> ap_ready s = (if up (aps s n) then 1 else 0) \<and> aps s n \<noteq> Off \<and> is_ap s \<and>
        (\<forall>i. i \<noteq> n \<longrightarrow> (if 1 \<le> i \<and> i < n then up (aps s i) else aps s i = Off))
    | BspEntered \<Rightarrow> ap_ready s = 0 \<and> (1 < ncpu \<longrightarrow> is_ap s) \<and>
        (\<forall>i. if 1 \<le> i \<and> i < ncpu then up (aps s i) else aps s i = Off))"

definition starting :: "mpe_sys \<Rightarrow> nat set" where
  "starting s = {i. aps s i = Initializing \<or> aps s i = Initialized}"

text \<open>What the invariant says of one processor.\<close>

lemma mpe_inv_ap:
  assumes "mpe_inv ncpu s"
  shows "bsp s = Spin i \<or> up (aps s i) \<or> aps s i = Off" and "aps s i \<noteq> Off \<Longrightarrow> 1 \<le> i \<and> i < ncpu \<and> is_ap s"
proof -
  have "(bsp s = Spin i \<or> up (aps s i) \<or> aps s i = Off) \<and> (aps s i \<noteq> Off \<longrightarrow> 1 \<le> i \<and> i < ncpu \<and> is_ap s)"
  proof (cases "bsp s")
    case (Next n)
    then show ?thesis using assms by (auto simp: mpe_inv_def dest!: spec [of _ i] split: if_splits)
  next
    case (Boot n)
    then show ?thesis using assms by (auto simp: mpe_inv_def dest!: spec [of _ i] split: if_splits)
  next
    case (Spin n)
    then show ?thesis using assms by (cases "i = n") (auto simp: mpe_inv_def dest!: spec [of _ i] split: if_splits)
  next
    case BspEntered
    then show ?thesis using assms by (auto simp: mpe_inv_def dest!: spec [of _ i] split: if_splits)
  qed
  then show "bsp s = Spin i \<or> up (aps s i) \<or> aps s i = Off" "aps s i \<noteq> Off \<Longrightarrow> 1 \<le> i \<and> i < ncpu \<and> is_ap s" by blast+
qed

lemma starting_spin: "mpe_inv ncpu s \<Longrightarrow> i \<in> starting s \<Longrightarrow> bsp s = Spin i"
  using mpe_inv_ap(1) [of ncpu s i] by (auto simp: starting_def)

text \<open>A processor that is up and stays up does not matter to the others.\<close>

lemma mpe_inv_up: "mpe_inv ncpu s \<Longrightarrow> up (aps s i) \<Longrightarrow> up p \<Longrightarrow> mpe_inv ncpu (s\<lparr>aps := (aps s)(i := p)\<rparr>)"
  by (cases "bsp s") (auto simp: mpe_inv_def split: if_splits)

lemma mpe_inv_step:
  assumes "mpe_step ncpu s t" "mpe_inv ncpu s"
  shows "mpe_inv ncpu t"
  using assms(1)
proof (cases rule: mpe_step.cases)
  case (set_is_ap n)
  then show ?thesis using assms(2) by (auto simp: mpe_inv_def)
next
  case (boot_ap n)
  then show ?thesis using assms(2) by (auto simp: mpe_inv_def)
next
  case (spin n old new)
  then show ?thesis using assms(2) by (auto simp: mpe_inv_def atomic_xchg_def split: if_splits)
next
  case (spin_done n old new)
  then have "up (aps s n)" using assms(2) by (auto simp: mpe_inv_def atomic_xchg_def split: if_splits)
  then show ?thesis using assms(2) spin_done by (auto simp: mpe_inv_def atomic_xchg_def less_Suc_eq)
next
  case (bsp_enter n)
  then have "n \<le> max 1 ncpu" using assms(2) by (simp add: mpe_inv_def)
  then have "1 \<le> i \<and> i < n \<longleftrightarrow> 1 \<le> i \<and> i < ncpu" for i using bsp_enter by auto
  then show ?thesis using assms(2) bsp_enter by (auto simp: mpe_inv_def)
next
  case (percpu_init i)
  then have "bsp s = Spin i" using starting_spin [OF assms(2)] by (simp add: starting_def)
  with percpu_init show ?thesis using assms(2) by (auto simp: mpe_inv_def)
next
  case (report i old new)
  then have "bsp s = Spin i" using starting_spin [OF assms(2)] by (simp add: starting_def)
  with report show ?thesis using assms(2) by (auto simp: mpe_inv_def atomic_xchg_def)
next
  case (ap_enter i)
  then show ?thesis using mpe_inv_up [OF assms(2), of i] by simp
qed

lemma mpe_inv_reachable: "mpe_reachable ncpu s \<Longrightarrow> mpe_inv ncpu s"
proof (induction rule: mpe_reachable.induct)
  case mpe_start
  then show ?case by (simp add: mpe_inv_def init_mpe_sys_def)
next
  case (mpe_next s t)
  then show ?case by (blast intro: mpe_inv_step)
qed

text \<open>C33. Whatever the interleaving, at most one processor is starting up at a time, only processors 1 to \<open>ncpu - 1\<close>
  are started and only once \<open>is_ap\<close> is set, and when the boot processor enters the user's function every other one has finished its
  own initialization and reported it (it may not have called the function yet).\<close>

theorem mpe_start_up:
  assumes "mpe_reachable ncpu s"
  shows "(\<forall>i j. i \<in> starting s \<longrightarrow> j \<in> starting s \<longrightarrow> i = j) \<and>
    (bsp s = BspEntered \<longrightarrow> (\<forall>i. 1 \<le> i \<and> i < ncpu \<longrightarrow> aps s i = Reported \<or> aps s i = ApEntered)) \<and>
    (\<forall>i. aps s i \<noteq> Off \<longrightarrow> 1 \<le> i \<and> i < ncpu \<and> is_ap s)"
proof (intro conjI allI impI)
  note inv = mpe_inv_reachable [OF assms]
  show "i = j" if "i \<in> starting s" "j \<in> starting s" for i j
    using starting_spin [OF inv that(1)] starting_spin [OF inv that(2)] by simp
  show "aps s i = Reported \<or> aps s i = ApEntered" if "bsp s = BspEntered" "1 \<le> i \<and> i < ncpu" for i
    using inv that by (auto simp: mpe_inv_def up_def [symmetric])
qed (use mpe_inv_ap(2) [OF mpe_inv_reachable [OF assms]] in blast)+

theorem mpe_start_up_witness:
  "\<exists>s. starting s = {1} \<and> ((\<forall>i j. i \<in> starting s \<longrightarrow> j \<in> starting s \<longrightarrow> i = j) \<and>
    (bsp s = BspEntered \<longrightarrow> (\<forall>i. 1 \<le> i \<and> i < 3 \<longrightarrow> aps s i = Reported \<or> aps s i = ApEntered)) \<and>
    (\<forall>i. aps s i \<noteq> Off \<longrightarrow> 1 \<le> i \<and> i < 3 \<and> is_ap s))"
proof -
  let ?r = "init_mpe_sys\<lparr>is_ap := True, bsp := Boot 1\<rparr>"
  let ?s = "?r\<lparr>bsp := Spin 1, aps := (aps ?r)(1 := Initializing)\<rparr>"
  have "mpe_step 3 init_mpe_sys ?r" by (rule set_is_ap) (simp_all add: init_mpe_sys_def)
  then have "mpe_reachable 3 ?r" by (rule mpe_next [OF mpe_start])
  moreover have "mpe_step 3 ?r ?s" by (rule boot_ap) simp
  ultimately have "mpe_reachable 3 ?s" by (rule mpe_next)
  moreover have "starting ?s = {1}" by (auto simp: starting_def init_mpe_sys_def)
  ultimately show ?thesis using mpe_start_up [of 3 ?s] by blast
qed

subsection \<open>Progress\<close>

text \<open>The work that is left.\<close>

primrec ap_left :: "ap_pc \<Rightarrow> nat" where
  "ap_left Off = 4" | "ap_left Initializing = 3" | "ap_left Initialized = 2" | "ap_left Reported = 1" | "ap_left ApEntered = 0"

definition bsp_left :: "nat \<Rightarrow> bsp_pc \<Rightarrow> nat" where
  "bsp_left ncpu p = (case p of Next n \<Rightarrow> 3 * (ncpu - n) + 1 | Boot n \<Rightarrow> 3 * (ncpu - n) | Spin n \<Rightarrow> 3 * (ncpu - n) - 1 | BspEntered \<Rightarrow> 0)"

definition mpe_left :: "nat \<Rightarrow> mpe_sys \<Rightarrow> nat" where
  "mpe_left ncpu s = bsp_left ncpu (bsp s) + (\<Sum>i = 1..<ncpu. ap_left (aps s i))"

lemma aps_left:
  assumes "1 \<le> i" "i < (ncpu :: nat)" "ap_left p < ap_left (a i)"
  shows "(\<Sum>j = 1..<ncpu. ap_left ((a(i := p)) j)) < (\<Sum>j = 1..<ncpu. ap_left (a j))"
  using assms by (intro sum_strict_mono_ex1) auto

text \<open>Every step but a failed test of \<open>ap_ready\<close>, which changes nothing, leaves less to do.\<close>

lemma mpe_step_left:
  assumes "mpe_step ncpu s t" "mpe_inv ncpu s"
  shows "t = s \<or> mpe_left ncpu t < mpe_left ncpu s"
proof -
  have on: "1 \<le> i \<and> i < ncpu" if "aps s i \<noteq> Off" for i using mpe_inv_ap(2) [OF assms(2) that] by simp
  show ?thesis
    using assms(1)
  proof (cases rule: mpe_step.cases)
    case (set_is_ap n)
    then show ?thesis by (simp add: mpe_left_def bsp_left_def)
  next
    case (boot_ap n)
    then have "1 \<le> n" "n < ncpu" "aps s n = Off" using assms(2) by (auto simp: mpe_inv_def dest!: spec [of _ n])
    then have "(\<Sum>j = 1..<ncpu. ap_left (((aps s)(n := Initializing)) j)) < (\<Sum>j = 1..<ncpu. ap_left (aps s j))"
      by (intro aps_left) simp_all
    then show ?thesis using boot_ap \<open>n < ncpu\<close> by (intro disjI2) (simp add: mpe_left_def bsp_left_def)
  next
    case (spin n old new)
    then show ?thesis using assms(2) by (auto simp: mpe_inv_def atomic_xchg_def split: if_splits)
  next
    case (spin_done n old new)
    then have "n < ncpu" using assms(2) by (simp add: mpe_inv_def)
    then have "Suc (3 * (ncpu - Suc n)) < 3 * (ncpu - n) - 1" by arith
    then show ?thesis using spin_done by (intro disjI2) (simp add: mpe_left_def bsp_left_def)
  next
    case (bsp_enter n)
    then show ?thesis by (simp add: mpe_left_def bsp_left_def)
  next
    case (percpu_init i)
    then show ?thesis using on [of i] aps_left [of i ncpu Initialized "aps s"] by (simp add: mpe_left_def)
  next
    case (report i old new)
    then show ?thesis using on [of i] aps_left [of i ncpu Reported "aps s"] by (simp add: mpe_left_def)
  next
    case (ap_enter i)
    then show ?thesis using on [of i] aps_left [of i ncpu ApEntered "aps s"] by (simp add: mpe_left_def)
  qed
qed

text \<open>Until all have entered some step changes the state.\<close>

lemma mpe_can_step:
  assumes "mpe_inv ncpu s" "bsp s \<noteq> BspEntered \<or> (\<exists>i \<in> {1..<ncpu}. aps s i \<noteq> ApEntered)"
  shows "\<exists>t. mpe_step ncpu s t \<and> t \<noteq> s"
proof (cases "bsp s")
  case (Next n)
  then show ?thesis by (cases "n < ncpu") (fastforce intro: set_is_ap bsp_enter dest: arg_cong [where f = bsp])+
next
  case (Boot n)
  then show ?thesis by (fastforce intro: boot_ap dest: arg_cong [where f = bsp])
next
  case (Spin n)
  then have rdy: "ap_ready s = (if up (aps s n) then 1 else 0)" "aps s n \<noteq> Off" using assms(1) by (simp_all add: mpe_inv_def)
  show ?thesis
  proof (cases "up (aps s n)")
    case True
    then have "mpe_step ncpu s (s\<lparr>ap_ready := 0, bsp := Next (n + 1)\<rparr>)"
      using rdy(1) by (intro spin_done [OF Spin]) (simp_all add: atomic_xchg_def)
    then show ?thesis using Spin by (fastforce dest: arg_cong [where f = bsp])
  next
    case False
    then consider "aps s n = Initializing" | "aps s n = Initialized" using rdy(2) by (cases "aps s n") auto
    then show ?thesis
    proof cases
      case 1
      then show ?thesis by (fastforce intro: percpu_init dest: arg_cong [where f = "\<lambda>s. aps s n"])
    next
      case 2
      then have "mpe_step ncpu s (s\<lparr>ap_ready := 1, aps := (aps s)(n := Reported)\<rparr>)"
        by (rule report) (simp add: atomic_xchg_def)
      then show ?thesis using 2 by (fastforce dest: arg_cong [where f = "\<lambda>s. aps s n"])
    qed
  qed
next
  case BspEntered
  then obtain i where i: "1 \<le> i" "i < ncpu" "aps s i \<noteq> ApEntered" using assms(2) by auto
  then have "up (aps s i)" using assms(1) BspEntered by (simp add: mpe_inv_def)
  then have "aps s i = Reported" using i(3) by (simp add: up_def)
  then show ?thesis by (fastforce intro: ap_enter dest: arg_cong [where f = "\<lambda>s. aps s i"])
qed

text \<open>C34. The start-up cannot get stuck or go on for ever: every step of any processor either changes nothing, a test of
  \<open>ap_ready\<close> that failed, or leaves strictly less to do, and as long as the boot processor or any other has not
  called the user's function some processor has a step of the second kind.\<close>

theorem mpe_progress:
  assumes "mpe_reachable ncpu s"
  shows "(\<forall>t. mpe_step ncpu s t \<longrightarrow> t = s \<or> mpe_left ncpu t < mpe_left ncpu s) \<and>
    (bsp s \<noteq> BspEntered \<or> (\<exists>i \<in> {1..<ncpu}. aps s i \<noteq> ApEntered) \<longrightarrow>
      (\<exists>t. mpe_step ncpu s t \<and> mpe_left ncpu t < mpe_left ncpu s))"
  using mpe_step_left mpe_can_step mpe_inv_reachable [OF assms] by blast

theorem mpe_progress_witness:
  "\<exists>t. mpe_step 3 init_mpe_sys t \<and> mpe_left 3 t < mpe_left 3 init_mpe_sys"
  using mpe_progress [OF mpe_start, of 3] by (simp add: init_mpe_sys_def)

end
