(* ===== verification/Am_Trm.thy ===== *)
theory Am_Trm
  imports Am_Lapic
begin

unbundle bit_operations_syntax

text \<open>
  The machine itself, \<open>abstract-machine/am/src/x86/qemu/trm.c\<close>: halting, the size of the heap, the search for
  the processors in the multiprocessor tables of the firmware, and the segment descriptors; and
  \<open>__am_stop_the_world\<close> of \<open>mpe.c\<close>.  \<^verbatim>\<open>BOOTREC_ADDR\<close> is \<open>0x7000\<close>.
\<close>

subsection \<open>Halting\<close>

definition putch :: "int \<Rightarrow> history \<Rightarrow> history" where
  "putch ch h = outb 0x3f8 ch h"

fun stop_cpus :: "hardware \<Rightarrow> int \<Rightarrow> int list \<Rightarrow> mem \<times> history \<Rightarrow> mem \<times> history" where
  "stop_cpus w lapic [] st = st"
| "stop_cpus w lapic (c # cpus) (m, h) =
     (let (cur, h) = cpu_current w lapic h
      in stop_cpus w lapic cpus (if c \<noteq> cur then lapic_bootap w lapic c 0x7000 (m, h) else (m, h)))"

definition stop_the_world :: "hardware \<Rightarrow> int \<Rightarrow> int \<Rightarrow> mem \<times> history \<Rightarrow> mem \<times> history" where
  "stop_the_world w lapic ncpu = (\<lambda>(m, h). stop_cpus w lapic [0..ncpu - 1] (store32 m 0x7000 0x0000feeb, h))"

definition hex_char :: "int \<Rightarrow> int" where
  "hex_char d = of_char (''0123456789abcdef'' ! nat d)"

fun halt_loop :: "hardware \<Rightarrow> int \<Rightarrow> int \<Rightarrow> string \<Rightarrow> history \<Rightarrow> history" where
  "halt_loop w lapic code [] h = h"
| "halt_loop w lapic code (ch # p) h = halt_loop w lapic code p
     (if ch = CHR ''$'' then let (cur, h) = cpu_current w lapic h in putch (hex_char cur) h
      else if ch = CHR ''0'' \<or> ch = CHR ''4'' then
        putch (hex_char (code div 2 ^ nat (of_char ch - of_char CHR ''0'') AND 0xf)) h
      else putch (of_char ch) h)"

text \<open>The state in which \<open>halt\<close> stops for ever, with interrupts disabled.\<close>

definition halt :: "hardware \<Rightarrow> int \<Rightarrow> int \<Rightarrow> int \<Rightarrow> mem \<times> history \<Rightarrow> mem \<times> history" where
  "halt w lapic ncpu code st =
     (let (m, h) = stop_the_world w lapic ncpu st;
          h = halt_loop w lapic code (''CPU #$ Halt (40).'' @ [CHR 0x0A]) h
      in (m, outw 0x604 0x2000 h))"

subsection \<open>The heap\<close>

definition ROUNDUP :: "int \<Rightarrow> int \<Rightarrow> int" where
  "ROUNDUP a sz = u64 (a + sz - 1) AND NOT (sz - 1)"

definition heap_init :: "hardware \<Rightarrow> int \<Rightarrow> history \<Rightarrow> (int \<times> int) \<times> history" where
  "heap_init w end_addr h =
     (let h = outb 0x70 0x34 h;
          (lo, h) = inb w 0x71 h;
          h = outb 0x70 0x35 h;
          (v, h) = inb w 0x71 h;
          hi = u32 (v + 1)
      in ((ROUNDUP end_addr (2 ^ 20), u32 ((lo OR u32 (hi * 2 ^ 8)) * 2 ^ 16)), h))"

subsection \<open>The processors\<close>

text \<open>The entries of the configuration table: a processor has 20 bytes, anything else 8.\<close>

function mp_entries :: "mem \<Rightarrow> int \<Rightarrow> int \<Rightarrow> int \<Rightarrow> int cres" where
  "mp_entries m ptr stop ncpu =
     (if ptr < stop then
        if m ptr = 0 then if ncpu + 1 > 8 then cfail Panic else mp_entries m (ptr + 12 + 8) stop (ncpu + 1)
        else mp_entries m (ptr + 8) stop ncpu
      else cret ncpu)"
  by auto
termination by (relation "measure (\<lambda>(m, ptr, stop, ncpu). nat (stop - ptr))") auto

declare mp_entries.simps [simp del]

text \<open>\<open>n\<close> addresses are left to look at; the result is \<open>__am_lapic\<close> and \<open>__am_ncpu\<close>.\<close>

fun find_mp :: "nat \<Rightarrow> mem \<Rightarrow> int \<Rightarrow> (int \<times> int) cres" where
  "find_mp 0 m st = cfail Panic"
| "find_mp (Suc n) m st =
     (if load32 m st = 0x5f504d5f then
        let conf = load32 m (st + 4)
        in cbind (mp_entries m (conf + 44) (conf + load16 m (conf + 4)) 0) (\<lambda>ncpu. cret (load32 m (conf + 36), ncpu))
      else find_mp n m (st + 1))"

definition lapic_init :: "mem \<Rightarrow> (int \<times> int) cres" where
  "lapic_init m = find_mp (nat (0xffffff - 0xf0000)) m 0xf0000"

subsection \<open>What is printed\<close>

text \<open>The characters sent to the serial line, in order.\<close>

fun serial :: "history \<Rightarrow> int list" where
  "serial [] = []"
| "serial (Out8 p v # h) = (if p = 0x3f8 then serial h @ [v] else serial h)"
| "serial (e # h) = serial h"

lemma serial_lapicw [simp]: "serial (lapicw w lapic i v h) = serial h"
  by (simp add: lapicw_def reg_read_def reg_write_def Let_def)

lemma serial_bootap [simp]: "serial (snd (lapic_bootap w lapic c a (m, h))) = serial h"
  by (simp add: lapic_bootap_def Let_def outb_def)

lemma serial_cpu_current: "cpu_current w lapic h = (c, h') \<Longrightarrow> serial h' = serial h"
  by (auto simp: cpu_current_def reg_read_def Let_def)

lemma serial_stop_cpus: "stop_cpus w lapic cpus (m, h) = (m', h') \<Longrightarrow> serial h' = serial h"
proof (induction cpus arbitrary: m h)
  case (Cons c cpus)
  obtain cur h1 where c: "cpu_current w lapic h = (cur, h1)" by (cases "cpu_current w lapic h")
  obtain m2 h2 where b: "lapic_bootap w lapic c 0x7000 (m, h1) = (m2, h2)" by (cases "lapic_bootap w lapic c 0x7000 (m, h1)")
  have "serial h1 = serial h" "serial h2 = serial h1" using serial_cpu_current [OF c] serial_bootap [of w lapic c "0x7000" m h1] b by simp_all
  then show ?case using Cons c b by (auto split: if_splits)
qed simp

lemma serial_putch [simp]: "serial (putch ch h) = serial h @ [ch mod 256]"
  by (simp add: putch_def outb_def)

lemma hex_char_range: "0 \<le> d \<Longrightarrow> d < 16 \<Longrightarrow> hex_char d mod 256 = hex_char d"
  by (simp add: hex_char_def)

definition ascii :: "string \<Rightarrow> int list" where
  "ascii s = map of_char s"

lemma low_digit: "x AND 0xf = x mod 16" for x :: int
  using take_bit_eq_mask [of 4 x] by (simp add: take_bit_eq_mod mask_eq_exp_minus_1)

text \<open>\<open>halt\<close> reports, on the serial line, the processor it ran on and the low byte of its argument in
  hexadecimal, then asks the machine to power off.\<close>

theorem halt_message:
  assumes "\<And>h. u32 (mmio w h (lapic + 32)) div 2 ^ 24 = cpu" "0 \<le> cpu" "cpu < 16"
  shows "\<exists>m' h'. halt w lapic ncpu code (m, h) = (m', Out16 0x604 0x2000 # h') \<and>
    serial h' = serial h @ ascii ''CPU #'' @ [hex_char cpu] @ ascii '' Halt ('' @
      [hex_char (code div 16 mod 16), hex_char (code mod 16)] @ ascii '').'' @ [10]"
proof -
  obtain m1 h1 where stop: "stop_the_world w lapic ncpu (m, h) = (m1, h1)" by (cases "stop_the_world w lapic ncpu (m, h)")
  have h1: "serial h1 = serial h" using stop serial_stop_cpus by (simp add: stop_the_world_def)
  have cur: "\<exists>h'. cpu_current w lapic g = (cpu, h') \<and> serial h' = serial g" for g
    using assms(1) [of g] by (auto simp: cpu_current_def reg_read_def Let_def)
  have hex: "hex_char cpu mod 256 = hex_char cpu" "hex_char (code div 16 mod 16) mod 256 = hex_char (code div 16 mod 16)"
    "hex_char (code mod 16) mod 256 = hex_char (code mod 16)"
    using assms(2,3) by (simp_all add: hex_char_range)
  define g where "g = putch 35 (putch 32 (putch 85 (putch 80 (putch 67 h1))))"
  obtain g' where g': "cpu_current w lapic g = (cpu, g')" "serial g' = serial g" using cur by blast
  have "serial g = serial h @ ascii ''CPU #''" by (simp add: g_def h1 ascii_def)
  moreover have "halt_loop w lapic code (''CPU #$ Halt (40).'' @ [CHR 0x0A]) h1 =
      halt_loop w lapic code ('' Halt (40).'' @ [CHR 0x0A]) (putch (hex_char cpu) g')"
    using g'(1) by (simp add: g_def)
  moreover have "halt w lapic ncpu code (m, h) =
      (m1, Out16 0x604 0x2000 # halt_loop w lapic code (''CPU #$ Halt (40).'' @ [CHR 0x0A]) h1)"
    by (simp add: halt_def stop outw_def)
  ultimately show ?thesis
    by (simp add: g'(2) hex low_digit ascii_def)
qed

definition boot_cpu_hardware :: hardware where
  "boot_cpu_hardware = \<lparr>in8 = (\<lambda>h p. 0), in32 = (\<lambda>h p. 0), tsc = (\<lambda>h. 0), mmio = (\<lambda>h a. 0x02000000)\<rparr>"

theorem halt_message_witness:
  "\<exists>m' h'. halt boot_cpu_hardware 0xFEE00000 4 0xA7 (\<lambda>_. 0, []) = (m', Out16 0x604 0x2000 # h') \<and>
    serial h' = ascii ''CPU #2 Halt (a7).'' @ [10]"
  using halt_message [of boot_cpu_hardware "0xFEE00000" 2 4 "0xA7" "\<lambda>_. 0" "[]"]
  by (simp add: boot_cpu_hardware_def u32_def ascii_def hex_char_def)

subsection \<open>How much memory, and how many processors\<close>

lemma ROUNDUP_eq:
  assumes "0 \<le> a" "a + (2 ^ k - 1) < 2 ^ 64"
  shows "ROUNDUP a (2 ^ k) = (a + 2 ^ k - 1) div 2 ^ k * 2 ^ k"
proof -
  have "(1 :: int) \<le> 2 ^ k" "(2 :: int) ^ 64 = 18446744073709551616" by simp_all
  then have "u64 (a + 2 ^ k - 1) = a + 2 ^ k - 1" using assms by (intro u64_id) linarith+
  moreover have "x AND NOT (2 ^ k - 1) = x div 2 ^ k * 2 ^ k" for x :: int
    using and_not_mask [of x k] div_mult_mod_eq [of x "2 ^ k"] by (simp add: take_bit_eq_mod mask_eq_exp_minus_1)
  ultimately show ?thesis by (simp add: ROUNDUP_def)
qed

text \<open>The heap starts at the next mebibyte behind the kernel and ends where the memory ends: the firmware counts
  the memory above 16 MiB in units of 64 KiB, in two bytes.  The size is computed in 32 bits, so of
  memory that ends at 4 GiB or above only the low part of the end is seen.\<close>

lemma heap_init_correct:
  assumes "\<And>h. in8 w (Out8 0x70 0x34 # h) 0x71 mod 256 = n mod 256" "\<And>h. in8 w (Out8 0x70 0x35 # h) 0x71 mod 256 = n div 256"
    and "0 \<le> n" "n < 65536" "0 \<le> end_addr" "end_addr < 2 ^ 63"
  shows "\<exists>start h'. heap_init w end_addr h = ((start, (2 ^ 24 + n * 2 ^ 16) mod 2 ^ 32), h') \<and>
    2 ^ 20 dvd start \<and> end_addr \<le> start \<and> start < end_addr + 2 ^ 20"
proof -
  have hi: "u32 (u32 (n div 256 + 1) * 2 ^ 8) = (n div 256 + 1) * 256"
    using assms(3,4) div_below [of 256 n 256] by (simp add: u32_id pos_imp_zdiv_nonneg_iff)
  have "n mod 256 OR (n div 256 + 1) * 256 = (n div 256 + 1) * 256 + n mod 256"
    by (subst or.commute, intro or_low [of 8]) auto
  then have "n mod 256 OR u32 (u32 (n div 256 + 1) * 2 ^ 8) = n + 256" unfolding hi by simp
  then have size: "u32 ((n mod 256 OR u32 (u32 (n div 256 + 1) * 2 ^ 8)) * 2 ^ 16) = (2 ^ 24 + n * 2 ^ 16) mod 2 ^ 32"
    by (simp add: u32_def algebra_simps)
  let ?start = "ROUNDUP end_addr (2 ^ 20)"
  have start: "?start = (end_addr + 2 ^ 20 - 1) div 2 ^ 20 * 2 ^ 20" using assms(5,6) by (intro ROUNDUP_eq) auto
  have "2 ^ 20 dvd ?start" unfolding start by simp
  moreover have "0 \<le> (end_addr + 2 ^ 20 - 1) mod 2 ^ 20" "(end_addr + 2 ^ 20 - 1) mod 2 ^ 20 < 2 ^ 20" by simp_all
  then have "end_addr \<le> ?start \<and> ?start < end_addr + 2 ^ 20"
    using div_mult_mod_eq [of "end_addr + 2 ^ 20 - 1" "2 ^ 20"] unfolding start by linarith
  ultimately show ?thesis
    using assms(1,2) size by (simp add: heap_init_def inb_def outb_def Let_def)
qed

text \<open>The kinds of the entries from \<open>p\<close> to \<open>stop\<close>, true for a processor.\<close>

fun mp_table :: "mem \<Rightarrow> int \<Rightarrow> int \<Rightarrow> bool list \<Rightarrow> bool" where
  "mp_table m p stop [] \<longleftrightarrow> stop \<le> p"
| "mp_table m p stop (b # bs) \<longleftrightarrow> p < stop \<and> (m p = 0) = b \<and> mp_table m (p + (if b then 20 else 8)) stop bs"

lemma mp_entries_table:
  "mp_table m p stop bs \<Longrightarrow> n \<le> 8 \<Longrightarrow>
   mp_entries m p stop n = (let k = n + int (length (filter (\<lambda>b. b) bs)) in if k \<le> 8 then cret k else cfail Panic)"
proof (induction bs arbitrary: p n)
  case Nil
  then show ?case by (subst mp_entries.simps) simp
next
  case (Cons b bs)
  then show ?case by (subst mp_entries.simps) (auto simp: Let_def add.assoc)
qed

lemma find_mp_first:
  assumes "load32 m (st + int k) = 0x5f504d5f" "\<And>j. j < k \<Longrightarrow> load32 m (st + int j) \<noteq> 0x5f504d5f" "k < n"
  shows "find_mp n m st = find_mp 1 m (st + int k)"
  using assms
proof (induction n arbitrary: st k)
  case (Suc n)
  show ?case
  proof (cases k)
    case 0
    then show ?thesis using Suc.prems(1) by simp
  next
    case k: (Suc j)
    have "load32 m st \<noteq> 0x5f504d5f" using Suc.prems(2) [of 0] k by simp
    moreover have "find_mp n m (st + 1) = find_mp 1 m (st + 1 + int j)"
    proof (rule Suc.IH)
      show "load32 m (st + 1 + int i) \<noteq> 0x5f504d5f" if "i < j" for i
        using Suc.prems(2) [of "Suc i"] that k by (simp add: algebra_simps)
    qed (use Suc.prems k in \<open>auto simp: algebra_simps\<close>)
    ultimately show ?thesis using k by (simp add: algebra_simps)
  qed
qed simp

text \<open>\<open>__am_lapic_init\<close> finds the first descriptor in the firmware area and counts the processors of its table,
  whatever other entries stand between them; more than eight are refused.\<close>

lemma lapic_init_correct:
  assumes "0xf0000 \<le> st" "st < 0xffffff" "load32 m st = 0x5f504d5f"
    and "\<And>a. 0xf0000 \<le> a \<Longrightarrow> a < st \<Longrightarrow> load32 m a \<noteq> 0x5f504d5f"
    and "conf = load32 m (st + 4)" "mp_table m (conf + 44) (conf + load16 m (conf + 4)) kinds"
  shows "lapic_init m = (if length (filter (\<lambda>b. b) kinds) \<le> 8
    then cret (load32 m (conf + 36), int (length (filter (\<lambda>b. b) kinds))) else cfail Panic)"
proof -
  let ?k = "nat (st - 0xf0000)"
  have k: "0xf0000 + int ?k = st" using assms(1) by simp
  have "lapic_init m = find_mp 1 m st"
    unfolding lapic_init_def using find_mp_first [of m "0xf0000" ?k "nat (0xffffff - 0xf0000)", unfolded k] assms(1-4) by auto
  then show ?thesis using assms(3) mp_entries_table [OF assms(6), of 0] by (auto simp: Let_def assms(5) [symmetric])
qed

end
