(* ===== verification/Boot_Loader.thy ===== *)
theory Boot_Loader
  imports Am_Disk "HOL-Library.Signed_Division"
begin

unbundle bit_operations_syntax

text \<open>
  The boot loader, \<open>abstract-machine/am/src/x86/qemu/boot/main.c\<close>: it reads the kernel, an ELF file, from the
  disk into memory and says where to jump.  The code runs in 32-bit mode: pointers are 32 bits wide.
  The first sector of the disk is the loader, the next two are the argument string, the ELF file follows.
  Its \<open>wait_disk\<close> is the one of \<open>Am_Disk\<close>.  The offsets of the ELF fields are those of \<^verbatim>\<open>elf.h\<close>.
\<close>

subsection \<open>Reading the disk\<close>






record segment =
  filesz :: int
  memsz :: int
  paddr :: int
  offset :: int


subsection \<open>The ELF file\<close>

definition e_machine :: "mem \<Rightarrow> int \<Rightarrow> int" where
  "e_machine m elf = load16 m (elf + 18)"

definition ph64 :: "mem \<Rightarrow> int \<Rightarrow> segment" where
  "ph64 m ph = \<lparr>filesz = u32 (load64 m (ph + 32)), memsz = u32 (load64 m (ph + 40)),
     paddr = u32 (load64 m (ph + 24)), offset = u32 (load64 m (ph + 8))\<rparr>"

definition ph32 :: "mem \<Rightarrow> int \<Rightarrow> segment" where
  "ph32 m ph = \<lparr>filesz = load32 m (ph + 16), memsz = load32 m (ph + 20),
     paddr = load32 m (ph + 12), offset = load32 m (ph + 4)\<rparr>"






subsection \<open>What the disk holds\<close>

definition disk_byte :: "(int \<Rightarrow> nat \<Rightarrow> int) \<Rightarrow> mem" where
  "disk_byte d x = word_of_int (u32 (d (x div 512) (nat (x mod 512 div 4))) div 256 ^ nat (x mod 4))"

text \<open>The memory \<open>m\<close> with the bytes of the disk, \<open>delta\<close> further on, between \<open>lo\<close> and \<open>hi\<close>.\<close>

definition copied :: "(int \<Rightarrow> nat \<Rightarrow> int) \<Rightarrow> int \<Rightarrow> int \<Rightarrow> int \<Rightarrow> mem \<Rightarrow> mem" where
  "copied d lo hi delta m = (\<lambda>x. if lo \<le> x \<and> x < hi then disk_byte d (x + delta) else m x)"

lemma copied_empty [simp]: "copied d lo lo delta m = m"
  by (rule ext) (auto simp: copied_def)



lemma sector_word: "x div 512 = x div 4 div 128" "x mod 512 div 4 = x div 4 mod 128" for x :: int
proof -
  show "x div 512 = x div 4 div 128" using zdiv_zmult2_eq [of 128 x 4] by simp
  have "x mod (4 * 128) = 4 * (x div 4 mod 128) + x mod 4" by (rule zmod_zmult2_eq) simp
  moreover have "(4 * (x div 4 mod 128) + x mod 4) div 4 = x div 4 mod 128 + x mod 4 div 4" by (rule div_mult_self4) simp
  ultimately show "x mod 512 div 4 = x div 4 mod 128" by simp
qed

lemma disk_byte_word:
  assumes "4 dvd a" "r \<in> {0, 1, 2, 3}"
  shows "disk_byte d (a + r) = word_of_int (u32 (d (a div 512) (nat (a mod 512 div 4))) div 256 ^ nat r)"
proof -
  obtain q where q: "a = 4 * q" using assms(1) by (rule dvdE)
  have "r div 4 = 0" "r mod 4 = r" using assms(2) by auto
  then have "(a + r) div 4 = a div 4 \<and> (a + r) mod 4 = r" unfolding q by (simp only: div_mult_self4 mod_mult_self4) simp
  then show ?thesis unfolding disk_byte_def sector_word by simp
qed

lemma load_disk_byte:
  assumes "4 dvd a"
  shows "load32 (disk_byte d) a = u32 (d (a div 512) (nat (a mod 512 div 4)))"
proof -
  define v where "v = u32 (d (a div 512) (nat (a mod 512 div 4)))"
  note b = disk_byte_word [OF assms, where d = d, folded v_def]
  have u: "uint (disk_byte d a) = v mod 256" using b [of 0] by (simp add: uint_byte)
  have "uint (disk_byte d (a + 1)) = v div 256 mod 256" using b [of 1] by (simp add: uint_byte)
  moreover have "uint (disk_byte d (a + 2)) = v div 65536 mod 256" using b [of 2] by (simp add: uint_byte)
  moreover have "uint (disk_byte d (a + 3)) = v div 16777216 mod 256" using b [of 3] by (simp add: uint_byte)
  ultimately have "load32 (disk_byte d) a = v mod 4294967296"
    by (simp only: load32_def u bytes_of_u32)
  also have "\<dots> = v" using u32_range by (intro mod_pos_pos_trivial) (auto simp: v_def)
  finally show ?thesis by (simp only: v_def)
qed






subsection \<open>One segment\<close>











subsection \<open>All segments\<close>












subsection \<open>Booting\<close>

text \<open>The ELF file as it appears in memory at \<open>0x8000\<close>, and the segments its header names.\<close>

definition kernel_file :: "(int \<Rightarrow> nat \<Rightarrow> int) \<Rightarrow> mem" where
  "kernel_file d = (\<lambda>x. disk_byte d (x - 0x8000 + 1536))"

definition ph_count :: "mem \<Rightarrow> nat" where
  "ph_count m = nat (if e_machine m 0x8000 = 62 then load16 m (0x8000 + 56) else load16 m (0x8000 + 44))"

definition ph_table :: "mem \<Rightarrow> int" where
  "ph_table m = (if e_machine m 0x8000 = 62 then load64 m (0x8000 + 32) else load32 m (0x8000 + 28))"

definition ph_size :: "mem \<Rightarrow> int" where
  "ph_size m = (if e_machine m 0x8000 = 62 then 56 else 32)"

definition kernel_segments :: "mem \<Rightarrow> segment list" where
  "kernel_segments m = map (\<lambda>j. (if e_machine m 0x8000 = 62 then ph64 m else ph32 m) (0x8000 + ph_table m + ph_size m * int j)) [0..<ph_count m]"

definition kernel_entry :: "mem \<Rightarrow> int" where
  "kernel_entry m = (if e_machine m 0x8000 = 62 then u32 (load64 m (0x8000 + 24)) else load32 m (0x8000 + 24))"





text \<open>A file with one segment of four bytes and as many zeros, from offset 512 to 1 MiB.\<close>

definition tiny_kernel :: "int \<Rightarrow> nat \<Rightarrow> int" where
  "tiny_kernel b i =
     (if b = 3 then (if i = 4 then 0x3e0002 else if i = 6 then 0x100000 else if i = 8 then 64 else if i = 14 then 1
        else if i = 18 then 512 else if i = 22 then 0x100000 else if i = 24 then 4 else if i = 26 then 8 else 0)
      else if b = 4 \<and> i = 0 then 0x04030201 else 0)"

lemma tiny_load:
  assumes "4 dvd x"
  shows "load32 (kernel_file tiny_kernel) x = u32 (tiny_kernel ((x - 31232) div 512) (nat ((x - 31232) mod 512 div 4)))"
proof -
  have "load32 (kernel_file tiny_kernel) x = load32 (disk_byte tiny_kernel) (x - 31232)" by (simp add: load32_def kernel_file_def)
  moreover have "4 dvd x - 31232" by (intro dvd_diff assms) simp
  ultimately show ?thesis by (simp only: load_disk_byte)
qed

lemma tiny_header:
  "e_machine (kernel_file tiny_kernel) 0x8000 = 62" "load16 (kernel_file tiny_kernel) 0x8038 = 1"
  by (simp_all add: e_machine_def load16_def kernel_file_def disk_byte_def) (simp_all add: tiny_kernel_def u32_def)

lemma tiny_table:
  "ph_table (kernel_file tiny_kernel) = 64" "ph_size (kernel_file tiny_kernel) = 56" "ph_count (kernel_file tiny_kernel) = 1"
  by (simp_all add: ph_table_def ph_size_def ph_count_def tiny_header load64_def tiny_load)
    (simp_all add: tiny_kernel_def u32_def)

lemma tiny_kernel:
  "kernel_segments (kernel_file tiny_kernel) = [\<lparr>filesz = 4, memsz = 8, paddr = 0x100000, offset = 512\<rparr>]"
  "kernel_entry (kernel_file tiny_kernel) = 0x100000"
  by (simp_all add: kernel_segments_def kernel_entry_def tiny_header tiny_table ph64_def load64_def tiny_load)
    (simp_all add: tiny_kernel_def u32_def)



end
