(* ===== verification/Am_Render.thy ===== *)
theory Am_Render
  imports Am_Gpu Am_Io "HOL-Library.Signed_Division"
begin

text \<open>
  The canvas renderer of \<open>abstract-machine/am/src/x86/qemu/ioe.c\<close>: \<open>gpu_memcpy\<close> fills the video memory, and
  \<open>gpu_render\<close> draws the tree of canvases that is stored there.  A canvas is a \<^verbatim>\<open>struct gpu_canvas\<close> of
  \<open>amdev.h\<close> in the video memory: 16-bit fields \<^verbatim>\<open>type\<close>, \<^verbatim>\<open>w\<close>, \<^verbatim>\<open>h\<close>, \<^verbatim>\<open>x1\<close>, \<^verbatim>\<open>y1\<close>, \<^verbatim>\<open>w1\<close>, \<^verbatim>\<open>h1\<close> from offset 0 on, the
  link \<^verbatim>\<open>sibling\<close> at 14, and at 18 either \<^verbatim>\<open>child\<close> or the texture's \<^verbatim>\<open>w\<close>, \<^verbatim>\<open>h\<close> and \<^verbatim>\<open>pixels\<close>.
\<close>

subsection \<open>The renderer\<close>

text \<open>The addresses of the static arrays \<^verbatim>\<open>vmem\<close> and \<^verbatim>\<open>vbuf\<close>, each of \<^verbatim>\<open>VMEM_SIZE\<close> bytes.\<close>

record gpu_arrays =
  vmem :: int
  vbuf :: int

abbreviation VMEM_SIZE :: int where
  "VMEM_SIZE \<equiv> 524288"

definition to_host :: "gpu_arrays \<Rightarrow> int \<Rightarrow> int" where
  "to_host g ptr = (if ptr = 0xffffffff then 0 else vmem g + ptr)"

fun copy_bytes :: "nat \<Rightarrow> int \<Rightarrow> int \<Rightarrow> mem \<Rightarrow> mem" where
  "copy_bytes 0 dst src m = m"
| "copy_bytes (Suc n) dst src m = copy_bytes n (dst + 1) (src + 1) (m(dst := m src))"

record gpu_copy =
  copy_dest :: int
  copy_src :: int
  copy_size :: int

definition gpu_memcpy :: "gpu_arrays \<Rightarrow> gpu_copy \<Rightarrow> mem \<Rightarrow> mem" where
  "gpu_memcpy g params m =
     (let src = copy_src params; dst = to_host g (copy_dest params) in copy_bytes (nat (copy_size params)) dst src m)"

fun clear_bytes :: "nat \<Rightarrow> int \<Rightarrow> mem \<Rightarrow> mem" where
  "clear_bytes 0 p m = m"
| "clear_bytes (Suc n) p m = clear_bytes n (p + 1) (store8 m p 0)"

text \<open>The state: memory and \<^verbatim>\<open>vbuf_head\<close>.\<close>

type_synonym gpu_state = "mem \<times> int"

definition vbuf_alloc :: "gpu_arrays \<Rightarrow> int \<Rightarrow> gpu_state \<Rightarrow> (int \<times> gpu_state) cres" where
  "vbuf_alloc g n = (\<lambda>(m, vbuf_head).
     let ret = vbuf_head; vbuf_head = vbuf_head + n in
     if vbuf_head > vbuf g + VMEM_SIZE then cfail Panic
     else cret (ret, clear_bytes (nat n) ret m, vbuf_head))"

text \<open>\<^verbatim>\<open>px[W * y + x] = px_local[w * (j * h / cv->h1) + (i * w / cv->w1)]\<close>\<close>

definition copy_pixel :: "mem \<Rightarrow> int \<Rightarrow> int \<Rightarrow> mem" where
  "copy_pixel m dst src = m(dst := m src, dst + 1 := m (src + 1), dst + 2 := m (src + 2))"

definition render_pixel :: "int \<Rightarrow> int \<Rightarrow> int \<Rightarrow> int \<Rightarrow> int \<Rightarrow> int \<Rightarrow> int \<Rightarrow> int \<Rightarrow> mem \<Rightarrow> mem" where
  "render_pixel cv W w h px px_local i j m =
     (let x = load16 m (cv + 6) + i; y = load16 m (cv + 8) + j in
      copy_pixel m (px + 3 * s32 (s32 (W * y) + x))
        (px_local + 3 * s32 (s32 (w * (s32 (j * h) sdiv load16 m (cv + 12))) + s32 (i * w) sdiv load16 m (cv + 10))))"

partial_function (option) render_column ::
  "int \<Rightarrow> int \<Rightarrow> int \<Rightarrow> int \<Rightarrow> int \<Rightarrow> int \<Rightarrow> int \<Rightarrow> int \<Rightarrow> mem \<Rightarrow> mem cres" where
  "render_column cv W w h px px_local i j m =
     (if j < load16 m (cv + 12) then render_column cv W w h px px_local i (j + 1) (render_pixel cv W w h px px_local i j m)
      else cret m)"

partial_function (option) render_columns ::
  "int \<Rightarrow> int \<Rightarrow> int \<Rightarrow> int \<Rightarrow> int \<Rightarrow> int \<Rightarrow> int \<Rightarrow> mem \<Rightarrow> mem cres" where
  "render_columns cv W w h px px_local i m =
     (if i < load16 m (cv + 10) then
        cbind (render_column cv W w h px px_local i 0 m) (render_columns cv W w h px px_local (i + 1))
      else cret m)"

text \<open>
  \<open>render\<close> and its loop over the children call each other: \<open>Render\<close> is a call of the function, \<open>Siblings\<close> the
  loop from a child on.  The parent is the display or another canvas.
\<close>

datatype gpu_parent = Display | Canvas int

definition parent_w :: "gpu_display \<Rightarrow> mem \<Rightarrow> gpu_parent \<Rightarrow> int" where
  "parent_w d m parent = (case parent of Display \<Rightarrow> disp_w d | Canvas cv \<Rightarrow> load16 m (cv + 2))"

datatype gpu_call = Render int gpu_parent int | Siblings int gpu_parent int

partial_function (option) render :: "gpu_arrays \<Rightarrow> gpu_display \<Rightarrow> gpu_call \<Rightarrow> gpu_state \<Rightarrow> gpu_state cres" where
  "render g d call st = (case call of
     Render cv parent px \<Rightarrow>
       (let W = parent_w d (fst st) parent; kind = load16 (fst st) cv in
        if kind = 1 then
          let w = load16 (fst st) (cv + 18); h = load16 (fst st) (cv + 20); px_local = to_host g (load32 (fst st) (cv + 22)) in
          cbind (render_columns cv W w h px px_local 0 (fst st)) (\<lambda>m. cret (m, snd st))
        else if kind = 2 then
          let w = load16 (fst st) (cv + 2); h = load16 (fst st) (cv + 4) in
          cbind (vbuf_alloc g (s32 (u64 (s32 (w * h) * 3))) st) (\<lambda>(px_local, st).
          cbind (render g d (Siblings (to_host g (load32 (fst st) (cv + 18))) (Canvas cv) px_local) st) (\<lambda>st.
          cbind (render_columns cv W w h px px_local 0 (fst st)) (\<lambda>m. cret (m, snd st))))
        else cfail Panic)
   | Siblings ch cv px_local \<Rightarrow>
       (if ch \<noteq> 0 then
          cbind (render g d (Render ch cv px_local) st) (\<lambda>st.
          render g d (Siblings (to_host g (load32 (fst st) (ch + 14))) cv px_local) st)
        else cret st))"

definition gpu_render :: "gpu_arrays \<Rightarrow> gpu_display \<Rightarrow> int \<Rightarrow> gpu_state \<Rightarrow> gpu_state cres" where
  "gpu_render g d root = (\<lambda>(m, vbuf_head). render g d (Render (to_host g root) Display (fb d)) (m, vbuf g))"

subsection \<open>Pictures in memory\<close>

type_synonym pixel = "8 word \<times> 8 word \<times> 8 word"
type_synonym picture = "int \<Rightarrow> int \<Rightarrow> pixel"

definition pixel_of :: "mem \<Rightarrow> int \<Rightarrow> pixel" where
  "pixel_of m a = (m a, m (a + 1), m (a + 2))"

text \<open>\<open>holds m p w h pic\<close>: the \<open>h\<close> rows of \<open>w\<close> pixels from \<open>p\<close> on are the picture \<open>pic\<close>.\<close>

definition holds :: "mem \<Rightarrow> int \<Rightarrow> int \<Rightarrow> int \<Rightarrow> picture \<Rightarrow> bool" where
  "holds m p w h pic \<longleftrightarrow> (\<forall>x y. 0 \<le> x \<longrightarrow> x < w \<longrightarrow> 0 \<le> y \<longrightarrow> y < h \<longrightarrow> pixel_of m (p + 3 * (w * y + x)) = pic x y)"

lemma index_range:
  fixes x y w h :: int
  assumes "0 \<le> x" "x < w" "0 \<le> y" "y < h"
  shows "0 \<le> w * y" "0 \<le> w * y + x" "w * y + x < w * h"
proof -
  show "0 \<le> w * y" using assms by simp
  then show "0 \<le> w * y + x" using assms by simp
  show "w * y + x < w * h" using rows_ordered [of y h w] assms by (simp add: mult.commute)
qed

lemma index_inj:
  fixes x y w :: int
  assumes "0 \<le> x" "x < w" "0 \<le> x'" "x' < w"
  shows "w * y + x = w * y' + x' \<longleftrightarrow> x = x' \<and> y = y'"
proof
  assume e: "w * y + x = w * y' + x'"
  have "(w * y + x) div w = y" "(w * y' + x') div w = y'" "(w * y + x) mod w = x" "(w * y' + x') mod w = x'"
    using assms by simp_all
  then show "x = x' \<and> y = y'" using e by metis
qed simp

lemma s32_index:
  assumes "0 \<le> x" "x < w" "0 \<le> y" "y < h" "w * h < 2147483648"
  shows "s32 (s32 (w * y) + x) = w * y + x"
proof -
  note r = index_range [OF assms(1-4)]
  have "s32 (w * y) = w * y" using r assms(1,5) by (intro s32_id) linarith+
  moreover have "s32 (w * y + x) = w * y + x" using r assms(5) by (intro s32_id) linarith+
  ultimately show ?thesis by simp
qed

lemma holds_cong:
  assumes "holds m p w h pic" "\<And>a. p \<le> a \<Longrightarrow> a < p + 3 * (w * h) \<Longrightarrow> m' a = m a"
  shows "holds m' p w h pic"
  unfolding holds_def
proof (intro allI impI)
  fix x y assume xy: "0 \<le> x" "x < w" "0 \<le> y" "y < h"
  have "pixel_of m' (p + 3 * (w * y + x)) = pixel_of m (p + 3 * (w * y + x))"
    using index_range [OF xy] by (simp add: pixel_of_def assms(2))
  then show "pixel_of m' (p + 3 * (w * y + x)) = pic x y" using assms(1) xy by (simp add: holds_def)
qed

lemma copy_pixel_at: "dst + 3 \<le> src \<or> src + 3 \<le> dst \<Longrightarrow> pixel_of (copy_pixel m dst src) dst = pixel_of m src"
  by (auto simp: pixel_of_def copy_pixel_def)

lemma copy_pixel_frame: "a < dst \<or> dst + 3 \<le> a \<Longrightarrow> copy_pixel m dst src a = m a"
  by (auto simp: copy_pixel_def)

lemma copy_pixel_holds:
  assumes "holds m p w h pic" "0 \<le> X" "X < w" "0 \<le> Y" "Y < h"
    and "p + 3 * (w * h) \<le> src \<or> src + 3 \<le> p"
  shows "holds (copy_pixel m (p + 3 * (w * Y + X)) src) p w h (\<lambda>x y. if x = X \<and> y = Y then pixel_of m src else pic x y)"
  unfolding holds_def
proof (intro allI impI)
  fix x y assume xy: "0 \<le> x" "x < w" "0 \<le> y" "y < h"
  let ?k = "w * y + x" and ?K = "w * Y + X"
  note r = index_range [OF assms(2-5)] index_range [OF xy]
  show "pixel_of (copy_pixel m (p + 3 * ?K) src) (p + 3 * ?k) = (if x = X \<and> y = Y then pixel_of m src else pic x y)"
  proof (cases "x = X \<and> y = Y")
    case True
    then show ?thesis using r assms(6) by (auto intro!: copy_pixel_at)
  next
    case False
    then have "?k < ?K \<or> ?K < ?k" using index_inj [OF xy(1,2) assms(2,3)] by (metis linorder_neqE_linordered_idom)
    then have "pixel_of (copy_pixel m (p + 3 * ?K) src) (p + 3 * ?k) = pixel_of m (p + 3 * ?k)"
      unfolding pixel_of_def by (intro arg_cong2 [of _ _ _ _ Pair] copy_pixel_frame) auto
    then show ?thesis using False xy assms(1) by (auto simp: holds_def)
  qed
qed

subsection \<open>Drawing one canvas\<close>

record place =
  place_x :: int
  place_y :: int
  place_w :: int
  place_h :: int

definition place_of :: "mem \<Rightarrow> int \<Rightarrow> place" where
  "place_of m cv = \<lparr>place_x = load16 m (cv + 6), place_y = load16 m (cv + 8),
     place_w = load16 m (cv + 10), place_h = load16 m (cv + 12)\<rparr>"

text \<open>Stretching a picture of \<open>w\<close> times \<open>h\<close> pixels over its place on another.\<close>

definition stretched :: "place \<Rightarrow> int \<Rightarrow> int \<Rightarrow> picture \<Rightarrow> picture \<Rightarrow> picture" where
  "stretched p w h inner pic =
     (\<lambda>x y. if place_x p \<le> x \<and> x < place_x p + place_w p \<and> place_y p \<le> y \<and> y < place_y p + place_h p
        then inner ((x - place_x p) * w div place_w p) ((y - place_y p) * h div place_h p) else pic x y)"

text \<open>The canvas lies inside its parent, and no product overflows an \<^verbatim>\<open>int\<close>.\<close>

definition fits :: "place \<Rightarrow> int \<Rightarrow> int \<Rightarrow> int \<Rightarrow> int \<Rightarrow> bool" where
  "fits p w h W H \<longleftrightarrow> 0 \<le> place_x p \<and> 0 \<le> place_y p \<and> place_x p + place_w p \<le> W \<and> place_y p + place_h p \<le> H \<and>
     0 < w \<and> 0 < h \<and> w * h < 2147483648 \<and> W * H < 2147483648 \<and> place_w p * w < 2147483648 \<and> place_h p * h < 2147483648"

text \<open>The memory \<open>m\<close> while the canvas at \<open>cv\<close> is drawn: the target holds \<open>pic\<close>, all else is as in \<open>m0\<close>.\<close>

definition drawing :: "mem \<Rightarrow> int \<Rightarrow> int \<Rightarrow> int \<Rightarrow> picture \<Rightarrow> mem \<Rightarrow> bool" where
  "drawing m0 px W H pic m \<longleftrightarrow> holds m px W H pic \<and> (\<forall>a. a < px \<or> px + 3 * (W * H) \<le> a \<longrightarrow> m a = m0 a)"

definition blit_ok :: "mem \<Rightarrow> int \<Rightarrow> int \<Rightarrow> int \<Rightarrow> int \<Rightarrow> int \<Rightarrow> int \<Rightarrow> int \<Rightarrow> picture \<Rightarrow> bool" where
  "blit_ok m0 cv W H w h px pl inner \<longleftrightarrow> fits (place_of m0 cv) w h W H \<and> holds m0 pl w h inner \<and>
     (pl + 3 * (w * h) \<le> px \<or> px + 3 * (W * H) \<le> pl) \<and> (cv + 26 \<le> px \<or> px + 3 * (W * H) \<le> cv)"

lemma load16_range [simp]: "0 \<le> load16 m a" "load16 m a < 65536"
  using byte_range [of "m a"] byte_range [of "m (a + 1)"] by (simp_all add: load16_def)

lemma drawing_fields:
  assumes "blit_ok m0 cv W H w h px pl inner" "drawing m0 px W H pic m"
  shows "load16 m (cv + 6) = place_x (place_of m0 cv)" "load16 m (cv + 8) = place_y (place_of m0 cv)"
    "load16 m (cv + 10) = place_w (place_of m0 cv)" "load16 m (cv + 12) = place_h (place_of m0 cv)"
  using assms by (auto simp: blit_ok_def drawing_def place_of_def load16_def)

lemma sdiv_nonneg: "0 \<le> a \<Longrightarrow> 0 \<le> b \<Longrightarrow> a sdiv b = a div b" for a b :: int
  by (auto simp: signed_divide_int_def sgn_if)

lemma scaled_range:
  fixes i w n :: int
  assumes "0 \<le> i" "i < n" "0 < w"
  shows "0 \<le> i * w" "i * w < n * w" "0 \<le> i * w div n" "i * w div n < w"
proof -
  show "0 \<le> i * w" "i * w < n * w" using assms by simp_all
  then show "0 \<le> i * w div n" "i * w div n < w" using div_below [of n "i * w" w] assms by (simp_all add: pos_imp_zdiv_nonneg_iff)
qed

lemma copy_pixel_drawing:
  assumes "drawing m0 px W H pic m" and r: "0 \<le> X" "X < W" "0 \<le> Y" "Y < H"
    and src: "src + 3 \<le> px \<or> px + 3 * (W * H) \<le> src"
  shows "drawing m0 px W H (\<lambda>x y. if x = X \<and> y = Y then pixel_of m src else pic x y) (copy_pixel m (px + 3 * (W * Y + X)) src)"
proof -
  define K where "K = W * Y + X"
  have K: "0 \<le> K" "K < W * H" using index_range [OF r] by (simp_all add: K_def)
  have "copy_pixel m (px + 3 * K) src a = m0 a" if "a < px \<or> px + 3 * (W * H) \<le> a" for a
  proof -
    have "copy_pixel m (px + 3 * K) src a = m a" using that K by (intro copy_pixel_frame) linarith
    also have "m a = m0 a" using assms(1) that unfolding drawing_def by blast
    finally show ?thesis .
  qed
  moreover have "holds m px W H pic" "px + 3 * (W * H) \<le> src \<or> src + 3 \<le> px" using assms(1) src by (auto simp: drawing_def)
  ultimately show ?thesis using copy_pixel_holds [OF _ r] by (simp add: drawing_def K_def)
qed

lemma render_pixel_drawing:
  fixes m0 :: mem and cv :: int
  defines "p \<equiv> place_of m0 cv"
  assumes ok: "blit_ok m0 cv W H w h px pl inner" and dr: "drawing m0 px W H pic m"
    and i: "0 \<le> i" "i < place_w p" and j: "0 \<le> j" "j < place_h p"
  shows "drawing m0 px W H (\<lambda>x y. if x = place_x p + i \<and> y = place_y p + j
      then inner (i * w div place_w p) (j * h div place_h p) else pic x y) (render_pixel cv W w h px pl i j m)"
proof -
  let ?X = "place_x p + i" and ?Y = "place_y p + j" and ?x = "i * w div place_w p" and ?y = "j * h div place_h p"
  have f: "fits p w h W H" using ok by (simp add: blit_ok_def p_def)
  then have r: "0 \<le> ?X" "?X < W" "0 \<le> ?Y" "?Y < H" using i j by (auto simp: fits_def)
  note ix = index_range [OF r]
  note sx = scaled_range [OF i, of w] and sy = scaled_range [OF j, of h]
  have s: "0 \<le> ?x" "?x < w" "0 \<le> ?y" "?y < h" using sx sy f by (auto simp: fits_def)
  note jx = index_range [OF s]
  have conv: "s32 (s32 (W * ?Y) + ?X) = W * ?Y + ?X" "s32 (s32 (w * ?y) + ?x) = w * ?y + ?x"
      "s32 (i * w) = i * w" "s32 (j * h) = j * h"
  proof -
    have b: "W * H < 2147483648" "w * h < 2147483648" "place_w p * w < 2147483648" "place_h p * h < 2147483648" "0 < w" "0 < h"
      using f by (simp_all add: fits_def)
    show "s32 (s32 (W * ?Y) + ?X) = W * ?Y + ?X" "s32 (s32 (w * ?y) + ?x) = w * ?y + ?x"
      by (rule s32_index [OF r b(1)], rule s32_index [OF s b(2)])
    show "s32 (i * w) = i * w" "s32 (j * h) = j * h"
      using sx(1,2) sy(1,2) b by (intro s32_id; linarith)+
  qed
  have eq: "render_pixel cv W w h px pl i j m = copy_pixel m (px + 3 * (W * ?Y + ?X)) (pl + 3 * (w * ?y + ?x))"
    using conv sx(1) sy(1) i j f
    by (simp add: render_pixel_def drawing_fields [OF ok dr] p_def [symmetric] sdiv_nonneg fits_def)
  have src: "pl + 3 * (w * ?y + ?x) + 3 \<le> px \<or> px + 3 * (W * H) \<le> pl + 3 * (w * ?y + ?x)"
    using ok jx by (auto simp: blit_ok_def)
  have px: "pixel_of m (pl + 3 * (w * ?y + ?x)) = inner ?x ?y"
  proof -
    have "pixel_of m (pl + 3 * (w * ?y + ?x)) = pixel_of m0 (pl + 3 * (w * ?y + ?x))"
      using dr src by (auto simp: drawing_def pixel_of_def)
    then show ?thesis using ok s by (simp add: blit_ok_def holds_def)
  qed
  show ?thesis unfolding eq using copy_pixel_drawing [OF dr r src] unfolding px .
qed

lemma render_column_drawing:
  fixes m0 :: mem and cv :: int
  defines "p \<equiv> place_of m0 cv"
  assumes ok: "blit_ok m0 cv W H w h px pl inner" and i: "0 \<le> i" "i < place_w p"
  shows "drawing m0 px W H pic m \<Longrightarrow> 0 \<le> j \<Longrightarrow> n = nat (place_h p - j) \<Longrightarrow> \<exists>m'. render_column cv W w h px pl i j m = cret m' \<and>
    drawing m0 px W H (\<lambda>x y. if x = place_x p + i \<and> place_y p + j \<le> y \<and> y < place_y p + place_h p
      then inner (i * w div place_w p) ((y - place_y p) * h div place_h p) else pic x y) m'"
proof (induction n arbitrary: j m pic)
  case 0
  have "(\<lambda>x y. if x = place_x p + i \<and> place_y p + j \<le> y \<and> y < place_y p + place_h p
      then inner (i * w div place_w p) ((y - place_y p) * h div place_h p) else pic x y) = pic"
    using 0 by (intro ext) auto
  then show ?case using 0 drawing_fields(4) [OF ok 0(1)] by (subst render_column.simps) (simp add: p_def)
next
  case (Suc n)
  let ?pic = "\<lambda>x y. if x = place_x p + i \<and> y = place_y p + j then inner (i * w div place_w p) (j * h div place_h p) else pic x y"
  have j: "j < place_h p" "n = nat (place_h p - (j + 1))" "0 \<le> j + 1" using Suc.prems by linarith+
  have d: "drawing m0 px W H ?pic (render_pixel cv W w h px pl i j m)"
    using render_pixel_drawing [OF ok Suc.prems(1), folded p_def, OF i Suc.prems(2) j(1)] .
  have eq: "(\<lambda>x y. if x = place_x p + i \<and> place_y p + (j + 1) \<le> y \<and> y < place_y p + place_h p
      then inner (i * w div place_w p) ((y - place_y p) * h div place_h p) else ?pic x y) =
    (\<lambda>x y. if x = place_x p + i \<and> place_y p + j \<le> y \<and> y < place_y p + place_h p
      then inner (i * w div place_w p) ((y - place_y p) * h div place_h p) else pic x y)"
    using j(1) Suc.prems(2) by (intro ext) auto
  show ?case
    using Suc.IH [OF d j(3,2)] drawing_fields(4) [OF ok Suc.prems(1)] j(1) unfolding eq
    by (subst render_column.simps) (simp add: p_def)
qed

lemma render_columns_drawing:
  fixes m0 :: mem and cv :: int
  defines "p \<equiv> place_of m0 cv"
  assumes ok: "blit_ok m0 cv W H w h px pl inner"
  shows "drawing m0 px W H pic m \<Longrightarrow> 0 \<le> i \<Longrightarrow> n = nat (place_w p - i) \<Longrightarrow> \<exists>m'. render_columns cv W w h px pl i m = cret m' \<and>
    drawing m0 px W H (\<lambda>x y. if place_x p + i \<le> x \<and> x < place_x p + place_w p \<and> place_y p \<le> y \<and> y < place_y p + place_h p
      then inner ((x - place_x p) * w div place_w p) ((y - place_y p) * h div place_h p) else pic x y) m'"
proof (induction n arbitrary: i m pic)
  case 0
  have "(\<lambda>x y. if place_x p + i \<le> x \<and> x < place_x p + place_w p \<and> place_y p \<le> y \<and> y < place_y p + place_h p
      then inner ((x - place_x p) * w div place_w p) ((y - place_y p) * h div place_h p) else pic x y) = pic"
    using 0 by (intro ext) auto
  then show ?case using 0 drawing_fields(3) [OF ok 0(1)] by (subst render_columns.simps) (simp add: p_def)
next
  case (Suc n)
  let ?pic = "\<lambda>x y. if x = place_x p + i \<and> place_y p + 0 \<le> y \<and> y < place_y p + place_h p
      then inner (i * w div place_w p) ((y - place_y p) * h div place_h p) else pic x y"
  have i: "i < place_w p" "n = nat (place_w p - (i + 1))" "0 \<le> i + 1" using Suc.prems by linarith+
  obtain m1 where m1: "render_column cv W w h px pl i 0 m = cret m1" "drawing m0 px W H ?pic m1"
    using render_column_drawing [OF ok, folded p_def, OF Suc.prems(2) i(1) Suc.prems(1) order_refl refl] by blast
  have eq: "(\<lambda>x y. if place_x p + (i + 1) \<le> x \<and> x < place_x p + place_w p \<and> place_y p \<le> y \<and> y < place_y p + place_h p
      then inner ((x - place_x p) * w div place_w p) ((y - place_y p) * h div place_h p) else ?pic x y) =
    (\<lambda>x y. if place_x p + i \<le> x \<and> x < place_x p + place_w p \<and> place_y p \<le> y \<and> y < place_y p + place_h p
      then inner ((x - place_x p) * w div place_w p) ((y - place_y p) * h div place_h p) else pic x y)"
    using i(1) Suc.prems(2) by (intro ext) auto
  show ?case
    using Suc.IH [OF m1(2) i(3,2)] m1(1) drawing_fields(3) [OF ok Suc.prems(1)] i(1) unfolding eq
    by (subst render_columns.simps) (simp add: p_def)
qed

text \<open>What drawing a canvas does: the target gets the stretched picture, nothing else changes.\<close>

lemma blit:
  assumes ok: "blit_ok m cv W H w h px pl inner" and "holds m px W H pic"
  obtains m' where "render_columns cv W w h px pl 0 m = cret m'"
    "holds m' px W H (stretched (place_of m cv) w h inner pic)" "\<forall>a. a < px \<or> px + 3 * (W * H) \<le> a \<longrightarrow> m' a = m a"
proof -
  have "drawing m px W H pic m" using assms(2) by (simp add: drawing_def)
  from render_columns_drawing [OF ok this order_refl refl] show thesis
    by (auto simp: drawing_def stretched_def intro: that)
qed

subsection \<open>Trees of canvases\<close>

datatype canvas =
    Texture place int int picture
  | Subtree place int int "canvas list"

text \<open>The specification: the picture a canvas makes of the one below it.\<close>

primrec paint :: "canvas \<Rightarrow> picture \<Rightarrow> picture" where
  "paint (Texture p w h inner) = stretched p w h inner"
| "paint (Subtree p w h cs) = stretched p w h (fold id (map paint cs) (\<lambda>_ _. (0, 0, 0)))"

text \<open>How much of \<^verbatim>\<open>vbuf\<close> a canvas takes, and that everything fits.\<close>

primrec needs :: "canvas \<Rightarrow> int" where
  "needs (Texture p w h inner) = 0"
| "needs (Subtree p w h cs) = 3 * (w * h) + sum_list (map needs cs)"

primrec all_fit :: "canvas \<Rightarrow> int \<Rightarrow> int \<Rightarrow> bool" where
  "all_fit (Texture p w h inner) W H = fits p w h W H"
| "all_fit (Subtree p w h cs) W H = (fits p w h W H \<and> list_all (\<lambda>f. f w h) (map all_fit cs))"

text \<open>The tree as it is stored in the video memory.\<close>

definition node_at :: "gpu_arrays \<Rightarrow> int \<Rightarrow> bool" where
  "node_at g cv \<longleftrightarrow> cv \<noteq> 0 \<and> vmem g \<le> cv \<and> cv + 26 \<le> vmem g + VMEM_SIZE"

fun canvas_at :: "gpu_arrays \<Rightarrow> mem \<Rightarrow> int \<Rightarrow> canvas \<Rightarrow> bool"
  and canvases_at :: "gpu_arrays \<Rightarrow> mem \<Rightarrow> int \<Rightarrow> canvas list \<Rightarrow> bool" where
  "canvas_at g m cv (Texture p w h inner) \<longleftrightarrow> node_at g cv \<and> load16 m cv = 1 \<and> place_of m cv = p \<and>
     load16 m (cv + 18) = w \<and> load16 m (cv + 20) = h \<and> vmem g \<le> to_host g (load32 m (cv + 22)) \<and>
     to_host g (load32 m (cv + 22)) + 3 * (w * h) \<le> vmem g + VMEM_SIZE \<and> holds m (to_host g (load32 m (cv + 22))) w h inner"
| "canvas_at g m cv (Subtree p w h cs) \<longleftrightarrow> node_at g cv \<and> load16 m cv = 2 \<and> place_of m cv = p \<and>
     load16 m (cv + 2) = w \<and> load16 m (cv + 4) = h \<and> canvases_at g m (to_host g (load32 m (cv + 18))) cs"
| "canvases_at g m ch [] \<longleftrightarrow> ch = 0"
| "canvases_at g m ch (c # cs) \<longleftrightarrow> canvas_at g m ch c \<and> canvases_at g m (to_host g (load32 m (ch + 14))) cs"

definition same_vmem :: "gpu_arrays \<Rightarrow> mem \<Rightarrow> mem \<Rightarrow> bool" where
  "same_vmem g m m' \<longleftrightarrow> (\<forall>a. vmem g \<le> a \<longrightarrow> a < vmem g + VMEM_SIZE \<longrightarrow> m' a = m a)"

lemma node_fields:
  assumes "same_vmem g m m'" "node_at g cv"
  shows "\<And>k. 0 \<le> k \<Longrightarrow> k < 25 \<Longrightarrow> load16 m' (cv + k) = load16 m (cv + k)" "load16 m' cv = load16 m cv"
    "\<And>k. 0 \<le> k \<Longrightarrow> k < 23 \<Longrightarrow> load32 m' (cv + k) = load32 m (cv + k)" "place_of m' cv = place_of m cv"
proof -
  have b: "m' (cv + k) = m (cv + k)" if "0 \<le> k" "k < 26" for k using that assms by (simp add: same_vmem_def node_at_def)
  show h: "load16 m' (cv + k) = load16 m (cv + k)" if "0 \<le> k" "k < 25" for k
    using b [of k] b [of "k + 1"] that by (simp add: load16_def add.assoc)
  show "load16 m' cv = load16 m cv" using h [of 0] by simp
  show "load32 m' (cv + k) = load32 m (cv + k)" if "0 \<le> k" "k < 23" for k
    using b [of k] b [of "k + 1"] b [of "k + 2"] b [of "k + 3"] that by (simp add: load32_def add.assoc)
  show "place_of m' cv = place_of m cv" by (simp add: place_of_def h)
qed

lemma canvas_at_cong:
  assumes same: "same_vmem g m m'"
  shows "canvas_at g m cv c \<Longrightarrow> canvas_at g m' cv c"
    "canvases_at g m ch cs \<Longrightarrow> canvases_at g m' ch cs"
  using same
proof (induction g m cv c and g m ch cs rule: canvas_at_canvases_at.induct)
  case (1 g m cv p w h inner)
  have n: "node_at g cv" using 1(1) by simp
  note f = node_fields [OF 1(2) n]
  let ?a = "to_host g (load32 m (cv + 22))"
  have a: "vmem g \<le> ?a" "?a + 3 * (w * h) \<le> vmem g + VMEM_SIZE" "holds m ?a w h inner" using 1(1) by simp_all
  have "holds m' ?a w h inner"
    using 1(2) a(1,2) by (intro holds_cong [OF a(3)]) (simp add: same_vmem_def)
  moreover have "to_host g (load32 m' (cv + 22)) = ?a" using f(3) [of 22] by simp
  ultimately show ?case using 1(1) f(1) [of 18] f(1) [of 20] f(2,4) n by simp
next
  case (2 g m cv p w h cs)
  have n: "node_at g cv" using 2(2) by simp
  note f = node_fields [OF 2(3) n]
  show ?case using 2 f(1) [of 2] f(1) [of 4] f(2,4) f(3) [of 18] n by simp
next
  case (4 g m ch c cs)
  have "node_at g ch" using 4(3) by (cases c) auto
  note f = node_fields [OF 4(4) this]
  show ?case using 4 f(3) [of 14] by simp
qed simp

lemma needs_nonneg: "all_fit c W H \<Longrightarrow> 0 \<le> needs c"
proof (induction c arbitrary: W H)
  case (Subtree p w h cs)
  have "0 \<le> needs c" if "c \<in> set cs" for c using Subtree that by (auto simp: list_all_iff)
  then have "0 \<le> sum_list (map needs cs)" by (intro sum_list_nonneg) auto
  then show ?case using Subtree.prems by (simp add: fits_def)
qed simp

lemma needs_list_nonneg: "list_all (\<lambda>c. all_fit c W H) cs \<Longrightarrow> 0 \<le> sum_list (map needs cs)"
  by (induction cs) (auto dest: needs_nonneg)

subsection \<open>Rendering is painting\<close>

text \<open>The target apart from the video memory and the free part of \<^verbatim>\<open>vbuf\<close>.\<close>

definition target_ok :: "gpu_arrays \<Rightarrow> int \<Rightarrow> int \<Rightarrow> int \<Rightarrow> int \<Rightarrow> bool" where
  "target_ok g W H px head \<longleftrightarrow> apart (px, 3 * (W * H)) (vmem g, VMEM_SIZE) \<and>
     (px + 3 * (W * H) \<le> head \<or> vbuf g + VMEM_SIZE \<le> px) \<and> vbuf g \<le> head \<and> apart (vmem g, VMEM_SIZE) (vbuf g, VMEM_SIZE)"

text \<open>Only the target and \<open>n\<close> bytes of \<^verbatim>\<open>vbuf\<close> have changed.\<close>

definition only_drawn :: "int \<Rightarrow> int \<Rightarrow> int \<Rightarrow> int \<Rightarrow> int \<Rightarrow> mem \<Rightarrow> mem \<Rightarrow> bool" where
  "only_drawn W H px head n m m' \<longleftrightarrow> (\<forall>a. a < px \<or> px + 3 * (W * H) \<le> a \<longrightarrow> a < head \<or> head + n \<le> a \<longrightarrow> m' a = m a)"

definition draws :: "gpu_arrays \<Rightarrow> gpu_display \<Rightarrow> canvas \<Rightarrow> bool" where
  "draws g d c \<longleftrightarrow> (\<forall>m cv parent W H px head pic.
     canvas_at g m cv c \<longrightarrow> all_fit c W H \<longrightarrow> parent_w d m parent = W \<longrightarrow> target_ok g W H px head \<longrightarrow>
     head + needs c \<le> vbuf g + VMEM_SIZE \<longrightarrow> holds m px W H pic \<longrightarrow>
     (\<exists>m'. render g d (Render cv parent px) (m, head) = cret (m', head + needs c) \<and>
        holds m' px W H (paint c pic) \<and> only_drawn W H px head (needs c) m m'))"

lemma only_drawn_vmem:
  "only_drawn W H px head n m m' \<Longrightarrow> target_ok g W H px head \<Longrightarrow> head + n \<le> vbuf g + VMEM_SIZE \<Longrightarrow> same_vmem g m m'"
  by (auto simp: only_drawn_def target_ok_def same_vmem_def)

lemma draws_siblings:
  assumes "\<And>c. c \<in> set cs \<Longrightarrow> draws g d c" "parent = Canvas cv" "node_at g cv"
  shows "canvases_at g m ch cs \<Longrightarrow> list_all (\<lambda>c. all_fit c W H) cs \<Longrightarrow> parent_w d m parent = W \<Longrightarrow> target_ok g W H px head \<Longrightarrow>
    head + sum_list (map needs cs) \<le> vbuf g + VMEM_SIZE \<Longrightarrow> holds m px W H pic \<Longrightarrow>
    \<exists>m'. render g d (Siblings ch parent px) (m, head) = cret (m', head + sum_list (map needs cs)) \<and>
      holds m' px W H (fold id (map paint cs) pic) \<and> only_drawn W H px head (sum_list (map needs cs)) m m'"
  using assms(1)
proof (induction cs arbitrary: m ch head pic)
  case Nil
  then show ?case by (subst render.simps) (simp add: only_drawn_def)
next
  case (Cons c cs)
  have fit: "all_fit c W H" "list_all (\<lambda>c. all_fit c W H) cs" using Cons.prems(2) by simp_all
  have at: "canvas_at g m ch c" "canvases_at g m (to_host g (load32 m (ch + 14))) cs" using Cons.prems(1) by simp_all
  have ch: "node_at g ch" using at(1) by (cases c) auto
  have nn: "0 \<le> needs c" "0 \<le> sum_list (map needs cs)"
    using needs_nonneg [OF fit(1)] needs_list_nonneg [OF fit(2)] by simp_all
  have room: "head + needs c \<le> vbuf g + VMEM_SIZE" using Cons.prems(5) nn by simp
  obtain m1 where m1: "render g d (Render ch parent px) (m, head) = cret (m1, head + needs c)" "holds m1 px W H (paint c pic)"
      "only_drawn W H px head (needs c) m m1"
    using Cons.prems(7) [of c] at(1) fit(1) Cons.prems(3,4,6) room unfolding draws_def by (metis list.set_intros(1))
  have same: "same_vmem g m m1" by (rule only_drawn_vmem [OF m1(3) Cons.prems(4) room])
  have tgt: "target_ok g W H px (head + needs c)" using Cons.prems(4) nn(1) by (auto simp: target_ok_def)
  have pw: "parent_w d m1 parent = W"
    using Cons.prems(3) node_fields(1) [OF same assms(3), of 2] by (simp add: parent_w_def assms(2))
  have kids: "canvases_at g m1 (to_host g (load32 m1 (ch + 14))) cs"
    using canvas_at_cong(2) [OF same at(2)] node_fields(3) [OF same ch, of 14] by simp
  have rest: "head + needs c + sum_list (map needs cs) \<le> vbuf g + VMEM_SIZE" "\<And>c. c \<in> set cs \<Longrightarrow> draws g d c"
    using Cons.prems(5,7) by simp_all
  obtain m2 where m2: "render g d (Siblings (to_host g (load32 m1 (ch + 14))) parent px) (m1, head + needs c) =
        cret (m2, head + needs c + sum_list (map needs cs))"
      "holds m2 px W H (fold id (map paint cs) (paint c pic))" "only_drawn W H px (head + needs c) (sum_list (map needs cs)) m1 m2"
    using Cons.IH [OF kids fit(2) pw tgt rest(1) m1(2) rest(2)] by blast
  have "only_drawn W H px head (needs c + sum_list (map needs cs)) m m2"
    using m1(3) m2(3) nn by (auto simp: only_drawn_def)
  then show ?case using m1(1) m2 ch by (subst render.simps) (simp add: node_at_def add.assoc)
qed

lemma clear_bytes_apply: "clear_bytes n p m a = (if p \<le> a \<and> a < p + int n then 0 else m a)"
  by (induction n arbitrary: p m) auto

lemma draws_canvas: "draws g d c"
proof (induction c)
  case (Texture p w h inner)
  show ?case unfolding draws_def
  proof (intro allI impI)
    fix m cv parent W H px head pic
    assume a: "canvas_at g m cv (Texture p w h inner)" "all_fit (Texture p w h inner) W H" "parent_w d m parent = W"
      "target_ok g W H px head" "holds m px W H pic"
    let ?pl = "to_host g (load32 m (cv + 22))"
    have ok: "blit_ok m cv W H w h px ?pl inner"
      using a by (auto simp: blit_ok_def node_at_def target_ok_def)
    obtain m' where m': "render_columns cv W w h px ?pl 0 m = cret m'" "holds m' px W H (stretched (place_of m cv) w h inner pic)"
        "\<forall>a. a < px \<or> px + 3 * (W * H) \<le> a \<longrightarrow> m' a = m a"
      using blit [OF ok a(5)] by blast
    have "render g d (Render cv parent px) (m, head) = cret (m', head)"
      using a(1,3) m'(1) by (subst render.simps) (simp add: Let_def)
    then show "\<exists>m'. render g d (Render cv parent px) (m, head) = cret (m', head + needs (Texture p w h inner)) \<and>
        holds m' px W H (paint (Texture p w h inner) pic) \<and> only_drawn W H px head (needs (Texture p w h inner)) m m'"
      using m' a(1) by (auto simp: only_drawn_def)
  qed
next
  case (Subtree p w h cs)
  show ?case unfolding draws_def
  proof (intro allI impI)
    fix m cv parent W H px head pic
    let ?c = "Subtree p w h cs" and ?n = "3 * (w * h)" and ?sum = "sum_list (map needs cs)"
    assume a: "canvas_at g m cv ?c" "all_fit ?c W H" "parent_w d m parent = W" "target_ok g W H px head"
      "head + needs ?c \<le> vbuf g + VMEM_SIZE" "holds m px W H pic"
    have f: "fits p w h W H" "list_all (\<lambda>c. all_fit c w h) cs" using a(2) by (simp_all add: list_all_iff)
    have cv: "node_at g cv" using a(1) by simp
    have nn: "0 \<le> ?sum" "0 < ?n" using needs_list_nonneg [OF f(2)] f(1) by (simp_all add: fits_def)
    have "?n \<le> VMEM_SIZE" using a(5) a(4) nn(1) by (simp add: target_ok_def)
    then have size: "s32 (u64 (s32 (w * h) * 3)) = ?n" using nn(2) by (simp add: s32_id u64_id mult.commute)
    define m1 where "m1 = clear_bytes (nat ?n) head m"
    have m1: "m1 x = (if head \<le> x \<and> x < head + ?n then 0 else m x)" for x using nn(2) by (simp add: m1_def clear_bytes_apply)
    have alloc: "vbuf_alloc g ?n (m, head) = cret (head, m1, head + ?n)" using a(5) nn(1) by (simp add: vbuf_alloc_def m1_def)
    have same1: "same_vmem g m m1" using a(4,5) nn by (auto simp: same_vmem_def m1 target_ok_def)
    have black: "holds m1 head w h (\<lambda>_ _. (0, 0, 0))"
      unfolding holds_def
    proof (intro allI impI)
      fix x y assume "0 \<le> x" "x < w" "0 \<le> y" "y < h"
      note r = index_range [OF this]
      show "pixel_of m1 (head + 3 * (w * y + x)) = (0, 0, 0)" using r(2,3) unfolding pixel_of_def m1 by (simp add: add.assoc)
    qed
    have kids: "canvases_at g m1 (to_host g (load32 m1 (cv + 18))) cs"
      using canvas_at_cong(2) [OF same1] a(1) node_fields(3) [OF same1 cv, of 18] by simp
    have pw: "parent_w d m1 (Canvas cv) = w" using a(1) node_fields(1) [OF same1 cv, of 2] by (simp add: parent_w_def)
    have tgt: "target_ok g w h head (head + ?n)"
    proof -
      define k where "k = w * h"
      show ?thesis using a(4,5) nn unfolding target_ok_def apart_simp needs.simps k_def [symmetric] by auto
    qed
    have room: "head + ?n + ?sum \<le> vbuf g + VMEM_SIZE" using a(5) by simp
    obtain m2 where m2: "render g d (Siblings (to_host g (load32 m1 (cv + 18))) (Canvas cv) head) (m1, head + ?n) = cret (m2, head + ?n + ?sum)"
        "holds m2 head w h (fold id (map paint cs) (\<lambda>_ _. (0, 0, 0)))" "only_drawn w h head (head + ?n) ?sum m1 m2"
      using draws_siblings [OF Subtree refl cv kids f(2) pw tgt room black] by blast
    have same: "same_vmem g m m2" "\<And>x. x < head \<or> head + ?n + ?sum \<le> x \<Longrightarrow> m2 x = m x"
      using only_drawn_vmem [OF m2(3) tgt room] same1 m2(3) nn by (auto simp: same_vmem_def only_drawn_def m1)
    have pl: "place_of m2 cv = p" using node_fields(4) [OF same(1) cv] a(1) by simp
    have ok: "blit_ok m2 cv W H w h px head (fold id (map paint cs) (\<lambda>_ _. (0, 0, 0)))"
      using pl f(1) m2(2) a(4,5) cv nn(1) by (auto simp: blit_ok_def target_ok_def node_at_def)
    have "holds m2 px W H pic"
      using a(4,5) nn by (intro holds_cong [OF a(6)] same(2)) (auto simp: target_ok_def)
    then obtain m' where m': "render_columns cv W w h px head 0 m2 = cret m'" "holds m' px W H (paint ?c pic)"
        "\<forall>x. x < px \<or> px + 3 * (W * H) \<le> x \<longrightarrow> m' x = m2 x"
      using blit [OF ok] unfolding pl paint.simps by blast
    have "render g d (Render cv parent px) (m, head) = cret (m', head + needs ?c)"
      using a(1,3) alloc size m2(1) m'(1) by (subst render.simps) (simp add: Let_def add.assoc)
    moreover have "only_drawn W H px head (needs ?c) m m'" using m'(3) same(2) by (auto simp: only_drawn_def)
    ultimately show "\<exists>m'. render g d (Render cv parent px) (m, head) = cret (m', head + needs ?c) \<and>
        holds m' px W H (paint ?c pic) \<and> only_drawn W H px head (needs ?c) m m'" using m'(2) by blast
  qed
qed

text \<open>\<open>gpu_memcpy\<close> copies its bytes into the video memory when the two do not overlap.\<close>

lemma copy_bytes_apply:
  "src + int n \<le> dst \<or> dst + int n \<le> src \<Longrightarrow>
   copy_bytes n dst src m a = (if dst \<le> a \<and> a < dst + int n then m (src + (a - dst)) else m a)"
proof (induction n arbitrary: dst src m)
  case (Suc n)
  then have ih: "copy_bytes n (dst + 1) (src + 1) (m(dst := m src)) a =
      (if dst + 1 \<le> a \<and> a < dst + 1 + int n then (m(dst := m src)) (src + 1 + (a - (dst + 1))) else (m(dst := m src)) a)"
    by (intro Suc.IH) auto
  then show ?case using Suc.prems by (cases "a = dst") auto
qed auto

lemma gpu_memcpy_correct:
  assumes "0 \<le> k" "copy_src p + k \<le> vmem g + copy_dest p \<or> vmem g + copy_dest p + k \<le> copy_src p"
    and "copy_size p = k" "copy_dest p \<noteq> 0xffffffff"
  shows "gpu_memcpy g p m = (\<lambda>a. if a \<in> bytes (vmem g + copy_dest p, k) then m (copy_src p + (a - (vmem g + copy_dest p))) else m a)"
  using assms by (intro ext) (simp add: gpu_memcpy_def to_host_def copy_bytes_apply)

text \<open>A canvas of 40000 times 20000 pixels asks for a negative size, which is granted.\<close>

lemma vbuf_alloc_overflow:
  "head \<le> vbuf g + VMEM_SIZE \<Longrightarrow>
   vbuf_alloc g (s32 (u64 (s32 (40000 * 20000) * 3))) (m, head) = cret (head, m, head - 1894967296)"
  by (simp add: vbuf_alloc_def s32_def u64_def)

text \<open>C36. \<open>gpu_render\<close> draws the tree of canvases in the video memory as the specification \<open>paint\<close> says: every texture
  and every subtree, drawn on black in a buffer of its own, is stretched over its place on its parent, in the
  order of the siblings.  It returns, and apart from the frame buffer and \<open>vbuf\<close> nothing changes.\<close>

theorem gpu_render_correct:
  assumes "canvas_at g m (to_host g root) c" "all_fit c (disp_w d) (disp_h d)" "needs c \<le> VMEM_SIZE"
    and "apart (fb d, 3 * (disp_w d * disp_h d)) (vmem g, VMEM_SIZE)" "apart (fb d, 3 * (disp_w d * disp_h d)) (vbuf g, VMEM_SIZE)"
    and "apart (vmem g, VMEM_SIZE) (vbuf g, VMEM_SIZE)"
  shows "\<exists>m'. gpu_render g d root (m, head) = cret (m', vbuf g + needs c) \<and>
     holds m' (fb d) (disp_w d) (disp_h d) (paint c (\<lambda>x y. pixel_of m (fb d + 3 * (disp_w d * y + x)))) \<and>
     (\<forall>a. a \<notin> bytes (fb d, 3 * (disp_w d * disp_h d)) \<and> a \<notin> bytes (vbuf g, VMEM_SIZE) \<longrightarrow> m' a = m a)"
proof -
  have "holds m (fb d) (disp_w d) (disp_h d) (\<lambda>x y. pixel_of m (fb d + 3 * (disp_w d * y + x)))" by (simp add: holds_def)
  moreover have "target_ok g (disp_w d) (disp_h d) (fb d) (vbuf g)" using assms(4-6) by (auto simp: target_ok_def)
  moreover have "parent_w d m Display = disp_w d" by (simp add: parent_w_def)
  ultimately obtain m' where "render g d (Render (to_host g root) Display (fb d)) (m, vbuf g) = cret (m', vbuf g + needs c)"
      "holds m' (fb d) (disp_w d) (disp_h d) (paint c (\<lambda>x y. pixel_of m (fb d + 3 * (disp_w d * y + x))))"
      "only_drawn (disp_w d) (disp_h d) (fb d) (vbuf g) (needs c) m m'"
    using draws_canvas [of g d c] assms(1-3) unfolding draws_def by (metis add_left_mono)
  then show ?thesis using assms(3) by (auto simp: gpu_render_def only_drawn_def)
qed

text \<open>A subtree of one pixel, stretched over the two pixels in the middle of a row of four, with a texture of one pixel in it.\<close>

definition tiny_tree :: mem where
  "tiny_tree a = (let bs = [2, 0, 1, 0, 1, 0, 1, 0, 0, 0, 2, 0, 1, 0, 255, 255, 255, 255, 26, 0, 0, 0, 0, 0, 0, 0,
       1, 0, 0, 0, 0, 0, 0, 0, 0, 0, 1, 0, 1, 0, 255, 255, 255, 255, 1, 0, 1, 0, 52, 0, 0, 0, 7, 8, 9]
     in if 1000000 \<le> a \<and> a < 1000055 then bs ! nat (a - 1000000) else 0)"

definition tiny_canvas :: canvas where
  "tiny_canvas = Subtree \<lparr>place_x = 1, place_y = 0, place_w = 2, place_h = 1\<rparr> 1 1
     [Texture \<lparr>place_x = 0, place_y = 0, place_w = 1, place_h = 1\<rparr> 1 1 (\<lambda>_ _. (7, 8, 9))]"

lemma tiny_canvas_at: "canvas_at \<lparr>vmem = 1000000, vbuf = 2000000\<rparr> tiny_tree 1000000 tiny_canvas"
proof -
  let ?g = "\<lparr>vmem = 1000000, vbuf = 2000000\<rparr>"
  have h: "load16 tiny_tree 1000000 = 2" "load16 tiny_tree 1000002 = 1" "load16 tiny_tree 1000004 = 1"
      "load16 tiny_tree 1000026 = 1" "load16 tiny_tree 1000044 = 1" "load16 tiny_tree 1000046 = 1"
    by (simp_all add: load16_def tiny_tree_def Let_def)
  have w: "load32 tiny_tree 1000018 = 26" "load32 tiny_tree 1000040 = 0xffffffff" "load32 tiny_tree 1000048 = 52"
    by (simp_all add: load32_def tiny_tree_def Let_def)
  have p: "place_of tiny_tree 1000000 = \<lparr>place_x = 1, place_y = 0, place_w = 2, place_h = 1\<rparr>"
      "place_of tiny_tree 1000026 = \<lparr>place_x = 0, place_y = 0, place_w = 1, place_h = 1\<rparr>"
    by (simp_all add: place_of_def load16_def tiny_tree_def Let_def)
  have "holds tiny_tree 1000052 1 1 (\<lambda>_ _. (7, 8, 9))"
    unfolding holds_def
  proof (intro allI impI)
    fix x y :: int assume "0 \<le> x" "x < 1" "0 \<le> y" "y < 1"
    then have "x = 0" "y = 0" by simp_all
    then show "pixel_of tiny_tree (1000052 + 3 * (1 * y + x)) = (7, 8, 9)" by (simp add: pixel_of_def tiny_tree_def Let_def)
  qed
  then show ?thesis by (simp add: tiny_canvas_def node_at_def to_host_def h w p)
qed

theorem gpu_render_correct_witness:
  "\<exists>m'. gpu_render \<lparr>vmem = 1000000, vbuf = 2000000\<rparr> \<lparr>disp_w = 4, disp_h = 1, fb = 100\<rparr> 0 (tiny_tree, 0) = cret (m', 2000003) \<and>
     pixel_of m' 100 = (0, 0, 0) \<and> pixel_of m' 103 = (7, 8, 9) \<and> pixel_of m' 106 = (7, 8, 9) \<and> pixel_of m' 109 = (0, 0, 0)"
proof -
  let ?g = "\<lparr>vmem = 1000000, vbuf = 2000000\<rparr>" and ?d = "\<lparr>disp_w = 4, disp_h = 1, fb = 100\<rparr>"
  have "all_fit tiny_canvas 4 1" "needs tiny_canvas = 3" by (simp_all add: tiny_canvas_def fits_def)
  then obtain m' where m': "gpu_render ?g ?d 0 (tiny_tree, 0) = cret (m', 2000003)"
      "holds m' 100 4 1 (paint tiny_canvas (\<lambda>x y. pixel_of tiny_tree (100 + 3 * (4 * y + x))))"
    using gpu_render_correct [of ?g tiny_tree 0 tiny_canvas ?d 0] tiny_canvas_at by (auto simp: to_host_def)
  have "pixel_of m' (100 + 3 * (4 * 0 + x)) = paint tiny_canvas (\<lambda>x y. pixel_of tiny_tree (100 + 3 * (4 * y + x))) x 0"
    if "x \<in> {0, 1, 2, 3}" for x using m'(2) [unfolded holds_def, rule_format, of x 0] that by fastforce
  from this [of 0] this [of 1] this [of 2] this [of 3] show ?thesis
    using m'(1) by (simp add: tiny_canvas_def stretched_def pixel_of_def tiny_tree_def Let_def)
qed

end
