(* ===== verification/Kernel_Os.thy ===== *)
theory Kernel_Os
  imports Pmm_Client Klib_Format Am_Trm
begin

text \<open>
  The kernel itself, \<open>kernel/src/os.c\<close> without \<^verbatim>\<open>TEST\<close>: \<open>os_init\<close> sets up the allocator, and \<open>os_run\<close>, which every
  processor enters, prints a greeting and the addresses of four blocks.  It puts the allocator, \<open>printf\<close> and the
  serial line together.  \<^verbatim>\<open>heap.start\<close>, \<^verbatim>\<open>heap.end\<close>, \<^verbatim>\<open>cpu_count()\<close> and \<^verbatim>\<open>cpu_current()\<close> are arguments, and so is the
  address \<open>fmt\<close> of the format string, whose bytes are in memory outside the heap.
\<close>

subsection \<open>The kernel\<close>

definition os_init :: "int \<Rightarrow> int \<Rightarrow> nat \<Rightarrow> pmm_state \<Rightarrow> pmm_state cres" where
  "os_init start endp ncpu s = pmm_init start endp ncpu s"

text \<open>\<^verbatim>\<open>for (; *s; s++) putch(*s == '*' ? '0' + cpu_current() : *s);\<close>\<close>

fun greet :: "nat \<Rightarrow> string \<Rightarrow> history \<Rightarrow> history" where
  "greet cpu [] h = h"
| "greet cpu (ch # s) h = greet cpu s (putch (if ch = CHR ''*'' then of_char CHR ''0'' + int cpu else of_char ch) h)"

text \<open>\<^verbatim>\<open>printf("%x\n", pmm->alloc(n));\<close>, whose bytes \<open>printf\<close> passes to \<open>putch\<close>.\<close>

definition print_alloc :: "nat \<Rightarrow> nat \<Rightarrow> int \<Rightarrow> int \<Rightarrow> pmm_state \<times> history \<Rightarrow> (pmm_state \<times> history) cres" where
  "print_alloc ncpu cpu fmt n = (\<lambda>(s, h).
     cbind (kalloc ncpu cpu n s) (\<lambda>(s, p).
     cbind (printf (mem s) fmt [p]) (\<lambda>(out, _).
       cret (s, fold (\<lambda>b. putch (uint b)) out h))))"

text \<open>The state in which \<^verbatim>\<open>while(true);\<close> is reached, which is never left.\<close>

definition os_run :: "nat \<Rightarrow> nat \<Rightarrow> int \<Rightarrow> pmm_state \<times> history \<Rightarrow> (pmm_state \<times> history) cres" where
  "os_run ncpu cpu fmt = (\<lambda>(s, h).
     let h = greet cpu (''Hello World from CPU #*'' @ [CHR 0x0A]) h in
     cbind (print_alloc ncpu cpu fmt 5368 (s, h)) (\<lambda>st.
     cbind (print_alloc ncpu cpu fmt 4096 st) (\<lambda>st.
     cbind (print_alloc ncpu cpu fmt 5368 st) (\<lambda>st.
     print_alloc ncpu cpu fmt 4 st))))"

subsection \<open>A processor that has a page keeps it\<close>

lemma if_ret_iff: "(if b then r else t) = cret w \<longleftrightarrow> b \<and> r = cret w \<or> \<not> b \<and> t = cret w"
  by simp

lemmas ret_iffs = obind_ret_iff if_ret_iff cbind_ret_iff cassert_ret_iff Let_def case_prod_beta

lemma lock_heap_pages: "lock_heap s = cret s' \<Longrightarrow> cpupagelist s' = cpupagelist s"
  by (auto simp: lock_heap_def cbind_ret_iff)

lemma allockpage_pages: "allockpage s = cret (s', p) \<Longrightarrow> cpupagelist s' = cpupagelist s"
  unfolding allockpage_def ret_iffs by (auto simp: ret_iffs unlock_heap_def dest!: lock_heap_pages)

lemma first_page_has_page: "first_page c sz s = cret s' \<Longrightarrow> pagehead (cpupagelist s' c) \<noteq> 0"
  unfolding first_page_def ret_iffs by (auto simp: unlock_cpu_def)

lemma fresh_page_has_page:
  "fresh_page c sz s = cret (s', p) \<Longrightarrow> pagehead (cpupagelist s c) \<noteq> 0 \<Longrightarrow> pagehead (cpupagelist s' c) \<noteq> 0"
  unfolding fresh_page_def ret_iffs by (auto dest!: allockpage_pages)

lemma lock_cpu_pages: "lock_cpu c s = cret s' \<Longrightarrow> pagehead (cpupagelist s' c) = pagehead (cpupagelist s c)"
  by (auto simp: lock_cpu_def cbind_ret_iff)

lemma kalloc_small_has_page: "kalloc_small ncpu c sz s = cret (s', p) \<Longrightarrow> pagehead (cpupagelist s' c) \<noteq> 0"
  unfolding kalloc_small_def ret_iffs
  by (auto simp: unlock_cpu_def dest!: first_page_has_page lock_cpu_pages fresh_page_has_page)

text \<open>A small request that is granted, or that finds the memory used up; either way the next one returns too.\<close>

definition has_page :: "nat \<Rightarrow> pmm_state \<Rightarrow> bool" where
  "has_page c s \<longleftrightarrow> pagehead (cpupagelist s c) \<noteq> 0"

lemma has_page_pages: "pmm_inv ncpu lo hi s xs P \<Longrightarrow> c < ncpu \<Longrightarrow> has_page c s \<longleftrightarrow> P c \<noteq> []"
  using pmm_invD(4) [of ncpu lo hi s xs P c] by (cases "P c") (auto simp: has_page_def pages_ok_def)

lemma os_block_in_heap: "pmm_inv ncpu lo hi s xs P \<Longrightarrow> owned ncpu xs P \<subseteq> bytes (lo, hi - lo)"
proof
  fix x assume inv: "pmm_inv ncpu lo hi s xs P" and x: "x \<in> owned ncpu xs P"
  show "x \<in> bytes (lo, hi - lo)"
  proof (cases "x \<in> all_bytes xs")
    case True
    then show ?thesis using pmm_invD(1) [OF inv] by (fastforce simp: free_ok_def elim!: all_bytes_memE)
  next
    case False
    then obtain g where g: "g \<in> set (all_pages ncpu P)" "x \<in> page_owned g" using x by (auto simp: owned_def)
    then obtain i where "i < ncpu" "g \<in> set (P i)" by (auto simp: all_pages_def)
    then have "lo \<le> fst g \<and> fst g + page_bytes \<le> hi" using pmm_invD(4) [OF inv] by (auto simp: pages_ok_def)
    then show ?thesis using page_owned_within [OF pmm_inv_page(1) [OF inv g(1)]] g(2) by (auto simp: page_region_def bytes_def)
  qed
qed

subsection \<open>What is printed\<close>

text \<open>An address in hexadecimal and the end of the line, as characters.\<close>

definition hex_line :: "int \<Rightarrow> int list" where
  "hex_line p = map uint (map hex_digit (num_digits 16 p) @ [10])"

lemma serial_fold: "serial (fold (\<lambda>b. putch (uint b)) out h) = serial h @ map uint (out :: 8 word list)"
proof (induction out arbitrary: h)
  case (Cons b out)
  have "uint b mod 256 = uint b" using byte_range [of b] by (intro mod_pos_pos_trivial)
  then show ?case using Cons [of "putch (uint b) h"] by simp
qed simp

lemma printf_hex_line:
  assumes "fmt \<noteq> 0" "cstr m fmt [37, 120, 10]" "0 \<le> p" "p < 18446744073709551616"
  shows "\<exists>r. printf m fmt [p] = cret (map hex_digit (num_digits 16 p) @ [10], r)"
  using printf_text [of fmt m "[Hex p, Lit 10]"] assms by (auto simp: codes_def)

text \<open>
  The kernel at work: the allocator's invariant with the free bytes \<open>F\<close>, a page for this processor or one to
  give it, at least \<open>k\<close> pages in the heap, and the format string.
\<close>

definition running :: "nat \<Rightarrow> int \<Rightarrow> int \<Rightarrow> nat \<Rightarrow> int \<Rightarrow> nat \<Rightarrow> int set \<Rightarrow> pmm_state \<Rightarrow> bool" where
  "running ncpu lo hi c fmt k F s \<longleftrightarrow> c < ncpu \<and> quiet ncpu s \<and> fmt \<noteq> 0 \<and> cstr (mem s) fmt [37, 120, 10] \<and>
     apart (fmt, 4) (lo, hi - lo) \<and>
     (\<exists>xs P. pmm_inv ncpu lo hi s xs P \<and> owned ncpu xs P = F \<and> k \<le> heap_pages xs \<and> (has_page c s \<or> fst (take_page xs) \<noteq> 0))"

lemma kalloc_has_page:
  assumes "kalloc ncpu c n s = cret (s', p)" "0 \<le> n" "n \<le> 16384"
  shows "has_page c s'"
proof -
  obtain k where "kalloc ncpu c n s = kalloc_small ncpu c k s" using kalloc_small_eq [OF assms(2,3)] by blast
  then show ?thesis using kalloc_small_has_page [of ncpu c k s s' p] assms(1) by (simp add: has_page_def)
qed

lemma print_alloc_ok:
  assumes run: "running ncpu lo hi c fmt k F s" and n: "1 \<le> n" "n \<le> 16384"
  obtains s' h' p F' where "print_alloc ncpu c fmt n (s, h) = cret (s', h')" "serial h' = serial h @ hex_line p"
    "running ncpu lo hi c fmt (k - 1) F' s'" "F' \<subseteq> F" "p = 0 \<or> bytes (p, n) \<subseteq> F - F'" "0 < k \<longrightarrow> p \<noteq> 0"
proof -
  obtain xs P where s: "c < ncpu" "quiet ncpu s" "fmt \<noteq> 0" "cstr (mem s) fmt [37, 120, 10]" "apart (fmt, 4) (lo, hi - lo)"
      "pmm_inv ncpu lo hi s xs P" "owned ncpu xs P = F" "P c \<noteq> [] \<or> fst (take_page xs) \<noteq> 0" "k \<le> heap_pages xs"
    using run has_page_pages unfolding running_def by metis
  have n0: "0 \<le> n" using n(1) by simp
  obtain s' p where ka: "kalloc ncpu c n s = cret (s', p)" using kalloc_total [OF s(6,2,1) n0 n(2) s(8)] by blast
  have heap: "F \<subseteq> bytes (lo, hi - lo)" using os_block_in_heap [OF s(6)] s(7) by simp
  have hi: "hi \<le> 9223372036854775808" using pmm_invD(1) [OF s(6)] by (simp add: free_ok_def)
  have fmt_out: "x \<notin> F" if "x \<in> bytes (fmt, 4)" for x using that heap s(5) by (force simp: apart_def)
  have *: "\<exists>F'. running ncpu lo hi c fmt (k - 1) F' s' \<and> F' \<subseteq> F \<and> (p = 0 \<or> bytes (p, n) \<subseteq> F - F') \<and> 0 \<le> p \<and> p < 18446744073709551616"
    if q: "quiet ncpu s'" and inv: "pmm_inv ncpu lo hi s' ys Q" and frame: "\<forall>x. x \<notin> F \<longrightarrow> mem s' x = mem s x"
      and kp: "k - 1 \<le> heap_pages ys" and sub: "owned ncpu ys Q \<subseteq> F" "p = 0 \<or> 0 < p \<and> bytes (p, n) \<subseteq> F - owned ncpu ys Q" for ys Q
  proof -
    have "cstr (mem s') fmt [37, 120, 10]"
      using s(4) frame fmt_out by (auto simp: add.assoc)
    then have "running ncpu lo hi c fmt (k - 1) (owned ncpu ys Q) s'"
      using q inv kp s(1,3,5) kalloc_has_page [OF ka n0 n(2)] by (auto simp: running_def)
    moreover have "p < hi" if "p \<noteq> 0"
    proof -
      have "p \<in> bytes (p, n)" using n(1) by simp
      then show ?thesis using sub(2) heap that by fastforce
    qed
    ultimately show ?thesis using sub hi by (intro exI [of _ "owned ncpu ys Q"]) auto
  qed
  have "(\<exists>F'. running ncpu lo hi c fmt (k - 1) F' s' \<and> F' \<subseteq> F \<and> (p = 0 \<or> bytes (p, n) \<subseteq> F - F') \<and> 0 \<le> p \<and> p < 18446744073709551616) \<and>
    (0 < k \<longrightarrow> p \<noteq> 0)"
  proof (rule kalloc_returns [OF s(6,2,1) n0 n(2) ka])
    fix j assume j: "n \<le> j" "quiet ncpu s'" "granted ncpu lo hi (aligned ncpu xs P) (heap_pages xs - 1) p j (owned ncpu xs P) (mem s) s'"
    then obtain ys Q where "pmm_inv ncpu lo hi s' ys Q" "owned ncpu ys Q = F - bytes (p, j)" "0 < p" "bytes (p, j) \<subseteq> F" "heap_pages xs - 1 \<le> heap_pages ys"
        "\<forall>x. x \<notin> F \<longrightarrow> mem s' x = mem s x" by (auto simp: granted_def s(7))
    moreover have "bytes (p, n) \<subseteq> bytes (p, j)" using j(1) by auto
    ultimately show ?thesis using s(9) by (intro conjI impI * [OF j(2), of ys Q] disjI2) auto
  next
    assume "p = 0" "fst (take_page xs) = 0" "quiet ncpu s'" "pmm_inv ncpu lo hi s' xs P" "\<forall>x. x \<notin> owned ncpu xs P \<longrightarrow> mem s' x = mem s x"
    moreover have "k = 0"
      using s(9) heap_pages_none [OF take_page_null [OF pmm_invD(1) [OF s(6)] \<open>fst (take_page xs) = 0\<close>]] by simp
    ultimately show ?thesis using * [of xs P] s(7) by auto
  qed
  then obtain F' where F': "running ncpu lo hi c fmt (k - 1) F' s'" "F' \<subseteq> F" "p = 0 \<or> bytes (p, n) \<subseteq> F - F'"
      "0 \<le> p" "p < 18446744073709551616" "0 < k \<longrightarrow> p \<noteq> 0" by blast
  have "cstr (mem s') fmt [37, 120, 10]" using F'(1) by (simp add: running_def)
  then obtain r where "printf (mem s') fmt [p] = cret (map hex_digit (num_digits 16 p) @ [10], r)"
    using printf_hex_line [OF s(3) _ F'(4,5)] by blast
  then have "print_alloc ncpu c fmt n (s, h) = cret (s', fold (\<lambda>b. putch (uint b)) (map hex_digit (num_digits 16 p) @ [10]) h)"
    using ka by (simp add: print_alloc_def)
  moreover have "serial (fold (\<lambda>b. putch (uint b)) (map hex_digit (num_digits 16 p) @ [10]) h) = serial h @ hex_line p"
    unfolding hex_line_def by (rule serial_fold)
  ultimately show thesis using F' by (intro that [of s' _ p F'])
qed

definition greeting :: "nat \<Rightarrow> int list" where
  "greeting cpu = ascii ''Hello World from CPU #'' @ [(48 + int cpu) mod 256] @ [10]"

lemma serial_greet: "serial (greet cpu s h) = serial h @ map (\<lambda>ch. if ch = CHR ''*'' then (48 + int cpu) mod 256 else of_char ch mod 256) s"
  by (induction s arbitrary: h) auto

lemma sorted_wrt_filterI:
  "sorted_wrt (\<lambda>a b. Q a \<longrightarrow> Q b \<longrightarrow> R a b) xs \<Longrightarrow> sorted_wrt R (filter Q xs)"
  by (induction xs) auto

lemma granted_in_turn:
  assumes sub: "F1 \<subseteq> F" "F2 \<subseteq> F1" "F3 \<subseteq> F2"
    and b: "p1 = 0 \<or> bytes (p1, n1) \<subseteq> F - F1" "p2 = 0 \<or> bytes (p2, n2) \<subseteq> F1 - F2"
      "p3 = 0 \<or> bytes (p3, n3) \<subseteq> F2 - F3" "p4 = 0 \<or> bytes (p4, n4) \<subseteq> F3 - F4"
  shows "(\<forall>b \<in> set (filter (\<lambda>b. fst b \<noteq> 0) [(p1, n1), (p2, n2), (p3, n3), (p4, n4)]). bytes b \<subseteq> F) \<and>
    sorted_wrt (\<lambda>a b. bytes a \<inter> bytes b = {}) (filter (\<lambda>b. fst b \<noteq> 0) [(p1, n1), (p2, n2), (p3, n3), (p4, n4)])"
proof
  define B where "B = (\<lambda>p n. if p = 0 then {} else bytes (p, n))"
  have B: "B p1 n1 \<subseteq> F - F1" "B p2 n2 \<subseteq> F1 - F2" "B p3 n3 \<subseteq> F2 - F3" "B p4 n4 \<subseteq> F3 - F4"
    using b by (auto simp: B_def simp del: bytes_iff)
  have eq: "bytes (p, n) = B p n" if "p \<noteq> 0" for p n using that by (simp add: B_def)
  have "B p1 n1 \<subseteq> F" "B p2 n2 \<subseteq> F" "B p3 n3 \<subseteq> F" "B p4 n4 \<subseteq> F" using B sub by blast+
  then show "\<forall>b \<in> set (filter (\<lambda>b. fst b \<noteq> 0) [(p1, n1), (p2, n2), (p3, n3), (p4, n4)]). bytes b \<subseteq> F"
    by (simp add: eq)
  have "B p1 n1 \<inter> B p2 n2 = {}" "B p1 n1 \<inter> B p3 n3 = {}" "B p1 n1 \<inter> B p4 n4 = {}"
      "B p2 n2 \<inter> B p3 n3 = {}" "B p2 n2 \<inter> B p4 n4 = {}" "B p3 n3 \<inter> B p4 n4 = {}" using B sub by blast+
  then show "sorted_wrt (\<lambda>a b. bytes a \<inter> bytes b = {}) (filter (\<lambda>b. fst b \<noteq> 0) [(p1, n1), (p2, n2), (p3, n3), (p4, n4)])"
    by (intro sorted_wrt_filterI) (simp add: eq)
qed

text \<open>C37. After \<open>os_init\<close> on a heap with room for a page, \<open>os_run\<close> reaches its endless loop: it has greeted with the number of its
  processor and printed four addresses in hexadecimal, each on a line of its own, and the blocks at those
  that are not \<^verbatim>\<open>NULL\<close> lie in the heap and do not overlap.  If the heap has room for four pages of 64 KiB none of the four is \<^verbatim>\<open>NULL\<close>.\<close>

theorem os_run_correct:
  assumes "0 < start" "start + page_bytes \<le> endp" "endp \<le> 9223372036854775808" "endp - start < 2147483648"
    "16 dvd endp - start" and cpu: "cpu < ncpu"
    and fmt: "fmt \<noteq> 0" "cstr (mem s) fmt [37, 120, 10]" "apart (fmt, 4) (start, endp - start)"
  shows "\<exists>s0 s' h' p1 p2 p3 p4. os_init start endp ncpu s = cret s0 \<and> os_run ncpu cpu fmt (s0, h) = cret (s', h') \<and>
    serial h' = serial h @ greeting cpu @ hex_line p1 @ hex_line p2 @ hex_line p3 @ hex_line p4 \<and>
    (let blocks = filter (\<lambda>b. fst b \<noteq> 0) [(p1, 5368), (p2, 4096), (p3, 5368), (p4, 4)] in
       (\<forall>b \<in> set blocks. bytes b \<subseteq> bytes (start, endp - start)) \<and> sorted_wrt (\<lambda>a b. bytes a \<inter> bytes b = {}) blocks) \<and>
    (start + 4 * page_bytes \<le> endp \<longrightarrow> p1 \<noteq> 0 \<and> p2 \<noteq> 0 \<and> p3 \<noteq> 0 \<and> p4 \<noteq> 0)"
proof -
  have "start + 16 \<le> endp" using assms(2) by simp
  then obtain s0 where s0: "os_init start endp ncpu s = cret s0" "quiet ncpu s0"
      "pmm_inv ncpu start endp s0 [(start, endp - start)] (\<lambda>_. [])" "\<forall>x. x \<notin> bytes (start, endp - start) \<longrightarrow> mem s0 x = mem s x"
    using pmm_init_establishes [OF assms(1) _ assms(3-5), of ncpu s] by (auto simp: os_init_def)
  let ?F = "bytes (start, endp - start)" and ?k = "nat ((endp - start) div page_bytes)"
  have "cstr (mem s0) fmt [37, 120, 10]"
  proof -
    have "mem s0 (fmt + k) = mem s (fmt + k)" if "0 \<le> k" "k < 4" for k using s0(4) fmt(3) that by auto
    from this [of 0] this [of 1] this [of 2] this [of 3] show ?thesis using fmt(2) by (simp add: add.assoc)
  qed
  then have run: "running ncpu start endp cpu fmt ?k ?F s0"
    using s0(2,3) cpu fmt(1,3) assms(1,2)
    by (auto simp: running_def owned_def all_pages_def intro!: exI [of _ "[(start, endp - start)]"] exI [of _ "\<lambda>_. []"])
  define h0 where "h0 = greet cpu (''Hello World from CPU #*'' @ [CHR 0x0A]) h"
  have h0: "serial h0 = serial h @ greeting cpu" by (simp add: h0_def serial_greet greeting_def ascii_def)
  obtain s1 h1 p1 F1 where 1: "print_alloc ncpu cpu fmt 5368 (s0, h0) = cret (s1, h1)" "serial h1 = serial h0 @ hex_line p1"
      "running ncpu start endp cpu fmt (?k - 1) F1 s1" "F1 \<subseteq> ?F" "p1 = 0 \<or> bytes (p1, 5368) \<subseteq> ?F - F1" "0 < ?k \<longrightarrow> p1 \<noteq> 0"
    by (rule print_alloc_ok [OF run, of 5368 h0]) simp_all
  obtain s2 h2 p2 F2 where 2: "print_alloc ncpu cpu fmt 4096 (s1, h1) = cret (s2, h2)" "serial h2 = serial h1 @ hex_line p2"
      "running ncpu start endp cpu fmt (?k - 1 - 1) F2 s2" "F2 \<subseteq> F1" "p2 = 0 \<or> bytes (p2, 4096) \<subseteq> F1 - F2" "0 < ?k - 1 \<longrightarrow> p2 \<noteq> 0"
    by (rule print_alloc_ok [OF 1(3), of 4096 h1]) simp_all
  obtain s3 h3 p3 F3 where 3: "print_alloc ncpu cpu fmt 5368 (s2, h2) = cret (s3, h3)" "serial h3 = serial h2 @ hex_line p3"
      "running ncpu start endp cpu fmt (?k - 1 - 1 - 1) F3 s3" "F3 \<subseteq> F2" "p3 = 0 \<or> bytes (p3, 5368) \<subseteq> F2 - F3" "0 < ?k - 1 - 1 \<longrightarrow> p3 \<noteq> 0"
    by (rule print_alloc_ok [OF 2(3), of 5368 h2]) simp_all
  obtain s4 h4 p4 F4 where 4: "print_alloc ncpu cpu fmt 4 (s3, h3) = cret (s4, h4)" "serial h4 = serial h3 @ hex_line p4"
      "p4 = 0 \<or> bytes (p4, 4) \<subseteq> F3 - F4" "0 < ?k - 1 - 1 - 1 \<longrightarrow> p4 \<noteq> 0"
    by (rule print_alloc_ok [OF 3(3), of 4 h3]) simp_all
  have "os_run ncpu cpu fmt (s0, h) = cret (s4, h4)"
    using 1(1) 2(1) 3(1) 4(1) by (simp add: os_run_def Let_def h0_def)
  moreover have "serial h4 = serial h @ greeting cpu @ hex_line p1 @ hex_line p2 @ hex_line p3 @ hex_line p4"
    using h0 1(2) 2(2) 3(2) 4(2) by simp
  moreover have "let blocks = filter (\<lambda>b. fst b \<noteq> 0) [(p1, 5368), (p2, 4096), (p3, 5368), (p4, 4)] in
       (\<forall>b \<in> set blocks. bytes b \<subseteq> ?F) \<and> sorted_wrt (\<lambda>a b. bytes a \<inter> bytes b = {}) blocks"
    unfolding Let_def by (rule granted_in_turn [OF 1(4) 2(4) 3(4) 1(5) 2(5) 3(5) 4(3)])
  moreover have "p1 \<noteq> 0 \<and> p2 \<noteq> 0 \<and> p3 \<noteq> 0 \<and> p4 \<noteq> 0" if "start + 4 * page_bytes \<le> endp"
  proof -
    have "4 \<le> (endp - start) div page_bytes" using that zdiv_mono1 [of "4 * page_bytes" "endp - start" page_bytes] by simp
    then show ?thesis using 1(6) 2(6) 3(6) 4(4) by auto
  qed
  ultimately show ?thesis using s0(1) by blast
qed

definition demo_kernel :: pmm_state where
  "demo_kernel = \<lparr>mem = (\<lambda>_. 0)(4096 := 37, 4097 := 120, 4098 := 10), head = 0, heap_lock = 0,
     cpupagelist = (\<lambda>_. \<lparr>pagehead = 0, plock = 0\<rparr>)\<rparr>"

theorem os_run_correct_witness:
  "\<exists>s0 s' h' p1 p2 p3 p4. os_init 1048576 2097152 2 demo_kernel = cret s0 \<and> os_run 2 1 4096 (s0, []) = cret (s', h') \<and>
     serial h' = ascii ''Hello World from CPU #1'' @ [10] @ hex_line p1 @ hex_line p2 @ hex_line p3 @ hex_line p4 \<and>
     p1 \<noteq> 0 \<and> p2 \<noteq> 0 \<and> p3 \<noteq> 0 \<and> p4 \<noteq> 0"
  using os_run_correct [of 1048576 2097152 1 2 4096 demo_kernel "[]"]
  by (simp add: demo_kernel_def greeting_def ascii_def) blast

end
