(* ===== verification/Am_Ioe.thy ===== *)
theory Am_Ioe
  imports Am_Disk Am_Timer Am_Render Am_Lapic Am_Input
begin

text \<open>
  The device registers of \<open>abstract-machine/am/src/x86/qemu/ioe.c\<close>: \<open>ioe_read\<close> and \<open>ioe_write\<close> pass the address of a structure of
  \<open>am/include/amdev.h\<close> to the handler that the table \<^verbatim>\<open>lut\<close> has for the register.  The structures are bytes in memory,
  and the handlers read and write their fields there; the drivers behind them are those of the other theories.
\<close>

subsection \<open>The handlers\<close>

datatype handler = Uart_config | Uart_tx | Uart_rx | Timer_config | Timer_rtc | Timer_uptime | Input_config | Input_keybrd
  | Gpu_config | Gpu_fbdraw | Gpu_status | Gpu_memcpy | Gpu_render | Audio_config | Disk_config | Disk_status | Disk_blkio
  | Net_config | Fail

record ioe =
  lut :: "handler option list"
  ioe_mem :: mem
  ioe_hist :: history
  ioe_timer :: timer
  display :: gpu_display
  vbuf_head :: int

definition store_rtc :: "mem \<Rightarrow> int \<Rightarrow> rtc \<Rightarrow> mem" where
  "store_rtc m p t =
     (let m = store32 m p (year t); m = store32 m (p + 4) (month t); m = store32 m (p + 8) (day t);
          m = store32 m (p + 12) (hour t); m = store32 m (p + 16) (minute t)
      in store32 m (p + 20) (second t))"

definition load_fbdraw :: "mem \<Rightarrow> int \<Rightarrow> fbdraw" where
  "load_fbdraw m p = \<lparr>draw_x = loads32 m p, draw_y = loads32 m (p + 4), draw_pixels = load64 m (p + 8),
     draw_w = loads32 m (p + 16), draw_h = loads32 m (p + 20)\<rparr>"

definition load_copy :: "mem \<Rightarrow> int \<Rightarrow> gpu_copy" where
  "load_copy m p = \<lparr>copy_dest = load32 m p, copy_src = load64 m (p + 8), copy_size = loads32 m (p + 16)\<rparr>"

definition load_blkio :: "mem \<Rightarrow> int \<Rightarrow> blkio" where
  "load_blkio m p = \<lparr>bio_write = (m p \<noteq> 0), bio_buf = load64 m (p + 8), bio_blkno = loads32 m (p + 16), bio_blkcnt = loads32 m (p + 20)\<rparr>"

text \<open>The configuration registers: the handlers that store constants.\<close>

definition gpu_config :: "gpu_display \<Rightarrow> int \<Rightarrow> mem \<Rightarrow> mem" where
  "gpu_config d cfg m =
     (let m = store8 m cfg 1; m = store8 m (cfg + 1) 0; m = store32 m (cfg + 4) (disp_w d); m = store32 m (cfg + 8) (disp_h d)
      in store32 m (cfg + 12) VMEM_SIZE)"

definition timer_config :: "int \<Rightarrow> mem \<Rightarrow> mem" where
  "timer_config cfg m = store8 (store8 m (cfg + 1) 1) cfg 1"

definition disk_config :: "int \<Rightarrow> mem \<Rightarrow> mem" where
  "disk_config cfg m =
     (let m = store8 m cfg 1; m = store32 m (cfg + 4) 512 in store32 m (cfg + 8) (64 * 2 ^ 20 div 512))"

definition set_present :: "int \<Rightarrow> mem \<Rightarrow> mem" where
  "set_present cfg m = store8 m cfg 1"

definition set_absent :: "int \<Rightarrow> mem \<Rightarrow> mem" where
  "set_absent cfg m = store8 m cfg 0"

definition with_mem :: "ioe \<Rightarrow> mem \<Rightarrow> ioe cres" where
  "with_mem st m = cret (st\<lparr>ioe_mem := m\<rparr>)"

text \<open>What the call of a handler with the address \<open>p\<close> of its structure does.\<close>

fun call_handler :: "eval_order \<Rightarrow> hardware \<Rightarrow> gpu_arrays \<Rightarrow> handler \<Rightarrow> int \<Rightarrow> ioe \<Rightarrow> ioe cres" where
  "call_handler ev w g Uart_config p st = with_mem st (set_present p (ioe_mem st))"
| "call_handler ev w g Uart_tx p st = cret (st\<lparr>ioe_hist := uart_tx (uint (ioe_mem st p)) (ioe_hist st)\<rparr>)"
| "call_handler ev w g Uart_rx p st =
     (let (v, h) = uart_rx w (ioe_hist st) in with_mem (st\<lparr>ioe_hist := h\<rparr>) (store8 (ioe_mem st) p v))"
| "call_handler ev w g Timer_config p st = with_mem st (timer_config p (ioe_mem st))"
| "call_handler ev w g Timer_rtc p st =
     Option.bind (timer_rtc ev w (ioe_hist st)) (\<lambda>(t, h). with_mem (st\<lparr>ioe_hist := h\<rparr>) (store_rtc (ioe_mem st) p t))"
| "call_handler ev w g Timer_uptime p st =
     cbind (timer_uptime w (ioe_timer st) (ioe_hist st)) (\<lambda>(us, h). with_mem (st\<lparr>ioe_hist := h\<rparr>) (store64 (ioe_mem st) p us))"
| "call_handler ev w g Input_config p st = with_mem st (set_present p (ioe_mem st))"
| "call_handler ev w g Input_keybrd p st =
     (let ((down, code), h) = input_keybrd w (ioe_hist st)
      in with_mem (st\<lparr>ioe_hist := h\<rparr>) (store32 (store8 (ioe_mem st) p (if down then 1 else 0)) (p + 4) code))"
| "call_handler ev w g Gpu_config p st = with_mem st (gpu_config (display st) p (ioe_mem st))"
| "call_handler ev w g Gpu_fbdraw p st = with_mem st (gpu_fbdraw (display st) (load_fbdraw (ioe_mem st) p) (ioe_mem st))"
| "call_handler ev w g Gpu_status p st = with_mem st (set_present p (ioe_mem st))"
| "call_handler ev w g Gpu_memcpy p st = with_mem st (gpu_memcpy g (load_copy (ioe_mem st) p) (ioe_mem st))"
| "call_handler ev w g Gpu_render p st =
     cbind (gpu_render g (display st) (load32 (ioe_mem st) p) (ioe_mem st, vbuf_head st)) (\<lambda>(m, hd).
       with_mem (st\<lparr>vbuf_head := hd\<rparr>) m)"
| "call_handler ev w g Audio_config p st = with_mem st (set_absent p (ioe_mem st))"
| "call_handler ev w g Disk_config p st = with_mem st (disk_config p (ioe_mem st))"
| "call_handler ev w g Disk_status p st = with_mem st (set_present p (ioe_mem st))"
| "call_handler ev w g Disk_blkio p st =
     Option.bind (disk_blkio w (load_blkio (ioe_mem st) p) (ioe_mem st, ioe_hist st)) (\<lambda>(m, h). with_mem (st\<lparr>ioe_hist := h\<rparr>) m)"
| "call_handler ev w g Net_config p st = with_mem st (set_absent p (ioe_mem st))"
| "call_handler ev w g Fail p st = cfail Panic"

subsection \<open>The table\<close>

text \<open>The initializers of \<^verbatim>\<open>lut\<close>, by the numbers \<open>amdev.h\<close> gives the registers.\<close>

definition lut_inits :: "(nat \<times> handler) list" where
  "lut_inits = [(1, Uart_config), (2, Uart_tx), (3, Uart_rx), (4, Timer_config), (5, Timer_rtc), (6, Timer_uptime),
     (7, Input_config), (8, Input_keybrd), (9, Gpu_config), (11, Gpu_fbdraw), (10, Gpu_status), (12, Gpu_memcpy),
     (13, Gpu_render), (14, Audio_config), (18, Disk_config), (19, Disk_status), (20, Disk_blkio), (21, Net_config)]"

definition lut0 :: "handler option list" where
  "lut0 = foldl (\<lambda>l (i, h). l[i := Some h]) (replicate 128 None) lut_inits"

definition fill_lut :: "handler option list \<Rightarrow> handler option list" where
  "fill_lut l = map (\<lambda>h. if h = None then Some Fail else h) l"

definition ioe_init :: "eval_order \<Rightarrow> hardware \<Rightarrow> int \<Rightarrow> ioe \<Rightarrow> ioe cres" where
  "ioe_init ev w lapic st =
     (let (cpu, h) = cpu_current w lapic (ioe_hist st) in
      if cpu \<noteq> 0 then cfail Panic
      else
        let st = st\<lparr>lut := fill_lut (lut st)\<rparr>; h = uart_init w h in
        Option.bind (timer_init ev w h) (\<lambda>(t, h).
          cret (st\<lparr>ioe_hist := h, ioe_timer := t, display := gpu_init (ioe_mem st)\<rparr>)))"

text \<open>A register number outside the table is undefined in C; here it is the fault of a wild call.\<close>

definition ioe_access :: "eval_order \<Rightarrow> hardware \<Rightarrow> gpu_arrays \<Rightarrow> int \<Rightarrow> int \<Rightarrow> ioe \<Rightarrow> ioe cres" where
  "ioe_access ev w g reg buf st =
     (if 0 \<le> reg \<and> reg < 128 then
        case lut st ! nat reg of None \<Rightarrow> cfail Null_Deref | Some h \<Rightarrow> call_handler ev w g h buf st
      else cfail Null_Deref)"

definition ioe_read :: "eval_order \<Rightarrow> hardware \<Rightarrow> gpu_arrays \<Rightarrow> int \<Rightarrow> int \<Rightarrow> ioe \<Rightarrow> ioe cres" where
  "ioe_read ev w g reg buf st = ioe_access ev w g reg buf st"

definition ioe_write :: "eval_order \<Rightarrow> hardware \<Rightarrow> gpu_arrays \<Rightarrow> int \<Rightarrow> int \<Rightarrow> ioe \<Rightarrow> ioe cres" where
  "ioe_write ev w g reg buf st = ioe_access ev w g reg buf st"

subsection \<open>After initialisation\<close>

definition ioe_ready :: "ioe \<Rightarrow> bool" where
  "ioe_ready st \<longleftrightarrow> lut st = fill_lut lut0"

lemma ioe_init_ready: "lut st = lut0 \<Longrightarrow> ioe_init ev w lapic st = cret st' \<Longrightarrow> ioe_ready st'"
  by (auto simp: ioe_init_def ioe_ready_def cres_simps Let_def split: prod.splits if_splits)

lemma ioe_init_other_cpu: "fst (cpu_current w lapic (ioe_hist st)) \<noteq> 0 \<Longrightarrow> ioe_init ev w lapic st = cfail Panic"
  by (auto simp: ioe_init_def split: prod.split)

lemma lut_list: "fill_lut lut0 = map Some ([Fail, Uart_config, Uart_tx, Uart_rx, Timer_config, Timer_rtc, Timer_uptime,
     Input_config, Input_keybrd, Gpu_config, Gpu_status, Gpu_fbdraw, Gpu_memcpy, Gpu_render, Audio_config, Fail, Fail, Fail,
     Disk_config, Disk_status, Disk_blkio, Net_config] @ replicate 106 Fail)"
  by code_simp

lemma lut_filled: "ioe_ready st \<Longrightarrow> \<forall>r \<in> {0..<128}. lut st ! nat r \<noteq> None"
  unfolding ioe_ready_def lut_list by (auto simp del: list.map map_append map_replicate simp: nth_map)

lemma call_handler_ready: "ioe_ready st \<Longrightarrow> call_handler ev w g h p st = cret st' \<Longrightarrow> ioe_ready st'"
  by (cases h) (auto simp: ioe_ready_def with_mem_def cres_simps Let_def split: prod.splits)

lemma ioe_disk: "ioe_ready st \<Longrightarrow> ioe_read ev w g 20 p st = call_handler ev w g Disk_blkio p st" "ioe_read = ioe_write"
  by (simp_all add: ioe_read_def ioe_write_def ioe_access_def ioe_ready_def lut_list fun_eq_iff)

subsection \<open>The disk through its register\<close>

text \<open>\<open>request m p wr buf b n\<close>: at \<open>p\<close> there is a request to write or read \<open>n\<close> blocks from block \<open>b\<close> on.\<close>

definition request :: "mem \<Rightarrow> int \<Rightarrow> bool \<Rightarrow> int \<Rightarrow> int \<Rightarrow> int \<Rightarrow> bool" where
  "request m p wr buf b n \<longleftrightarrow> (m p \<noteq> 0) = wr \<and> load64 m (p + 8) = buf \<and> loads32 m (p + 16) = b \<and> loads32 m (p + 20) = n"

lemma load_request: "request m p wr buf b n \<Longrightarrow> load_blkio m p = \<lparr>bio_write = wr, bio_buf = buf, bio_blkno = b, bio_blkcnt = n\<rparr>"
  by (auto simp: request_def load_blkio_def)

text \<open>C38. Two requests to the disk register, one to write a buffer and one to read the same blocks into another, return
  and copy the one buffer to the other byte for byte, through any device that follows the ATA protocol; nothing else in memory changes.\<close>

theorem ioe_disk_roundtrip:
  assumes "ioe_ready st" "ata_disk w s" "0 \<le> b" "0 \<le> n" "b + n \<le> 268435456"
    and "request (ioe_mem st) q1 True src b n" "request (ioe_mem st) q2 False dst b n"
  shows "\<exists>st1 st2. ioe_write ev w g 20 q1 st = cret st1 \<and> ioe_read ev w g 20 q2 st1 = cret st2 \<and>
     (\<forall>j \<in> {0..<512 * n}. ioe_mem st2 (dst + j) = ioe_mem st (src + j)) \<and>
     (\<forall>x. x \<notin> {dst..<dst + 512 * n} \<longrightarrow> ioe_mem st2 x = ioe_mem st x) \<and> ioe_ready st2"
proof -
  obtain h1 where wr: "disk_blkio w (load_blkio (ioe_mem st) q1) (ioe_mem st, ioe_hist st) = Some (ioe_mem st, h1)"
    and rd: "\<exists>m3 h3. disk_blkio w (load_blkio (ioe_mem st) q2) (ioe_mem st, h1) = Some (m3, h3) \<and>
        (\<forall>j \<in> {0..<512 * n}. m3 (dst + j) = ioe_mem st (src + j)) \<and> (\<forall>x. x \<notin> {dst..<dst + 512 * n} \<longrightarrow> m3 x = ioe_mem st x)"
    using disk_write_read [OF assms(2-5), of src "ioe_mem st" "ioe_hist st" dst] assms(6,7) [THEN load_request] by metis
  then obtain m3 h3 where m3: "disk_blkio w (load_blkio (ioe_mem st) q2) (ioe_mem st, h1) = Some (m3, h3)"
      "\<forall>j \<in> {0..<512 * n}. m3 (dst + j) = ioe_mem st (src + j)" "\<forall>x. x \<notin> {dst..<dst + 512 * n} \<longrightarrow> m3 x = ioe_mem st x" by blast
  define st1 where "st1 = st\<lparr>ioe_hist := h1, ioe_mem := ioe_mem st\<rparr>"
  define st2 where "st2 = st1\<lparr>ioe_hist := h3, ioe_mem := m3\<rparr>"
  have c1: "call_handler ev w g Disk_blkio q1 st = cret st1" using wr by (simp add: with_mem_def st1_def)
  have r1: "ioe_ready st1" by (rule call_handler_ready [OF assms(1) c1])
  have c2: "call_handler ev w g Disk_blkio q2 st1 = cret st2" using m3(1) by (simp add: with_mem_def st1_def st2_def)
  have "ioe_write ev w g 20 q1 st = cret st1" "ioe_read ev w g 20 q2 st1 = cret st2"
    using ioe_disk(1) [OF assms(1), of ev w g q1] ioe_disk(1) [OF r1, of ev w g q2] c1 c2 by (simp_all add: ioe_disk(2))
  moreover have "ioe_ready st2" by (rule call_handler_ready [OF r1 c2])
  moreover have "ioe_mem st2 = m3" by (simp add: st2_def)
  ultimately show ?thesis using m3(2,3) by blast
qed

definition demo_ioe :: ioe where
  "demo_ioe = \<lparr>lut = fill_lut lut0,
     ioe_mem = (\<lambda>a. if a = 100 then 1 else if a = 109 then 16 else if a = 116 \<or> a = 148 then 7 else if a = 120 \<or> a = 152 then 1
       else if a = 141 then 32 else if 4096 \<le> a \<and> a < 4608 then word_of_int a else 0),
     ioe_hist = [], ioe_timer = \<lparr>boot_date = \<lparr>year = 0, month = 0, day = 0, hour = 0, minute = 0, second = 0\<rparr>, freq_mhz = 1, uptsc = 0\<rparr>,
     display = \<lparr>disp_w = 0, disp_h = 0, fb = 0\<rparr>, vbuf_head = 0\<rparr>"

theorem ioe_disk_roundtrip_witness:
  "\<exists>st1 st2. ioe_write text_order (disk_with (\<lambda>_ _. 0)) \<lparr>vmem = 0, vbuf = 0\<rparr> 20 100 demo_ioe = cret st1 \<and>
     ioe_read text_order (disk_with (\<lambda>_ _. 0)) \<lparr>vmem = 0, vbuf = 0\<rparr> 20 132 st1 = cret st2 \<and> ioe_mem st2 8200 = 8"
proof -
  have "request (ioe_mem demo_ioe) 100 True 4096 7 1" "request (ioe_mem demo_ioe) 132 False 8192 7 1"
    by (simp_all add: request_def load64_def loads32_def load32_def demo_ioe_def s32_def)
  moreover have "ioe_ready demo_ioe" by (simp add: ioe_ready_def demo_ioe_def)
  ultimately obtain st1 st2 where io: "ioe_write text_order (disk_with (\<lambda>_ _. 0)) \<lparr>vmem = 0, vbuf = 0\<rparr> 20 100 demo_ioe = cret st1"
      "ioe_read text_order (disk_with (\<lambda>_ _. 0)) \<lparr>vmem = 0, vbuf = 0\<rparr> 20 132 st1 = cret st2"
      "\<forall>j \<in> {0..<512 * 1}. ioe_mem st2 (8192 + j) = ioe_mem demo_ioe (4096 + j)"
    using ioe_disk_roundtrip [OF _ disk_with, of demo_ioe 7 1 100 4096 132 8192 text_order "\<lambda>_ _. 0" "\<lparr>vmem = 0, vbuf = 0\<rparr>"] by auto
  have "ioe_mem st2 (8192 + 8) = ioe_mem demo_ioe (4096 + 8)" using io(3) by (rule bspec) simp
  then show ?thesis using io(1,2) by (simp add: demo_ioe_def)
qed

subsection \<open>Registers without a driver\<close>

text \<open>C40. Whatever is in memory, reading or writing a register that the table leaves out, all of the audio device but its
  configuration among them, panics: after \<open>ioe_init\<close> no entry of the table is a null pointer.\<close>

theorem ioe_unknown_register:
  assumes "ioe_ready st" "reg \<in> {0, 15, 16, 17} \<or> 22 \<le> reg \<and> reg < 128"
  shows "ioe_read ev w g reg buf st = cfail Panic \<and> ioe_write ev w g reg buf st = cfail Panic \<and>
    (\<forall>r \<in> {0..<128}. lut st ! nat r \<noteq> None)"
proof -
  have "lut st ! nat reg = Some Fail" if "reg \<in> {0, 15, 16, 17}"
    using that assms(1) by (auto simp: ioe_ready_def lut_list)
  moreover have "lut st ! nat reg = Some Fail" if r: "22 \<le> reg" "reg < 128"
  proof -
    have "22 \<le> nat reg" "nat reg < 128" using r by linarith+
    then show ?thesis using assms(1) by (simp add: ioe_ready_def lut_list nth_append)
  qed
  ultimately have "lut st ! nat reg = Some Fail" using assms(2) by blast
  then have "ioe_read ev w g reg buf st = cfail Panic" using assms(2) by (auto simp: ioe_read_def ioe_access_def)
  then show ?thesis using lut_filled [OF assms(1)] by (simp add: ioe_disk(2) [symmetric])
qed

theorem ioe_unknown_register_witness:
  "ioe_read text_order (disk_with (\<lambda>_ _. 0)) \<lparr>vmem = 0, vbuf = 0\<rparr> 16 100 demo_ioe = cfail Panic"
  using ioe_unknown_register [of demo_ioe 16] by (simp add: ioe_ready_def demo_ioe_def)

end
