(* ===== verification/Am_Boot.thy ===== *)
theory Am_Boot
  imports Am_Trm Am_Gdt
begin

unbundle bit_operations_syntax

text \<open>
  How the boot processor sets itself up: \<open>__am_bootcpu_init\<close> and \<open>__am_percpu_init\<close> of \<open>abstract-machine/am/src/x86/qemu/trm.c\<close>,
  which put the heap, the search for the processors, the interrupt controllers and the segment table together.
  \<^verbatim>\<open>end\<close>, the address behind the kernel, and the address of the processor's task state segment are arguments.
\<close>

subsection \<open>The sequence\<close>

record machine =
  heap :: "int \<times> int"
  am_lapic :: int
  am_ncpu :: int
  cpu_gdt :: "SegDesc list"
  task_register :: int
  machine_hist :: history

definition percpu_init :: "hardware \<Rightarrow> int \<Rightarrow> machine \<Rightarrow> machine cres" where
  "percpu_init w tss st =
     cbind (percpu_initgdt (cpu_gdt st) tss) (\<lambda>(gdt, tr).
     Option.bind (percpu_initlapic w (am_lapic st) (machine_hist st)) (\<lambda>h.
       cret (st\<lparr>cpu_gdt := gdt, task_register := tr, machine_hist := enable_devices h\<rparr>)))"

definition bootcpu_init :: "hardware \<Rightarrow> mem \<Rightarrow> int \<Rightarrow> int \<Rightarrow> machine \<Rightarrow> machine cres" where
  "bootcpu_init w m end_addr tss st =
     (let (hp, h) = heap_init w end_addr (machine_hist st); st = st\<lparr>heap := hp, machine_hist := h\<rparr> in
      cbind (lapic_init m) (\<lambda>(lapic, ncpu).
        let st = st\<lparr>am_lapic := lapic, am_ncpu := ncpu\<rparr>; st = st\<lparr>machine_hist := ioapic_init w (machine_hist st)\<rparr>
        in percpu_init w tss st))"

text \<open>What a processor goes on with, on its own stack: \<^verbatim>\<open>call_main\<close> or, after telling that it is ready, the function given to \<^verbatim>\<open>mpe_init\<close>.\<close>

datatype goes_on = Call_main | Call_user_entry

definition start_c :: "hardware \<Rightarrow> mem \<Rightarrow> int \<Rightarrow> int \<Rightarrow> machine \<Rightarrow> (goes_on \<times> machine) cres" where
  "start_c w m end_addr tss st =
     (if load32 m (0x7000 + 4) \<noteq> 0 then cbind (percpu_init w tss st) (\<lambda>st. cret (Call_user_entry, st))
      else cbind (bootcpu_init w m end_addr tss st) (\<lambda>st. cret (Call_main, st)))"

subsection \<open>The controllers do not disturb each other\<close>

text \<open>The delivery bit of the local controller is clear after finitely many reads.\<close>

primrec idle_after :: "hardware \<Rightarrow> int \<Rightarrow> nat \<Rightarrow> history \<Rightarrow> bool" where
  "idle_after w lapic 0 h = (u32 (mmio w h (lapic + 0x300)) AND 0x1000 = 0)"
| "idle_after w lapic (Suc n) h = idle_after w lapic n (Load32 (lapic + 0x300) (u32 (mmio w h (lapic + 0x300))) # h)"

lemma wait_delivered_idle:
  "idle_after w lapic n h \<Longrightarrow> \<exists>h'. wait_delivered w lapic h = Some h' \<and> ioapic_regs f h' = ioapic_regs f h"
proof (induction n arbitrary: h)
  case 0
  then show ?case by (subst wait_delivered.simps) (simp add: reg_read_def Let_def)
next
  case (Suc n)
  then show ?case by (subst wait_delivered.simps) (fastforce simp: reg_read_def Let_def)
qed

text \<open>The registers of the local controller, a page from \<open>lapic\<close> on, are not those of the other one.\<close>

definition lapic_apart :: "int \<Rightarrow> bool" where
  "lapic_apart lapic \<longleftrightarrow> apart (lapic, 4096) (0xFEC00000, 4096)"

lemma lapicw_regs: "lapic_apart lapic \<Longrightarrow> 0 \<le> i \<Longrightarrow> i < 1024 \<Longrightarrow> ioapic_regs f (lapicw w lapic i v h) = ioapic_regs f h"
  by (auto simp: lapicw_def reg_read_def reg_write_def Let_def lapic_apart_def)

lemma percpu_initlapic_regs:
  assumes "lapic_apart lapic" "\<And>h. \<exists>n. idle_after w lapic n h"
  shows "\<exists>h'. percpu_initlapic w lapic h = Some h' \<and> ioapic_regs f h' = ioapic_regs f h"
proof -
  have rd: "reg_read w a g = (u32 (mmio w g a), Load32 a (u32 (mmio w g a)) # g)" for a g by (simp add: reg_read_def Let_def)
  have wait: "\<exists>h'. Option.bind (wait_delivered w lapic g) (\<lambda>h. Some (lapicw w lapic (0x80 div 4) 0 h)) = Some h' \<and> ioapic_regs f h' = r"
    if "ioapic_regs f g = r" for g r
  proof -
    obtain n where "idle_after w lapic n g" using assms(2) by blast
    then obtain h' where "wait_delivered w lapic g = Some h'" "ioapic_regs f h' = ioapic_regs f g" using wait_delivered_idle by blast
    then show ?thesis using that by (simp add: lapicw_regs [OF assms(1)])
  qed
  show ?thesis
    unfolding percpu_initlapic_def Let_def rd prod.case by (rule wait) (simp add: lapicw_regs [OF assms(1)])
qed

lemma enable_devices_regs:
  "ioapic_regs f (enable_devices h) = (ioapic_regs f h)(18 := 33, 19 := 0, 24 := 36, 25 := 0)"
  by (simp add: enable_devices_def ioapic_enable_def ioapicwrite_regs u32_id)

lemma ioapic_regs_ports [simp]:
  "ioapic_regs f (outb p v h) = ioapic_regs f h" "ioapic_regs f (snd (inb w p h)) = ioapic_regs f h"
  by (simp_all add: outb_def inb_def Let_def)

lemma enable_devices_same: "ioapic_regs f h = ioapic_regs f g \<Longrightarrow> ioapic_regs f (enable_devices h) = ioapic_regs f (enable_devices g)"
  by (simp add: enable_devices_regs)

lemma contexts_fit_gdt_selector:
  assumes "length gdt = 7" "0 \<le> tss" "tss < 2 ^ 32"
  shows "\<exists>g tr. percpu_initgdt gdt tss = cret (g, tr) \<and> seg_base (selected g tr) = tss"
proof -
  have "tss div 2 ^ 32 = 0" using assms(2,3) by (simp add: div_pos_pos_trivial)
  moreover have "seg_base (SEG16 0x9 tss (104 - 1) 0) = tss"
    using base_bytes [of tss] assms(2,3) by (simp add: seg_base_def SEG16_def field_masks)
  ultimately show ?thesis using assms(1) by (simp add: percpu_initgdt_def Let_def selected_def KSEL_def)
qed

lemma percpu_init_ok:
  assumes "lapic_apart (am_lapic st)" "\<And>h. \<exists>n. idle_after w (am_lapic st) n h" "length (cpu_gdt st) = 7" "0 \<le> tss" "tss < 2 ^ 32"
  shows "\<exists>st'. percpu_init w tss st = cret st' \<and> heap st' = heap st \<and> am_lapic st' = am_lapic st \<and> am_ncpu st' = am_ncpu st \<and>
    ioapic_regs f (machine_hist st') = ioapic_regs f (enable_devices (machine_hist st)) \<and>
    seg_base (selected (cpu_gdt st') (task_register st')) = tss"
proof -
  obtain g tr where g: "percpu_initgdt (cpu_gdt st) tss = cret (g, tr)" "seg_base (selected g tr) = tss"
    using contexts_fit_gdt_selector [OF assms(3-5)] by blast
  obtain h' where h': "percpu_initlapic w (am_lapic st) (machine_hist st) = Some h'" "ioapic_regs f h' = ioapic_regs f (machine_hist st)"
    using percpu_initlapic_regs [OF assms(1,2)] by blast
  show ?thesis
    using g(2) enable_devices_same [OF h'(2)] by (simp add: percpu_init_def g(1) h'(1))
qed

text \<open>Another processor leaves the heap, the address of the controller and the number of processors as they are.\<close>

lemma start_c_other_cpu:
  assumes "load32 m (0x7000 + 4) \<noteq> 0" "lapic_apart (am_lapic st)" "\<And>h. \<exists>n. idle_after w (am_lapic st) n h"
    and "length (cpu_gdt st) = 7" "0 \<le> tss" "tss < 2 ^ 32"
  shows "\<exists>st'. start_c w m end_addr tss st = cret (Call_user_entry, st') \<and> heap st' = heap st \<and> am_lapic st' = am_lapic st \<and>
    am_ncpu st' = am_ncpu st \<and> seg_base (selected (cpu_gdt st') (task_register st')) = tss"
proof -
  obtain st' where "percpu_init w tss st = cret st'" "heap st' = heap st" "am_lapic st' = am_lapic st" "am_ncpu st' = am_ncpu st"
      "seg_base (selected (cpu_gdt st') (task_register st')) = tss"
    using percpu_init_ok [OF assms(2-6)] by metis
  then show ?thesis using assms(1) by (simp add: start_c_def)
qed

subsection \<open>The boot processor\<close>

text \<open>C39. When \<open>__am_bootcpu_init\<close> is through, the heap is what the firmware reports behind the kernel, the address of the local
  controller and the number of processors are those of the first multiprocessor table, the I/O controller
  delivers the keyboard and the serial line to the boot processor and masks every other line up to the last (\<open>last_line\<close>) it has,
  and the task register selects the processor's task state segment.\<close>

theorem bootcpu_init_correct:
  assumes "\<And>h. in8 w (Out8 0x70 0x34 # h) 0x71 mod 256 = n mod 256" "\<And>h. in8 w (Out8 0x70 0x35 # h) 0x71 mod 256 = n div 256"
    and "0 \<le> n" "n < 65536" "0 \<le> end_addr" "end_addr < 2 ^ 63"
    and "0xf0000 \<le> mp" "mp < 0xffffff" "load32 m mp = 0x5f504d5f"
    and "\<And>a. 0xf0000 \<le> a \<Longrightarrow> a < mp \<Longrightarrow> load32 m a \<noteq> 0x5f504d5f"
    and "conf = load32 m (mp + 4)" "mp_table m (conf + 44) (conf + load16 m (conf + 4)) kinds"
    and "length (filter (\<lambda>b. b) kinds) \<le> 8" "lapic = load32 m (conf + 36)" "lapic_apart lapic"
    and "\<And>h. \<exists>k. idle_after w lapic k h" "\<And>h. u32 (mmio w (Store32 0xFEC00000 1 # h) 0xFEC00010) div 2 ^ 16 AND 0xFF = last_line"
    and "length (cpu_gdt st) = 7" "0 \<le> tss" "tss < 2 ^ 32"
  shows "\<exists>st' start. bootcpu_init w m end_addr tss st = cret st' \<and>
    heap st' = (start, (2 ^ 24 + n * 2 ^ 16) mod 2 ^ 32) \<and> 2 ^ 20 dvd start \<and> end_addr \<le> start \<and> start < end_addr + 2 ^ 20 \<and>
    am_lapic st' = lapic \<and> am_ncpu st' = int (length (filter (\<lambda>b. b) kinds)) \<and>
    (\<forall>i. int i \<le> last_line \<longrightarrow> routed (ioapic_regs f (machine_hist st')) i = ((32 + int i) mod 256, i \<noteq> 1 \<and> i \<noteq> 4, 0)) \<and>
    seg_base (selected (cpu_gdt st') (task_register st')) = tss"
proof -
  obtain start h1 where hp: "heap_init w end_addr (machine_hist st) = ((start, (2 ^ 24 + n * 2 ^ 16) mod 2 ^ 32), h1)"
    and start: "2 ^ 20 dvd start" "end_addr \<le> start" "start < end_addr + 2 ^ 20"
    using heap_init_correct [OF assms(1-6)] by metis
  have la: "lapic_init m = cret (lapic, int (length (filter (\<lambda>b. b) kinds)))"
    using lapic_init_correct [OF assms(7-12)] assms(13) by (simp add: assms(14))
  define st1 where "st1 = st\<lparr>heap := (start, (2 ^ 24 + n * 2 ^ 16) mod 2 ^ 32), am_lapic := lapic,
    am_ncpu := int (length (filter (\<lambda>b. b) kinds)), machine_hist := ioapic_init w h1\<rparr>"
  have st1: "am_lapic st1 = lapic" "cpu_gdt st1 = cpu_gdt st" "machine_hist st1 = ioapic_init w h1" by (simp_all add: st1_def)
  have run: "bootcpu_init w m end_addr tss st = percpu_init w tss st1"
    by (simp add: bootcpu_init_def hp la st1_def Let_def)
  obtain st' where st': "percpu_init w tss st1 = cret st'" "heap st' = heap st1" "am_lapic st' = am_lapic st1" "am_ncpu st' = am_ncpu st1"
      "ioapic_regs f (machine_hist st') = ioapic_regs f (enable_devices (machine_hist st1))"
      "seg_base (selected (cpu_gdt st') (task_register st')) = tss"
    using percpu_init_ok [of st1 w tss f, unfolded st1, OF assms(15,16,18-20)] st1 by auto
  have "fst (ioapicread w 1 h1) div 2 ^ 16 AND 0xFF = last_line"
    using assms(17) [of h1] by (simp add: ioapicread_def reg_read_def reg_write_def Let_def u32_id)
  then have "routed (ioapic_regs f (machine_hist st')) i = ((32 + int i) mod 256, i \<noteq> 1 \<and> i \<noteq> 4, 0)" if "int i \<le> last_line" for i
    unfolding st'(5) st1(3) using that by (intro ioapic_routing) auto
  then show ?thesis using st' start by (auto simp: run st1_def)
qed

definition boot_machine :: hardware where
  "boot_machine = \<lparr>in8 = (\<lambda>h p. if h = [] then 0 else if hd h = Out8 0x70 0x34 then 0xFE else 0x06), in32 = (\<lambda>h p. 0),
     tsc = (\<lambda>h. 0), mmio = (\<lambda>h a. if a = 0xFEC00010 then 0x170011 else 0)\<rparr>"

lemma boot_machine_facts:
  "in8 boot_machine (Out8 0x70 0x34 # h) 0x71 mod 256 = 0x6FE mod 256" "in8 boot_machine (Out8 0x70 0x35 # h) 0x71 mod 256 = 0x6FE div 256"
  "u32 (mmio boot_machine (Store32 0xFEC00000 1 # h) 0xFEC00010) div 2 ^ 16 AND 0xFF = 23" "\<exists>k. idle_after boot_machine 0xFEE00000 k h"
  "lapic_apart 0xFEE00000"
proof -
  show "\<exists>k. idle_after boot_machine 0xFEE00000 k h" by (rule exI [of _ 0]) (simp add: boot_machine_def u32_def)
qed (simp_all add: boot_machine_def u32_def lapic_apart_def apart_iff)

definition two_cpus :: mem where
  "two_cpus = store32 (store32 (store32 (store32 (store32 (store32 (\<lambda>_. 1) 0xf0000 0x5f504d5f) 0xf0004 0x500) 0x504 92)
     0x524 0xFEE00000) 0x52c 0) 0x540 0"

lemma two_cpus_table:
  "load32 two_cpus 0xf0000 = 0x5f504d5f" "load32 two_cpus (0xf0000 + 4) = 0x500" "load32 two_cpus (0x500 + 36) = 0xFEE00000"
  "mp_table two_cpus (0x500 + 44) (0x500 + load16 two_cpus (0x500 + 4)) [True, True, False]"
proof -
  have "two_cpus 0x504 = 92" "two_cpus 0x505 = 0" "two_cpus 0x52c = 0" "two_cpus 0x540 = 0" "two_cpus 0x554 = 1"
    by (simp_all add: two_cpus_def store32_def)
  then show "mp_table two_cpus (0x500 + 44) (0x500 + load16 two_cpus (0x500 + 4)) [True, True, False]" by (simp add: load16_def)
qed (simp_all add: two_cpus_def load_store_mixed load32_store32 u32_def)

theorem bootcpu_init_correct_witness:
  "\<exists>st' start. bootcpu_init boot_machine two_cpus 0x123456 0x8000 \<lparr>heap = (0, 0), am_lapic = 0, am_ncpu = 0,
       cpu_gdt = replicate 7 (SEG64 0 0), task_register = 0, machine_hist = []\<rparr> = cret st' \<and>
     heap st' = (start, 0x7FE0000) \<and> am_ncpu st' = 2 \<and> routed (ioapic_regs (\<lambda>_. 0) (machine_hist st')) 2 = (34, True, 0)"
proof -
  let ?st = "\<lparr>heap = (0, 0), am_lapic = 0, am_ncpu = 0, cpu_gdt = replicate 7 (SEG64 0 0), task_register = 0, machine_hist = []\<rparr>"
  have "\<exists>st' start. bootcpu_init boot_machine two_cpus 0x123456 0x8000 ?st = cret st' \<and>
      heap st' = (start, (2 ^ 24 + 0x6FE * 2 ^ 16) mod 2 ^ 32) \<and> 2 ^ 20 dvd start \<and> 0x123456 \<le> start \<and> start < 0x123456 + 2 ^ 20 \<and>
      am_lapic st' = 0xFEE00000 \<and> am_ncpu st' = int (length (filter (\<lambda>b. b) [True, True, False])) \<and>
      (\<forall>i. int i \<le> 23 \<longrightarrow> routed (ioapic_regs (\<lambda>_. 0) (machine_hist st')) i = ((32 + int i) mod 256, i \<noteq> 1 \<and> i \<noteq> 4, 0)) \<and>
      seg_base (selected (cpu_gdt st') (task_register st')) = 0x8000"
    by (rule bootcpu_init_correct [where n = "0x6FE" and mp = "0xf0000" and conf = "0x500" and kinds = "[True, True, False]"])
      (use boot_machine_facts two_cpus_table in simp_all)
  then obtain st' start where r: "bootcpu_init boot_machine two_cpus 0x123456 0x8000 ?st = cret st'" "heap st' = (start, 0x7FE0000)" "am_ncpu st' = 2"
      "\<forall>i. int i \<le> 23 \<longrightarrow> routed (ioapic_regs (\<lambda>_. 0) (machine_hist st')) i = ((32 + int i) mod 256, i \<noteq> 1 \<and> i \<noteq> 4, 0)" by auto
  have "routed (ioapic_regs (\<lambda>_. 0) (machine_hist st')) 2 = (34, True, 0)" using r(4) by (auto dest: spec [of _ 2])
  then show ?thesis using r(1-3) by blast
qed

end
