(* ===== verification/Spec2Isabelle.thy ===== *)
theory Spec2Isabelle
  imports Kernel_Vm Klib_Format Klib_Int64_Props Am_Disk Am_Timer Am_Gpu Am_Lapic Am_Input Am_Irq Am_Idt Am_Gdt Am_Mpe Am_Trm Boot_Loader Am_Render Kernel_Os Am_Ioe Am_Boot
begin

text \<open>
  A small multiprocessor kernel with its physical memory manager (\<^verbatim>\<open>kalloc\<close> and \<^verbatim>\<open>kfree\<close>), the run-time library it is linked with,
  and the machine layer below it, verified for the target it is built for, \<^verbatim>\<open>x86_64-qemu\<close>.

  \<^bold>\<open>The program and how its parts interact.\<close>
  The boot loader copies the kernel, an ELF file, from the disk to memory and jumps to it.  The first processor finds the heap, the
  processors and the interrupt controllers and calls \<^verbatim>\<open>main\<close>; \<^verbatim>\<open>mpe_init\<close> then starts the other processors one after
  the other and all of them enter \<^verbatim>\<open>os_run\<close>.  The kernel's service is the allocator of \<^verbatim>\<open>kernel/src/pmm.c\<close>: a free list over
  the heap under one spin lock, from which each processor takes 64 KiB pages for its small blocks, one list of pages for
  each size from 32 bytes to 16 KiB; larger blocks are cut from the free list itself.  \<^verbatim>\<open>klib\<close> gives it strings, \<^verbatim>\<open>printf\<close> and 64-bit
  division.  The machine layer has page tables (whose pages come from \<^verbatim>\<open>kalloc\<close>), contexts and interrupts, and drivers
  behind numbered device registers.

  \<^bold>\<open>Theories and the code they model.\<close>

  Shared.  \<^verbatim>\<open>C_Prelude\<close>: C's integer conversions, outcomes of a run, intervals of addresses, linked lists as abstract chains and the
  loops over them.  \<^verbatim>\<open>C_Memory\<close>: memory as a function from addresses to bytes, with little-endian loads and stores, and the
  16-byte list nodes of \<^verbatim>\<open>kernel/include/common.h\<close>.

  Allocator, \<^verbatim>\<open>kernel/src/pmm.c\<close>.  \<^verbatim>\<open>Spinlock\<close>: \<^verbatim>\<open>lock\<close>, \<^verbatim>\<open>unlock\<close>, and processors that use them in any interleaving.
  \<^verbatim>\<open>Pmm_State\<close>: the globals and \<^verbatim>\<open>pmm_init\<close>.  \<^verbatim>\<open>Pmm_Heap\<close>, \<^verbatim>\<open>Pmm_Heap_Free\<close>: taking memory from the free list of the heap
  and giving it back with merging.  \<^verbatim>\<open>Pmm_Slab\<close>: the pages and their runs of free blocks.  \<^verbatim>\<open>Pmm\<close>: \<^verbatim>\<open>kalloc\<close>, \<^verbatim>\<open>kfree\<close> and the invariant
  \<^verbatim>\<open>pmm_inv\<close> that all of them keep.  \<^verbatim>\<open>Pmm_Alloc\<close>, \<^verbatim>\<open>Pmm_Free\<close>: what the two operations promise on each path.
  \<^verbatim>\<open>Pmm_Client\<close>: the contract as seen by programs that allocate and write.

  Library, \<^verbatim>\<open>abstract-machine/klib/src\<close>.  \<^verbatim>\<open>Klib_String\<close>: \<^verbatim>\<open>string.c\<close>.  \<^verbatim>\<open>Klib_Stdlib\<close>: \<^verbatim>\<open>stdlib.c\<close>.  \<^verbatim>\<open>Klib_Stdio\<close>, \<^verbatim>\<open>Klib_Format\<close>:
  \<^verbatim>\<open>stdio.c\<close> and what it prints.  \<^verbatim>\<open>Klib_Int64\<close> and the theories that start with that name: \<^verbatim>\<open>int64.c\<close>.

  Machine layer, \<^verbatim>\<open>abstract-machine/am/src/x86\<close>.  \<^verbatim>\<open>Am_Vme\<close>, \<^verbatim>\<open>Am_Vme_Map\<close>: \<^verbatim>\<open>vme.c\<close>; \<^verbatim>\<open>Kernel_Vm\<close> puts it on top of the
  allocator.  \<^verbatim>\<open>Am_Io\<close>: the port instructions of \<^verbatim>\<open>x86.h\<close>.  \<^verbatim>\<open>Am_Disk\<close>, \<^verbatim>\<open>Am_Timer\<close>, \<^verbatim>\<open>Am_Gpu\<close>, \<^verbatim>\<open>Am_Render\<close>, \<^verbatim>\<open>Am_Input\<close>,
  \<^verbatim>\<open>Am_Lapic\<close>: the drivers of \<^verbatim>\<open>qemu/ioe.c\<close>, and \<^verbatim>\<open>Am_Ioe\<close>: its table of device registers.  \<^verbatim>\<open>Am_Cte\<close>, \<^verbatim>\<open>Am_Irq\<close>,
  \<^verbatim>\<open>Am_Idt\<close>: contexts, interrupts and gates of \<^verbatim>\<open>qemu/cte.c\<close>.  \<^verbatim>\<open>Am_Gdt\<close>, \<^verbatim>\<open>Am_Trm\<close>, \<^verbatim>\<open>Am_Boot\<close>: segments, halting, heap,
  processors and the start-up sequence of \<^verbatim>\<open>qemu/trm.c\<close>.  \<^verbatim>\<open>Am_Mpe\<close>: \<^verbatim>\<open>qemu/mpe.c\<close>.  \<^verbatim>\<open>Boot_Loader\<close>: \<^verbatim>\<open>qemu/boot/main.c\<close>.
  \<^verbatim>\<open>Kernel_Os\<close>: \<^verbatim>\<open>kernel/src/os.c\<close>.
\<close>

text \<open>
  \<^bold>\<open>Conventions.\<close>
  A C integer is an \<^typ>\<open>int\<close>; every place where C reduces it is written out with the conversions \<^verbatim>\<open>u32\<close>, \<^verbatim>\<open>u64\<close> and
  \<^verbatim>\<open>s32\<close>.  A byte of memory is an 8-bit word.  A pointer is its address, \<^verbatim>\<open>NULL\<close> is 0.  A structure in memory is the
  bytes it has there, read and written field by field at the compiler's offsets, so that two structures may overlap and the
  theorems say when they must not; a structure that only lives in a variable is a record.

  A function that can go wrong has the type \<^verbatim>\<open>'a cres\<close>: no outcome (it runs for ever), a fault (a failed assertion, a panic,
  a null pointer, a division by zero), or a result.  A loop that structural recursion does not cover is a \<^verbatim>\<open>partial_function\<close>, so no
  fuel is chosen anywhere; that such a loop ends is part of the theorems about it, which say that there is a result.

  What C leaves open is a parameter too: \<^verbatim>\<open>eval_order\<close> in \<^verbatim>\<open>Am_Timer\<close> is the order in which the compiler evaluates the
  initializers that read the clock.  Several processors (\<^verbatim>\<open>Spinlock\<close>, \<^verbatim>\<open>Am_Mpe\<close>) are step relations, one step for each atomic
  exchange or store to a shared variable.

  A device is not the program's.  The model has one parameter of type \<^verbatim>\<open>hardware\<close>, which answers each read from the list of
  all accesses so far; what the drivers rely on is a hypothesis on it: the ATA protocol with a controller that is busy
  finitely long (\<^verbatim>\<open>ata_disk\<close> in \<^verbatim>\<open>Am_Disk\<close>), a clock that advances slowly against the accesses (\<^verbatim>\<open>Am_Timer\<close>), a local
  interrupt controller that delivers (\<^verbatim>\<open>idle_after\<close> in \<^verbatim>\<open>Am_Boot\<close>).  Each of them is shown to hold of a concrete device in
  a witness.  Memory-mapped registers and the frame buffer are kept apart from the rest of memory by hypotheses on addresses.

  \<^bold>\<open>Interfaces.\<close>
  \<^verbatim>\<open>cell\<close> and \<^verbatim>\<open>node_field\<close> (laws of a field of memory, interpreted on the 32- and 64-bit loads and stores and on the four node
  fields), \<^verbatim>\<open>lock_interface\<close> (taking and releasing a lock, on the spin lock), \<^verbatim>\<open>allocator\<close> (blocks are owned, disjoint and
  keep what is written, on \<^verbatim>\<open>kalloc\<close>), \<^verbatim>\<open>page_source\<close> (what the page tables ask of their page allocator, on
  \<^verbatim>\<open>kalloc\<close> again), \<^verbatim>\<open>format_loop\<close> (one directive of a format at a time, on \<^verbatim>\<open>printf\<close>, \<^verbatim>\<open>vsprintf\<close> and \<^verbatim>\<open>vsnprintf\<close>) and
  \<^verbatim>\<open>elf_class\<close> (the loop over program headers, on the 32- and the 64-bit one).
\<close>

text \<open>
  \<^bold>\<open>What is shown.\<close>
  Allocator: \<^verbatim>\<open>pmm_init\<close> establishes the invariant; \<^verbatim>\<open>kalloc\<close> returns blocks that nobody else has; up to
  16 KiB they are zeroed, and aligned as long as all free regions and pages are aligned to pages; larger ones, the top of the highest free
  region that can hold them, are neither.  \<^verbatim>\<open>kfree\<close> gives a block back and merges it: for large blocks a refinement of an
  abstract free list, for small ones with the exception of a case in which free runs are dropped.  Programs of allocations and writes on any
  processors keep what they wrote; the lock excludes, a processor that waits gets it when it is free, and its owner can always free it.  Where
  the code is wrong the theorem says so: an exact fit of a large block writes its header below the block and leaves the region in the free
  list, a block freed in a full page takes the page's header for a free run, and the first small request on a processor asserts when
  there is no memory.

  Library: strings and memory with every overlap; the text that the output functions write, with the bound of
  \<^verbatim>\<open>vsnprintf\<close>, the assertion that an empty text fails, and the cases where \<^verbatim>\<open>printf\<close> runs on; \<^verbatim>\<open>atoi\<close> after \<^verbatim>\<open>sprintf\<close>; division of all pairs of 64-bit operands.

  Machine: \<^verbatim>\<open>map\<close>, \<^verbatim>\<open>unmap\<close> and \<^verbatim>\<open>protect\<close> against the translation a page walk computes, with failure only where the
  allocator has no pages left; the disk against an array of
  blocks, directly and through its device register; the clock, drawing and the tree of canvases against abstract pictures; contexts saved,
  resumed and created; gates, segments and routing of interrupts; start-up of the boot processor and of all others; the kernel image in memory.

  Kernel: \<^verbatim>\<open>os_run\<close> prints its greeting and four blocks that lie in the heap and do not overlap.

  \<^bold>\<open>Not modelled.\<close>
  The interleaving of two running calls of \<^verbatim>\<open>kalloc\<close> or \<^verbatim>\<open>kfree\<close>: the operations are sequential here, and the lock theory
  gives the exclusion; the fields a page shares with a \<^verbatim>\<open>kfree\<close> from another processor without a lock are not followed.
  Assembly (\<^verbatim>\<open>start.S\<close>, \<^verbatim>\<open>trap64.S\<close>, the stack switch of \<^verbatim>\<open>_start_c\<close> and \<^verbatim>\<open>__am_iret\<close> itself) and instructions that only load a
  register of the processor (\<^verbatim>\<open>lidt\<close>, \<^verbatim>\<open>lgdt\<close>, \<^verbatim>\<open>ltr\<close>, \<^verbatim>\<open>int\<close>): what is loaded is a result or a parameter.  The 32-bit
  variants in conditional code, which the kernel is not built with.  The native platform, which is made of the host's
  signals, \<^verbatim>\<open>mmap\<close>, \<^verbatim>\<open>fork\<close> and SDL, and NEMU, whose page table operations are empty in the code.  \<^verbatim>\<open>libco\<close>, an exercise with empty
  operations; the C++ support functions, which are empty; the test programs and the self tests under \<^verbatim>\<open>TEST\<close>.
\<close>

end
